(* ===== verification/Dhcp_Prelude.thy ===== *)
theory Dhcp_Prelude
  imports Main "HOL-Library.Word"
begin

text \<open>
  Shared vocabulary of the development: the machine integers of the C sources, the result
  type of a C function that may stop the process or touch memory outside an object, the two
  buffer primitives all byte-level components are written with, and big-endian (network
  order) integers.

  \<^item> \<open>byte\<close>, \<open>u16\<close>, \<open>u32\<close>: \<open>unsigned char\<close>, \<open>u_int16_t\<close>, \<open>u_int32_t\<close>.
  \<^item> \<open>'a cres\<close>: \<open>Ret v\<close> is a normal return, \<open>Fatal\<close> is \<open>log_fatal\<close> or a failed
    assertion (the process exits), \<open>Undef\<close> is a read or a write outside the object the
    code was given, or a division by zero. A memory safety theorem says that a function does
    not evaluate to \<open>Undef\<close>.
\<close>

unbundle bit_operations_syntax

type_synonym byte = "8 word"
type_synonym u16 = "16 word"
type_synonym u32 = "32 word"

named_theorems cres_simps \<open>evaluation of the result monad\<close>
named_theorems buf_simps \<open>reading from and writing to byte buffers\<close>
named_theorems be_simps \<open>big-endian integers\<close>

text \<open>The result codes the modelled functions return.\<close>

datatype isc_result = ISC_R_SUCCESS | ISC_R_NOMEMORY | ISC_R_NORESOURCES | ISC_R_NOTFOUND
  | ISC_R_FAILURE | DHCP_R_INVALIDARG

text \<open>The binding states of a lease.\<close>

abbreviation FTS_FREE :: byte where "FTS_FREE \<equiv> 1"
abbreviation FTS_ACTIVE :: byte where "FTS_ACTIVE \<equiv> 2"
abbreviation FTS_EXPIRED :: byte where "FTS_EXPIRED \<equiv> 3"
abbreviation FTS_RELEASED :: byte where "FTS_RELEASED \<equiv> 4"
abbreviation FTS_ABANDONED :: byte where "FTS_ABANDONED \<equiv> 5"
abbreviation FTS_RESET :: byte where "FTS_RESET \<equiv> 6"
abbreviation FTS_BACKUP :: byte where "FTS_BACKUP \<equiv> 7"

section \<open>Results of C functions\<close>

datatype 'a cres = Ret 'a | Fatal | Undef

fun bindC :: "'a cres \<Rightarrow> ('a \<Rightarrow> 'b cres) \<Rightarrow> 'b cres" where
  "bindC (Ret x) f = f x"
| "bindC Fatal f = Fatal"
| "bindC Undef f = Undef"

definition assertC :: "bool \<Rightarrow> unit cres" where
  "assertC b = (if b then Ret () else Fatal)"

definition definedC :: "bool \<Rightarrow> unit cres" where
  "definedC b = (if b then Ret () else Undef)"

lemma bindC_eq_Ret_iff [cres_simps]:
  "bindC m f = Ret y \<longleftrightarrow> (\<exists>x. m = Ret x \<and> f x = Ret y)"
  by (cases m) auto

lemma bindC_eq_Undef_iff [cres_simps]:
  "bindC m f = Undef \<longleftrightarrow> m = Undef \<or> (\<exists>x. m = Ret x \<and> f x = Undef)"
  by (cases m) auto

lemma bindC_eq_Fatal_iff [cres_simps]:
  "bindC m f = Fatal \<longleftrightarrow> m = Fatal \<or> (\<exists>x. m = Ret x \<and> f x = Fatal)"
  by (cases m) auto

lemma bindC_assoc: "bindC (bindC m f) g = bindC m (\<lambda>x. bindC (f x) g)"
  by (cases m) auto

lemma bindC_cong [fundef_cong]:
  "m = m' \<Longrightarrow> (\<And>x. m' = Ret x \<Longrightarrow> f x = g x) \<Longrightarrow> bindC m f = bindC m' g"
  by (cases m') auto

lemma assertC_eq [cres_simps]:
  "assertC b = Ret u \<longleftrightarrow> b" "assertC b = Fatal \<longleftrightarrow> \<not> b" "assertC b \<noteq> Undef"
  by (auto simp: assertC_def)

lemma definedC_eq [cres_simps]:
  "definedC b = Ret u \<longleftrightarrow> b" "definedC b = Undef \<longleftrightarrow> \<not> b" "definedC b \<noteq> Fatal"
  by (auto simp: definedC_def)

lemma guardC_True [simp]: "b \<Longrightarrow> assertC b = Ret ()" "b \<Longrightarrow> definedC b = Ret ()"
  by (auto simp: assertC_def definedC_def)

lemma guardC_False [simp]: "\<not> b \<Longrightarrow> assertC b = Fatal" "\<not> b \<Longrightarrow> definedC b = Undef"
  by (auto simp: assertC_def definedC_def)

text \<open>The outcomes of a call that is expected to return.\<close>

definition returns :: "'a cres \<Rightarrow> bool" where
  "returns m \<longleftrightarrow> (\<exists>x. m = Ret x)"

lemma returns_Ret [simp]: "returns (Ret x)"
  and returns_Fatal [simp]: "\<not> returns Fatal"
  and returns_Undef [simp]: "\<not> returns Undef"
  by (auto simp: returns_def)

lemma returns_bindC [cres_simps]: "returns (bindC m f) \<longleftrightarrow> (\<exists>x. m = Ret x \<and> returns (f x))"
  by (cases m) auto

section \<open>Arrays\<close>

text \<open>
  An array object is a list; \<open>rd\<close> and \<open>wr\<close> are one element accesses, \<open>rdn\<close> and
  \<open>wrn\<close> are \<open>memcpy\<close> out of and into it.
\<close>

definition rd :: "'a list \<Rightarrow> nat \<Rightarrow> 'a cres" where
  "rd a i = (if i < length a then Ret (a ! i) else Undef)"

definition wr :: "'a list \<Rightarrow> nat \<Rightarrow> 'a \<Rightarrow> 'a list cres" where
  "wr a i x = (if i < length a then Ret (a[i := x]) else Undef)"

definition rdn :: "'a list \<Rightarrow> nat \<Rightarrow> nat \<Rightarrow> 'a list cres" where
  "rdn a i n = (if i + n \<le> length a then Ret (take n (drop i a)) else Undef)"

definition wrn :: "'a list \<Rightarrow> nat \<Rightarrow> 'a list \<Rightarrow> 'a list cres" where
  "wrn a i xs = (if i + length xs \<le> length a
     then Ret (take i a @ xs @ drop (i + length xs) a) else Undef)"

text \<open>Reading a pointer from an array in order to follow it: following NULL is undefined.\<close>

definition rdp :: "'a option list \<Rightarrow> nat \<Rightarrow> 'a cres" where
  "rdp a i = bindC (rd a i) (\<lambda>p. case p of None \<Rightarrow> Undef | Some x \<Rightarrow> Ret x)"

lemma rdp_in [simp]: "i < length a \<Longrightarrow> a ! i = Some x \<Longrightarrow> rdp a i = Ret x"
  by (simp add: rdp_def rd_def)

lemma rdp_Ret [buf_simps]: "rdp a i = Ret x \<longleftrightarrow> i < length a \<and> a ! i = Some x"
  by (auto simp: rdp_def rd_def split: option.splits)

lemma rd_Ret [buf_simps]: "rd a i = Ret x \<longleftrightarrow> i < length a \<and> x = a ! i"
  and rd_Undef [buf_simps]: "rd a i = Undef \<longleftrightarrow> length a \<le> i"
  and rd_Fatal [simp]: "rd a i \<noteq> Fatal"
  by (auto simp: rd_def)

lemma wr_Ret [buf_simps]: "wr a i x = Ret b \<longleftrightarrow> i < length a \<and> b = a[i := x]"
  and wr_Undef [buf_simps]: "wr a i x = Undef \<longleftrightarrow> length a \<le> i"
  and wr_Fatal [simp]: "wr a i x \<noteq> Fatal"
  by (auto simp: wr_def)

lemma rdn_Ret [buf_simps]: "rdn a i n = Ret xs \<longleftrightarrow> i + n \<le> length a \<and> xs = take n (drop i a)"
  and rdn_Undef [buf_simps]: "rdn a i n = Undef \<longleftrightarrow> length a < i + n"
  and rdn_Fatal [simp]: "rdn a i n \<noteq> Fatal"
  by (auto simp: rdn_def)

lemma wrn_Ret [buf_simps]: "wrn a i xs = Ret b \<longleftrightarrow>
    i + length xs \<le> length a \<and> b = take i a @ xs @ drop (i + length xs) a"
  and wrn_Undef [buf_simps]: "wrn a i xs = Undef \<longleftrightarrow> length a < i + length xs"
  and wrn_Fatal [simp]: "wrn a i xs \<noteq> Fatal"
  by (auto simp: wrn_def)

lemma rd_in [simp]: "i < length a \<Longrightarrow> rd a i = Ret (a ! i)"
  and wr_in [simp]: "i < length a \<Longrightarrow> wr a i x = Ret (a[i := x])"
  by (auto simp: rd_def wr_def)

lemma nth_upd: "a[i := x] ! k = (if k = i \<and> i < length a then x else a ! k)"
  by (cases "i < length a") (auto simp: list_update_beyond)

text \<open>The indices a loop from \<open>i\<close> over \<open>n + 1\<close> elements visits.\<close>

lemma all_from_Suc:
  "(\<forall>j. i \<le> j \<and> j < i + Suc n \<longrightarrow> P j) \<longleftrightarrow> P i \<and> (\<forall>j. i + 1 \<le> j \<and> j < i + 1 + n \<longrightarrow> P j)"
proof (intro iffI conjI allI impI)
  fix j
  assume r: "P i \<and> (\<forall>j. i + 1 \<le> j \<and> j < i + 1 + n \<longrightarrow> P j)" and j: "i \<le> j \<and> j < i + Suc n"
  show "P j" using r j by (cases "j = i") auto
qed auto

lemma length_wrn: "wrn a i xs = Ret b \<Longrightarrow> length b = length a"
  by (auto simp: wrn_Ret)

lemma rdn_wrn: "wrn a i xs = Ret b \<Longrightarrow> rdn b i (length xs) = Ret xs"
  by (auto simp: wrn_Ret rdn_def)

lemma nth_wrn_outside:
  "wrn a i xs = Ret b \<Longrightarrow> k < length a \<Longrightarrow> k < i \<or> i + length xs \<le> k \<Longrightarrow> b ! k = a ! k"
  by (auto simp: wrn_Ret nth_append)

text \<open>The buffer after a sequence of writes from an index on.\<close>

definition put :: "'a list \<Rightarrow> nat \<Rightarrow> 'a list \<Rightarrow> 'a list" where
  "put a i xs = take i a @ xs @ drop (i + length xs) a"

lemma length_put [simp]: "i + length xs \<le> length a \<Longrightarrow> length (put a i xs) = length a"
  by (simp add: put_def)

lemma wrn_in: "i + length xs \<le> length a \<Longrightarrow> wrn a i xs = Ret (put a i xs)"
  by (simp add: wrn_def put_def)

lemma put_Nil [simp]: "put a i [] = a"
  by (simp add: put_def)

lemma take_put: "i + length xs \<le> length a \<Longrightarrow> take (i + length xs) (put a i xs) = take i a @ xs"
  by (simp add: put_def)

lemma take_put_0 [simp]: "length xs \<le> length a \<Longrightarrow> take (length xs) (put a 0 xs) = xs"
  by (simp add: put_def)

lemma wrn_put:
  assumes "i + length xs + length ys \<le> length a"
  shows "wrn (put a i xs) (i + length xs) ys = Ret (put a i (xs @ ys))"
  using assms by (simp add: wrn_def put_def ac_simps)

lemma wr_put:
  assumes "i + length xs < length a"
  shows "wr (put a i xs) (i + length xs) y = Ret (put a i (xs @ [y]))"
proof -
  have d: "drop (i + length xs) a = a ! (i + length xs) # drop (i + length xs + 1) a"
    using Cons_nth_drop_Suc [OF assms] by simp
  show ?thesis using assms by (simp add: wr_def put_def d list_update_append)
qed

lemma put_extend:
  assumes "i + length xs < length a"
  shows "put a i (xs @ [a ! (i + length xs)]) = put a i xs"
  using assms by (simp add: put_def Cons_nth_drop_Suc)

lemma wr_put_inside:
  assumes "i + length xs + Suc (length ys) \<le> length a"
  shows "wr (put a i (xs @ x # ys)) (i + length xs) y = Ret (put a i (xs @ y # ys))"
  using assms by (simp add: wr_def put_def list_update_append)

text \<open>\<open>strlen\<close> of the string at the head of a memory object.\<close>

fun strlen_from :: "byte list \<Rightarrow> nat cres" where
  "strlen_from [] = Undef"
| "strlen_from (c # cs) = (if c = 0 then Ret 0 else bindC (strlen_from cs) (\<lambda>n. Ret (n + 1)))"

lemma strlen_append [simp]: "0 \<notin> set xs \<Longrightarrow> strlen_from (xs @ 0 # ys) = Ret (length xs)"
  by (induction xs) auto

section \<open>Network byte order\<close>

fun be_val :: "byte list \<Rightarrow> nat" where
  "be_val [] = 0"
| "be_val (b # bs) = unat b * 256 ^ length bs + be_val bs"

fun be_bytes :: "nat \<Rightarrow> nat \<Rightarrow> byte list" where
  "be_bytes 0 v = []"
| "be_bytes (Suc n) v = of_nat (v div 256 ^ n mod 256) # be_bytes n v"

lemma length_be_bytes [simp]: "length (be_bytes n v) = n"
  by (induction n) auto

lemma unat_byte_lt [simp]: "unat (b :: byte) < 256"
proof -
  have "unat b < 2 ^ LENGTH(8)" by (rule unsigned_less)
  then show ?thesis by simp
qed

lemma unat_of_nat_byte [be_simps]: "unat (of_nat n :: byte) = n mod 256"
  by (simp add: unat_of_nat)

lemma be_val_lt: "be_val bs < 256 ^ length bs"
proof (induction bs)
  case Nil
  then show ?case by simp
next
  case (Cons b bs)
  have "unat b * 256 ^ length bs \<le> 255 * 256 ^ length bs"
    using unat_byte_lt [of b] by (intro mult_right_mono) linarith+
  with Cons have "unat b * 256 ^ length bs + be_val bs < 256 * 256 ^ length bs"
    by linarith
  then show ?case by simp
qed

lemma be_val_be_bytes: "be_val (be_bytes n v) = v mod 256 ^ n"
proof (induction n)
  case 0
  then show ?case by simp
next
  case (Suc n)
  have "v mod 256 ^ Suc n = 256 ^ n * (v div 256 ^ n mod 256) + v mod 256 ^ n"
    using mod_mult2_eq [of v "256 ^ n" 256] by (simp add: mult.commute)
  with Suc show ?case by (simp add: unat_of_nat_byte)
qed

lemma be_bytes_be_val: "length bs = n \<Longrightarrow> be_bytes n (be_val bs + k * 256 ^ n) = bs"
proof (induction bs arbitrary: n k)
  case Nil
  then show ?case by simp
next
  case (Cons b bs)
  let ?m = "length bs"
  have n: "n = Suc ?m" using Cons.prems by simp
  have e: "be_val (b # bs) + k * 256 ^ n = be_val bs + (unat b + k * 256) * 256 ^ ?m"
    by (simp add: n algebra_simps)
  have "(be_val bs + (unat b + k * 256) * 256 ^ ?m) div 256 ^ ?m = unat b + k * 256"
    using be_val_lt [of bs] by (simp add: div_mult_self1)
  then show ?case
    using Cons.IH [of ?m "unat b + k * 256"] unfolding n e [unfolded n]
    by (simp add: unat_of_nat)
qed

lemma be_bytes_inverse [be_simps]: "length bs = n \<Longrightarrow> be_bytes n (be_val bs) = bs"
  using be_bytes_be_val [of bs n 0] by simp

lemma be_val_inj: "length xs = length ys \<Longrightarrow> be_val xs = be_val ys \<Longrightarrow> xs = ys"
  by (metis be_bytes_inverse)

lemma be_val_append: "be_val (xs @ ys) = be_val xs * 256 ^ length ys + be_val ys"
  by (induction xs) (auto simp: power_add algebra_simps)

text \<open>Single bytes of a number in network order.\<close>

lemma be_bytes_nth: "i < n \<Longrightarrow> be_bytes n v ! i = of_nat (v div 256 ^ (n - Suc i) mod 256)"
proof (induction n arbitrary: i)
  case (Suc n)
  then show ?case by (cases i) auto
qed simp

lemma be_val_nth:
  assumes "i < length xs"
  shows "unat (xs ! i) = be_val xs div 256 ^ (length xs - Suc i) mod 256"
proof -
  have "xs ! i = of_nat (be_val xs div 256 ^ (length xs - Suc i) mod 256)"
    using be_bytes_nth [OF assms, of "be_val xs"] by (simp add: be_bytes_inverse)
  then show ?thesis by (simp add: unat_of_nat_byte)
qed

section \<open>Bitwise operations on byte strings\<close>

lemma bit_mult_add:
  fixes a c :: nat
  assumes "c < 2 ^ k"
  shows "bit (a * 2 ^ k + c) i = (if i < k then bit c i else bit a (i - k))"
proof (cases "i < k")
  case True
  then have "a * 2 ^ k = a * 2 ^ (k - i) * 2 ^ i" by (simp add: power_add [symmetric] mult.assoc)
  then have "(a * 2 ^ k + c) div 2 ^ i = a * 2 ^ (k - i) + c div 2 ^ i"
    by (simp only: div_mult_self3 [of "2 ^ i"] power_not_zero) simp
  moreover have "even (a * 2 ^ (k - i))" using True by simp
  ultimately show ?thesis using True by (simp add: bit_iff_odd)
next
  case False
  then have "(2 :: nat) ^ i = 2 ^ k * 2 ^ (i - k)" by (simp flip: power_add)
  then have "(a * 2 ^ k + c) div 2 ^ i = a div 2 ^ (i - k)"
    using assms by (simp add: div_mult2_eq)
  with False show ?thesis by (simp add: bit_iff_odd)
qed

lemma and_lt: "c < 2 ^ k \<Longrightarrow> (c :: nat) AND d < 2 ^ k"
  and or_lt: "c < 2 ^ k \<Longrightarrow> d < 2 ^ k \<Longrightarrow> (c :: nat) OR d < 2 ^ k"
  by (metis take_bit_nat_eq_self_iff and.left_commute and.commute take_bit_eq_mask,
      metis take_bit_nat_eq_self_iff take_bit_or)

lemma and_mult_add:
  fixes a b c d :: nat
  assumes "c < 2 ^ k" "d < 2 ^ k"
  shows "(a * 2 ^ k + c) AND (b * 2 ^ k + d) = (a AND b) * 2 ^ k + (c AND d)"
    and "(a * 2 ^ k + c) OR (b * 2 ^ k + d) = (a OR b) * 2 ^ k + (c OR d)"
  using assms
  by (auto intro!: bit_eqI simp: bit_and_iff bit_or_iff bit_mult_add and_lt or_lt)

lemma be_val_map2:
  assumes "length xs = length ys"
  shows "be_val (map2 (AND) xs ys) = be_val xs AND be_val ys"
    and "be_val (map2 (OR) xs ys) = be_val xs OR be_val ys"
proof -
  have p: "(256 :: nat) ^ n = 2 ^ (8 * n)" for n by (simp add: power_mult)
  have "be_val (map2 (AND) xs ys) = (be_val xs AND be_val ys)
      \<and> be_val (map2 (OR) xs ys) = (be_val xs OR be_val ys)"
    using assms
  proof (induction xs ys rule: list_induct2)
    case (Cons x xs y ys)
    then show ?case
      using and_mult_add [of "be_val xs" "8 * length xs" "be_val ys" "unat x" "unat y"]
        be_val_lt [of xs] be_val_lt [of ys]
      by (simp add: p unsigned_and_eq unsigned_or_eq)
  qed simp
  then show "be_val (map2 (AND) xs ys) = be_val xs AND be_val ys"
    "be_val (map2 (OR) xs ys) = be_val xs OR be_val ys" by auto
qed

end
