(* ===== verification/Convert.thy ===== *)
theory Convert
  imports Dhcp_Prelude
begin

text \<open>
  Model of \<open>omapip/convert.c\<close>: integers in network byte order read from and written to a
  buffer, and their conversion to digits. A pointer argument is a buffer and an offset; the
  value of \<open>ntohl\<close> of four bytes copied from memory is their big-endian value on every
  host.
\<close>

section \<open>Reading and writing integers\<close>

definition getULong :: "byte list \<Rightarrow> nat \<Rightarrow> u32 cres" where
  "getULong buf i = bindC (rdn buf i 4) (\<lambda>bs. Ret (of_nat (be_val bs)))"

text \<open>\<open>int32_t\<close> results are integers: the conversion of the unsigned 32-bit value.\<close>

definition getLong :: "byte list \<Rightarrow> nat \<Rightarrow> int cres" where
  "getLong buf i = bindC (rdn buf i 4) (\<lambda>bs. Ret (sint (of_nat (be_val bs) :: u32)))"

definition getUShort :: "byte list \<Rightarrow> nat \<Rightarrow> u32 cres" where
  "getUShort buf i = bindC (rdn buf i 2) (\<lambda>bs. Ret (of_nat (be_val bs)))"

text \<open>
  \<open>getShort\<close> reads a \<open>short\<close>, but returns what \<open>ntohs\<close> makes of it: an unsigned
  16-bit value, widened to \<open>int32_t\<close>.
\<close>

definition getShort :: "byte list \<Rightarrow> nat \<Rightarrow> int cres" where
  "getShort buf i = bindC (rdn buf i 2) (\<lambda>bs. Ret (uint (of_nat (be_val bs) :: u16)))"

definition putULong :: "byte list \<Rightarrow> nat \<Rightarrow> u32 \<Rightarrow> byte list cres" where
  "putULong obuf i val = wrn obuf i (be_bytes 4 (unat val))"

definition putLong :: "byte list \<Rightarrow> nat \<Rightarrow> int \<Rightarrow> byte list cres" where
  "putLong obuf i val = wrn obuf i (be_bytes 4 (unat (of_int val :: u32)))"

definition putUShort :: "byte list \<Rightarrow> nat \<Rightarrow> u32 \<Rightarrow> byte list cres" where
  "putUShort obuf i val = wrn obuf i (be_bytes 2 (unat (ucast val :: u16)))"

definition putShort :: "byte list \<Rightarrow> nat \<Rightarrow> int \<Rightarrow> byte list cres" where
  "putShort obuf i val = wrn obuf i (be_bytes 2 (unat (of_int val :: u16)))"

definition putUChar :: "byte list \<Rightarrow> nat \<Rightarrow> u32 \<Rightarrow> byte list cres" where
  "putUChar obuf i val = wr obuf i (ucast val)"

definition getUChar :: "byte list \<Rightarrow> nat \<Rightarrow> u32 cres" where
  "getUChar obuf i = bindC (rd obuf i) (\<lambda>b. Ret (ucast b))"

section \<open>Conversion to digits\<close>

text \<open>
  The \<open>do\<close> loop of \<open>converted_length\<close>. \<open>column * base\<close> is a 32-bit product that
  wraps around; the loop ends at the first column that is not larger than the one before.
\<close>

function converted_length_loop :: "u32 \<Rightarrow> u32 \<Rightarrow> u32 \<Rightarrow> nat \<Rightarrow> nat" where
  "converted_length_loop number base column pw =
     (if number < column then pw
      else if column < column * base
        then converted_length_loop number base (column * base) (pw + 1)
        else pw + 1)"
  by pat_completeness auto
termination
proof (relation "measure (\<lambda>(number, base, column, pw). 2 ^ 32 - unat column)", goal_cases)
  case (2 number base column pw)
  have "unat (column * base) < 2 ^ LENGTH(32)" by (rule unsigned_less)
  with 2(2) show ?case by (simp add: word_less_nat_alt)
qed simp

declare converted_length_loop.simps [simp del]

text \<open>The number both functions start from: \<open>None\<close> is the \<open>return 0\<close> for a bad width.\<close>

definition convert_number :: "byte list \<Rightarrow> nat \<Rightarrow> u32 \<Rightarrow> u32 option cres" where
  "convert_number buf i width =
     (if width = 1 then bindC (getUChar buf i) (\<lambda>n. Ret (Some n))
      else if width = 2 then bindC (getUShort buf i) (\<lambda>n. Ret (Some n))
      else if width = 4 then bindC (getULong buf i) (\<lambda>n. Ret (Some n))
      else Ret None)"

definition converted_length :: "byte list \<Rightarrow> nat \<Rightarrow> u32 \<Rightarrow> u32 \<Rightarrow> nat cres" where
  "converted_length buf i base width =
     (if 16 < base then Ret 0
      else bindC (convert_number buf i width)
        (\<lambda>r. case r of None \<Rightarrow> Ret 0
           | Some number \<Rightarrow> Ret (converted_length_loop number base base 1)))"

definition h2a :: string where
  "h2a = ''0123456789abcdef''"

text \<open>The digit loop runs \<open>i\<close> from \<open>power - 1\<close> down to 0; the argument is \<open>i + 1\<close>.\<close>

fun binary_to_ascii_loop :: "string \<Rightarrow> u32 \<Rightarrow> u32 \<Rightarrow> nat \<Rightarrow> string cres" where
  "binary_to_ascii_loop outbuf number base 0 = Ret outbuf"
| "binary_to_ascii_loop outbuf number base (Suc i) =
     bindC (definedC (base \<noteq> 0)) (\<lambda>_.
     bindC (rd h2a (unat (number mod base))) (\<lambda>c.
     bindC (wr outbuf i c) (\<lambda>outbuf'.
       binary_to_ascii_loop outbuf' (number div base) base i)))"

definition binary_to_ascii ::
  "string \<Rightarrow> byte list \<Rightarrow> nat \<Rightarrow> u32 \<Rightarrow> u32 \<Rightarrow> (nat \<times> string) cres" where
  "binary_to_ascii outbuf inbuf i base width =
     bindC (converted_length inbuf i base width) (\<lambda>pw.
     if 16 < base then Ret (0, outbuf)
     else bindC (convert_number inbuf i width) (\<lambda>r. case r of
         None \<Rightarrow> Ret (0, outbuf)
       | Some number \<Rightarrow>
           bindC (binary_to_ascii_loop outbuf number base pw) (\<lambda>outbuf'.
             Ret (pw, outbuf'))))"

section \<open>Round trips\<close>

lemma unat_of_nat_u32 [be_simps]: "unat (of_nat n :: u32) = n mod 4294967296"
  by (simp add: unat_of_nat)

lemma unat_of_nat_u16 [be_simps]: "unat (of_nat n :: u16) = n mod 65536"
  by (simp add: unat_of_nat)

lemma unat_u32_lt: "unat (w :: u32) < 4294967296"
proof -
  have "unat w < 2 ^ LENGTH(32)" by (rule unsigned_less)
  then show ?thesis by simp
qed

lemma unat_u16_lt: "unat (w :: u16) < 65536"
proof -
  have "unat w < 2 ^ LENGTH(16)" by (rule unsigned_less)
  then show ?thesis by simp
qed

lemma be_val_bytes4: "be_val (be_bytes 4 (unat (w :: u32))) = unat w"
  using unat_u32_lt [of w] by (simp add: be_val_be_bytes)

lemma be_val_bytes2: "be_val (be_bytes 2 (unat (w :: u16))) = unat w"
  using unat_u16_lt [of w] by (simp add: be_val_be_bytes)

lemma rdn_wrn_n: "wrn a i xs = Ret b \<Longrightarrow> n = length xs \<Longrightarrow> rdn b i n = Ret xs"
  using rdn_wrn by blast

lemma getULong_putULong: "putULong buf i v = Ret buf' \<Longrightarrow> getULong buf' i = Ret v"
  by (simp add: putULong_def getULong_def rdn_wrn_n be_val_bytes4)

lemma getUShort_putUShort:
  "putUShort buf i v = Ret buf' \<Longrightarrow> getUShort buf' i = Ret (ucast (ucast v :: u16))"
  by (simp add: putUShort_def getUShort_def rdn_wrn_n be_val_bytes2)

lemma getLong_putLong:
  "putLong buf i v = Ret buf' \<Longrightarrow> - (2 ^ 31) \<le> v \<Longrightarrow> v < 2 ^ 31 \<Longrightarrow> getLong buf' i = Ret v"
  by (simp add: putLong_def getLong_def rdn_wrn_n be_val_bytes4 signed_of_int signed_take_bit_int_eq_self)

lemma getShort_putShort:
  "putShort buf i v = Ret buf' \<Longrightarrow> getShort buf' i = Ret (v mod 65536)"
  by (simp add: putShort_def getShort_def rdn_wrn_n be_val_bytes2 uint_word_of_int)

section \<open>Digits\<close>

definition ascii_digit :: "char \<Rightarrow> nat" where
  "ascii_digit c = length (takeWhile (\<lambda>d. d \<noteq> c) h2a)"

definition ascii_value :: "nat \<Rightarrow> string \<Rightarrow> nat" where
  "ascii_value base s = foldl (\<lambda>v c. v * base + ascii_digit c) 0 s"

lemma ascii_value_snoc: "ascii_value b (s @ [c]) = ascii_value b s * b + ascii_digit c"
  by (simp add: ascii_value_def)

lemma ascii_digit_h2a: "d < 16 \<Longrightarrow> ascii_digit (h2a ! d) = d"
proof -
  have "\<forall>d \<in> {..<16}. ascii_digit (h2a ! d) = d"
    unfolding ascii_digit_def h2a_def by code_simp
  then show "d < 16 \<Longrightarrow> ?thesis" by simp
qed

lemma length_h2a [simp]: "length h2a = 16"
  by (simp add: h2a_def)

lemma base_bounds:
  assumes "2 \<le> base" "base \<le> (16 :: u32)"
  shows "2 \<le> unat base" "unat base \<le> 16"
  using assms by (simp_all add: word_le_nat_alt)

text \<open>
  The length the loop returns is enough digits for the number: the column is the power of the
  base as long as it has not wrapped around, and once it has, that power is beyond 32 bits.
\<close>

lemma converted_length_loop_enough:
  assumes "2 \<le> unat base" "unat column = unat base ^ pw \<or> 2 ^ 32 \<le> unat base ^ pw"
  shows "unat number < unat base ^ converted_length_loop number base column pw"
  using assms
proof (induction number base column pw rule: converted_length_loop.induct)
  case (1 number base column pw)
  let ?b = "unat base"
  have n32: "unat number < 2 ^ 32" using unat_u32_lt [of number] by simp
  have big: "2 ^ 32 \<le> ?b ^ pw \<Longrightarrow> 2 ^ 32 \<le> ?b ^ Suc pw"
    using "1.prems"(1) by (auto intro: le_trans)
  have nxt: "unat (column * base) = ?b ^ Suc pw \<or> 2 ^ 32 \<le> ?b ^ Suc pw"
    using "1.prems"(2)
  proof
    assume c: "unat column = ?b ^ pw"
    show ?thesis
    proof (cases "?b ^ Suc pw < 2 ^ 32")
      case True
      then show ?thesis using c by (simp add: unat_word_ariths mult.commute)
    qed simp
  next
    assume "2 ^ 32 \<le> ?b ^ pw"
    then show ?thesis using big by blast
  qed
  consider (less) "number < column" | (rec) "\<not> number < column" "column < column * base"
    | (stop) "\<not> number < column" "\<not> column < column * base" by blast
  then show ?case
  proof cases
    case less
    then show ?thesis
      using "1.prems"(2) n32
      by (auto simp: converted_length_loop.simps [of number base column pw] word_less_nat_alt)
  next
    case rec
    then show ?thesis
      using "1.IH" "1.prems"(1) nxt by (simp add: converted_length_loop.simps [of number base column pw])
  next
    case stop
    have "2 ^ 32 \<le> ?b ^ Suc pw"
    proof (rule ccontr)
      assume "\<not> ?thesis"
      with nxt "1.prems"(2) big have e: "unat (column * base) = ?b * unat column"
        and "unat column = ?b ^ pw" by auto
      then have "unat column < unat (column * base)" using "1.prems"(1) by simp
      with stop(2) show False by (simp add: word_less_nat_alt)
    qed
    with stop n32 show ?thesis by (simp add: converted_length_loop.simps [of number base column pw])
  qed
qed

lemma binary_to_ascii_loop_correct:
  assumes "2 \<le> unat base" "unat base \<le> 16" "unat number < unat base ^ k" "k \<le> length out"
  shows "\<exists>out'. binary_to_ascii_loop out number base k = Ret out' \<and> length out' = length out
    \<and> ascii_value (unat base) (take k out') = unat number \<and> drop k out' = drop k out"
  using assms
proof (induction k arbitrary: number out)
  case 0
  then show ?case by (simp add: ascii_value_def)
next
  case (Suc k)
  let ?d = "unat number mod unat base"
  have d: "unat (number mod base) = ?d" "?d < 16" "base \<noteq> 0"
    using Suc.prems(1,2) by (auto simp: unat_mod_distrib intro: less_le_trans [of _ "unat base"])
  have q: "unat (number div base) = unat number div unat base" by (simp add: unat_div_distrib)
  have "unat (number div base) < unat base ^ k"
    using Suc.prems(1,3) by (simp add: q less_mult_imp_div_less mult.commute)
  then obtain out' where out': "binary_to_ascii_loop (out[k := h2a ! ?d]) (number div base) base k
      = Ret out'" and len: "length out' = length out"
    and val: "ascii_value (unat base) (take k out') = unat number div unat base"
    and tail: "drop k out' = drop k (out[k := h2a ! ?d])"
    using Suc.IH [of "number div base" "out[k := h2a ! ?d]"] Suc.prems by (auto simp: q)
  have k: "k < length out" using Suc.prems(4) by simp
  have "out' ! k = h2a ! ?d" and tail': "drop (Suc k) out' = drop (Suc k) out"
    using tail k len by (simp_all add: Cons_nth_drop_Suc [symmetric])
  then have "ascii_value (unat base) (take (Suc k) out') = unat number"
    using k len val d(2) by (simp add: take_Suc_conv_app_nth ascii_value_snoc ascii_digit_h2a)
  with out' len tail' k d show ?case by simp
qed

text \<open>
  For a power-of-two base the wrapped column is never larger than the one before it, so the
  length is also the least one.
\<close>

lemma converted_length_loop_least:
  assumes "base = 2 ^ k" "1 \<le> k" "k \<le> 4" "column = 2 ^ (k * pw)" "k * pw < 32" "1 \<le> pw"
    and "unat number \<ge> unat base ^ (pw - 1) \<or> pw = 1"
  shows "let q = converted_length_loop number base column pw
    in unat base ^ (q - 1) \<le> unat number \<or> q = 1"
  using assms
proof (induction number base column pw rule: converted_length_loop.induct)
  case (1 number base column pw)
  have unat2: "j < 32 \<Longrightarrow> unat (2 ^ j :: u32) = 2 ^ j" for j
    using unat_of_nat_u32 [of "2 ^ j"] power_strict_increasing [of j 32 "2 :: nat"] by simp
  have b: "unat base = 2 ^ k" using "1.prems" unat2 by simp
  have prod: "column * base = 2 ^ (k * Suc pw)"
    using "1.prems" by (simp add: power_add mult.commute)
  show ?case
  proof (cases "number < column")
    case True
    then have "converted_length_loop number base column pw = pw"
      by (simp add: converted_length_loop.simps [of number base column pw])
    with "1.prems"(7) show ?thesis by (auto simp: Let_def)
  next
    case False
    have ge: "unat base ^ pw \<le> unat number"
      using False "1.prems" unat2 [of "k * pw"] b
      by (simp add: word_less_nat_alt power_mult)
    show ?thesis
    proof (cases "column < column * base")
      case True
      have "k * Suc pw < 32"
      proof (rule ccontr)
        assume "\<not> ?thesis"
        then have "column * base = 0" by (simp add: prod)
        with True show False by simp
      qed
      moreover have "converted_length_loop number base column pw =
          converted_length_loop number base (column * base) (pw + 1)"
        using False True by (simp add: converted_length_loop.simps [of number base column pw])
      ultimately show ?thesis
        using "1.IH" [OF False True] "1.prems"(1-3) ge prod by (simp add: Let_def)
    next
      case stop: False
      with False have "converted_length_loop number base column pw = pw + 1"
        by (simp add: converted_length_loop.simps [of number base column pw])
      with ge show ?thesis by (simp add: Let_def)
    qed
  qed
qed

section \<open>Properties\<close>

text \<open>\<open>getULong\<close> reads back the value \<open>putULong\<close> has written anywhere inside a buffer, and the
  write touches the four bytes at that offset only.\<close>

theorem getULong_after_putULong:
  assumes "i + 4 \<le> length buf"
  shows "\<exists>buf'. putULong buf i v = Ret buf' \<and> getULong buf' i = Ret v \<and> length buf' = length buf
    \<and> (\<forall>k < length buf. k < i \<or> i + 4 \<le> k \<longrightarrow> buf' ! k = buf ! k)"
proof -
  obtain buf' where w: "putULong buf i v = Ret buf'"
    using assms by (simp add: putULong_def wrn_def)
  then have "wrn buf i (be_bytes 4 (unat v)) = Ret buf'" by (simp add: putULong_def)
  from length_wrn [OF this] nth_wrn_outside [OF this] getULong_putULong [OF w] w
  show ?thesis by auto
qed

text \<open>C20: for the bases 2 to 16 and the widths 1, 2 and 4, \<open>binary_to_ascii\<close> writes the digits of
  the number in the buffer: read back in that base, the characters it has written are the
  number, and the rest of the output is unchanged. The output must have room for the digits
  \<open>converted_length\<close> announces.\<close>

theorem binary_to_ascii_digits:
  assumes base: "2 \<le> base" "base \<le> 16" and num: "convert_number inbuf i width = Ret (Some number)"
    and len: "converted_length inbuf i base width = Ret n" and room: "n \<le> length outbuf"
  shows "\<exists>out. binary_to_ascii outbuf inbuf i base width = Ret (n, out) \<and> length out = length outbuf
    \<and> ascii_value (unat base) (take n out) = unat number \<and> drop n out = drop n outbuf"
proof -
  note b = base_bounds [OF base]
  have nb: "\<not> 16 < base" using base by simp
  have n: "n = converted_length_loop number base base 1"
    using len num nb by (simp add: converted_length_def)
  have "unat number < unat base ^ n"
    unfolding n using converted_length_loop_enough [OF b(1), of base 1 number] by simp
  from binary_to_ascii_loop_correct [OF b this room] show ?thesis
    using len num nb by (auto simp: binary_to_ascii_def)
qed

theorem binary_to_ascii_digits_witness:
  "\<exists>out. binary_to_ascii ''....'' [0, 255] 1 16 1 = Ret (2, out) \<and> length out = length ''....''
    \<and> ascii_value (unat (16 :: u32)) (take 2 out) = unat (255 :: u32) \<and> drop 2 out = drop 2 ''....''"
  by (rule binary_to_ascii_digits)
    (simp_all add: convert_number_def getUChar_def converted_length_def
      converted_length_loop.simps)

text \<open>The number of decimal digits of a number.\<close>

fun decimal_digits :: "nat \<Rightarrow> nat" where
  "decimal_digits n = (if n < 10 then 1 else decimal_digits (n div 10) + 1)"

declare decimal_digits.simps [simp del]

lemma decimal_digits_eq: "10 ^ k \<le> n \<Longrightarrow> n < 10 ^ Suc k \<Longrightarrow> decimal_digits n = Suc k"
proof (induction k arbitrary: n)
  case 0
  then show ?case by (subst decimal_digits.simps) simp
next
  case (Suc k)
  have "(10 :: nat) * 1 \<le> 10 ^ Suc k" unfolding power_Suc by (rule mult_le_mono2) simp
  then have "\<not> n < 10" using Suc.prems(1) by linarith
  moreover have "10 ^ k \<le> n div 10" "n div 10 < 10 ^ Suc k"
    using Suc.prems by (auto simp: less_mult_imp_div_less less_eq_div_iff_mult_less_eq mult.commute)
  ultimately show ?case using Suc.IH [of "n div 10"] by (subst decimal_digits.simps) simp
qed

text \<open>The decimal columns as the loop sees them: the one after \<open>10 ^ 9\<close> is \<open>10 ^ 10\<close> cut to 32 bits.\<close>

lemma decimal_columns:
  "converted_length_loop number 10 10 1 =
     (if number < 10 then 1 else if number < 100 then 2 else if number < 1000 then 3 else if number < 10000 then 4
      else if number < 100000 then 5 else if number < 1000000 then 6 else if number < 10000000 then 7
      else if number < 100000000 then 8 else if number < 1000000000 then 9
      else if number < 1410065408 then 10 else 11)"
proof -
  have e: "(10000000000 :: u32) = 1410065408" by simp
  show ?thesis by (simp add: converted_length_loop.simps e)
qed

text \<open>C21: the length \<open>converted_length\<close> gives for a 32-bit number in base 10 is its number of decimal
  digits if the number is below 1410065408, which is \<open>10 ^ 10\<close> modulo \<open>2 ^ 32\<close>, and 11 for every
  number from there on, which has ten digits: the column wraps around to a value that is larger than
  the one before it, so the loop does not see the wrap.\<close>

theorem converted_length_base10:
  assumes "n < 2 ^ 32"
  shows "converted_length (be_bytes 4 n) 0 10 4 = Ret (if n < 1410065408 then decimal_digits n else 11)
    \<and> (1410065408 \<le> n \<longrightarrow> decimal_digits n = 10)"
proof -
  have u: "unat (word_of_nat n :: u32) = n" using assms by (simp add: unat_of_nat)
  have "convert_number (be_bytes 4 n) 0 4 = Ret (Some (word_of_nat n))"
    using assms by (simp add: convert_number_def getULong_def rdn_def be_val_be_bytes)
  then have len: "converted_length (be_bytes 4 n) 0 10 4 = Ret (converted_length_loop (word_of_nat n) 10 10 1)"
    by (simp add: converted_length_def)
  have dd: "decimal_digits n = (if n < 10 then 1 else if n < 100 then 2 else if n < 1000 then 3 else if n < 10000 then 4
      else if n < 100000 then 5 else if n < 1000000 then 6 else if n < 10000000 then 7
      else if n < 100000000 then 8 else if n < 1000000000 then 9 else 10)"
    using assms decimal_digits.simps [of n] decimal_digits_eq [of 1 n] decimal_digits_eq [of 2 n] decimal_digits_eq [of 3 n]
      decimal_digits_eq [of 4 n] decimal_digits_eq [of 5 n] decimal_digits_eq [of 6 n] decimal_digits_eq [of 7 n]
      decimal_digits_eq [of 8 n] decimal_digits_eq [of 9 n] by simp
  show ?thesis
    unfolding len decimal_columns dd by (simp add: word_less_nat_alt u)
qed

theorem converted_length_base10_witness:
  "converted_length (be_bytes 4 4000000000) 0 10 4 = Ret 11"
  using converted_length_base10 [of 4000000000] by simp

end
