(* ===== verification/Lease_Chain.thy ===== *)
theory Lease_Chain
  imports Dhcp_Prelude
begin

text \<open>
  Model of \<open>server/leasechain.c\<close>: the lease queue of a pool as an array of lease pointers,
  searched by bisection, on top of a doubly linked list of the same leases. Leases live in a
  store indexed by their addresses. \<open>lease_reference\<close> stores into NULL pointers only and
  \<open>lease_dereference\<close> clears a pointer; the reference counts behind them are not modelled, so
  no lease is destroyed while it is on a queue. \<open>alloc_ok\<close> is the outcome of \<open>dmalloc\<close>, which
  returns cleared memory, and \<open>rnd\<close> the value of \<open>random()\<close>.
\<close>

type_synonym lid = nat

record lease =
  next_l :: "lid option"
  prev_l :: "lid option"
  lc_l :: "nat option"
  ends_l :: int
  sort_time :: int
  sort_tiebreaker :: int
  client_hostname :: "string option"
  scope_l :: "nat option"
  host_l :: "nat option"
  pool_l :: "nat option"
  billing_class :: "nat option"
  agent_options :: "nat option"
  on_expiry :: "nat option"
  on_commit :: "nat option"
  on_release :: "nat option"
  flags_l :: byte
  binding_state :: byte
  next_binding_state :: byte
  desired_binding_state :: byte
  rewind_binding_state :: byte
  tstp_l :: int
  tsfp_l :: int
  atsfp_l :: int

type_synonym lstore = "lid \<Rightarrow> lease"

record leasechain =
  list_lc :: "lid option list"
  total_lc :: nat
  nelem :: nat
  growth :: nat

definition lease_reference :: "lid option \<Rightarrow> lid \<Rightarrow> lid option" where
  "lease_reference ptr l = (case ptr of None \<Rightarrow> Some l | Some q \<Rightarrow> Some q)"

definition LC_GROWTH_DELTA :: nat where
  "LC_GROWTH_DELTA = 256"

definition LONG_MAX :: int where
  "LONG_MAX = 2 ^ 63 - 1"

definition lc_not_empty :: "leasechain \<Rightarrow> bool" where
  "lc_not_empty lc \<longleftrightarrow> nelem lc > 0"

definition lc_get_first_lease :: "leasechain \<Rightarrow> lid option cres" where
  "lc_get_first_lease lc = (if nelem lc > 0 then rd (list_lc lc) 0 else Ret None)"

definition lc_get_next :: "lstore \<Rightarrow> lid \<Rightarrow> lid option" where
  "lc_get_next s lp = next_l (s lp)"

text \<open>The sort order of the chain: \<open>sort_time\<close>, then \<open>sort_tiebreaker\<close>.\<close>

definition key_gt :: "lease \<Rightarrow> lease \<Rightarrow> bool" where
  "key_gt a b \<longleftrightarrow> sort_time a > sort_time b
     \<or> (sort_time a = sort_time b \<and> sort_tiebreaker a > sort_tiebreaker b)"

definition key_differs :: "lease \<Rightarrow> lease \<Rightarrow> bool" where
  "key_differs a b \<longleftrightarrow> sort_time a \<noteq> sort_time b
     \<or> (sort_time a = sort_time b \<and> sort_tiebreaker a \<noteq> sort_tiebreaker b)"

function lc_binary_search_insert_point ::
  "leasechain \<Rightarrow> lstore \<Rightarrow> lid \<Rightarrow> nat \<Rightarrow> nat \<Rightarrow> nat cres" where
  "lc_binary_search_insert_point lc s lp lo hi =
     (if hi < lo then Undef
      else let mid_index = (hi - lo) div 2 + lo in
        bindC (rdp (list_lc lc) mid_index) (\<lambda>m.
        if key_gt (s m) (s lp) then
          (if mid_index = lo then Ret lo
           else lc_binary_search_insert_point lc s lp lo (mid_index - 1))
        else if key_gt (s lp) (s m) then
          (if mid_index = hi then Ret (mid_index + 1)
           else lc_binary_search_insert_point lc s lp (mid_index + 1) hi)
        else Ret mid_index))"
  by pat_completeness auto
termination
  by (relation "measure (\<lambda>(lc, s, lp, lo, hi). hi - lo)") auto

declare lc_binary_search_insert_point.simps [simp del]

text \<open>The two linear scans for the lease itself among the entries with an equal key.\<close>

function lc_scan_down :: "leasechain \<Rightarrow> lstore \<Rightarrow> lid \<Rightarrow> nat \<Rightarrow> nat \<Rightarrow> nat option cres" where
  "lc_scan_down lc s lp lo i =
     bindC (rd (list_lc lc) i) (\<lambda>p.
     if p = Some lp then Ret (Some i)
     else if i \<le> lo then Ret None
     else case p of None \<Rightarrow> Undef
       | Some m \<Rightarrow> if key_differs (s m) (s lp) then Ret None
                   else lc_scan_down lc s lp lo (i - 1))"
  by pat_completeness auto
termination
  by (relation "measure (\<lambda>(lc, s, lp, lo, i). i)") auto

function lc_scan_up :: "leasechain \<Rightarrow> lstore \<Rightarrow> lid \<Rightarrow> nat \<Rightarrow> nat \<Rightarrow> nat option cres" where
  "lc_scan_up lc s lp hi i =
     (if i \<le> hi then
        bindC (rd (list_lc lc) i) (\<lambda>p.
        if p = Some lp then Ret (Some i)
        else case p of None \<Rightarrow> Undef
          | Some m \<Rightarrow> if key_differs (s m) (s lp) then Ret None
                      else lc_scan_up lc s lp hi (i + 1))
      else Ret None)"
  by pat_completeness auto
termination
  by (relation "measure (\<lambda>(lc, s, lp, hi, i). Suc hi - i)") auto

declare lc_scan_down.simps [simp del] lc_scan_up.simps [simp del]

text \<open>\<open>None\<close> is the result \<open>SIZE_MAX\<close>.\<close>

function lc_binary_search_lease ::
  "leasechain \<Rightarrow> lstore \<Rightarrow> lid \<Rightarrow> nat \<Rightarrow> nat \<Rightarrow> nat option cres" where
  "lc_binary_search_lease lc s lp lo hi =
     (if hi < lo then Ret None
      else let mid_index = (hi - lo) div 2 + lo in
        bindC (rdp (list_lc lc) mid_index) (\<lambda>m.
        if key_gt (s m) (s lp) then
          (if mid_index = lo then Ret None
           else lc_binary_search_lease lc s lp lo (mid_index - 1))
        else if key_gt (s lp) (s m) then
          lc_binary_search_lease lc s lp (mid_index + 1) hi
        else if lp = m then Ret (Some mid_index)
        else
          bindC (if mid_index > lo then lc_scan_down lc s lp lo (mid_index - 1) else Ret None)
            (\<lambda>r. case r of Some i \<Rightarrow> Ret (Some i)
              | None \<Rightarrow> if mid_index < hi then lc_scan_up lc s lp hi (mid_index + 1)
                        else Ret None)))"
  by pat_completeness auto
termination
  by (relation "measure (\<lambda>(lc, s, lp, lo, hi). Suc hi - lo)") auto

declare lc_binary_search_lease.simps [simp del]

definition lc_grow_chain :: "bool \<Rightarrow> leasechain \<Rightarrow> leasechain cres" where
  "lc_grow_chain alloc_ok lc =
     (let temp_size = total_lc lc + (if growth lc = 0 then LC_GROWTH_DELTA else growth lc) in
      bindC (assertC alloc_ok) (\<lambda>_.
      bindC (rdn (list_lc lc) 0 (nelem lc)) (\<lambda>old.
        Ret (lc\<lparr>list_lc := old @ replicate (temp_size - nelem lc) None, total_lc := temp_size\<rparr>))))"

definition lc_link_lcp ::
  "nat \<Rightarrow> bool \<Rightarrow> leasechain \<Rightarrow> lstore \<Rightarrow> lid \<Rightarrow> nat \<Rightarrow> (leasechain \<times> lstore) cres" where
  "lc_link_lcp lcid alloc_ok lc s lp n =
     bindC (if nelem lc = total_lc lc then lc_grow_chain alloc_ok lc else Ret lc) (\<lambda>lc.
     bindC (if n < nelem lc
            then bindC (rdn (list_lc lc) n (nelem lc - n)) (\<lambda>xs. wrn (list_lc lc) (n + 1) xs)
            else Ret (list_lc lc)) (\<lambda>l.
     bindC (wr l n None) (\<lambda>l.
     bindC (wr l n (lease_reference None lp)) (\<lambda>l.
       Ret (lc\<lparr>list_lc := l, nelem := nelem lc + 1\<rparr>,
            s(lp := (s lp)\<lparr>lc_l := Some lcid\<rparr>))))))"

definition lc_add_lease_pos ::
  "nat \<Rightarrow> bool \<Rightarrow> leasechain \<Rightarrow> lstore \<Rightarrow> lid \<Rightarrow> nat \<Rightarrow> (leasechain \<times> lstore) cres" where
  "lc_add_lease_pos lcid alloc_ok lc s lp pos =
     bindC (lc_link_lcp lcid alloc_ok lc s lp pos) (\<lambda>(lc, s).
     bindC (if pos > 0 then
              bindC (rdp (list_lc lc) (pos - 1)) (\<lambda>p.
              let s = s(p := (s p)\<lparr>next_l := lease_reference None lp\<rparr>)
              in Ret (s(lp := (s lp)\<lparr>prev_l := lease_reference (prev_l (s lp)) p\<rparr>)))
            else Ret s) (\<lambda>s.
     bindC (if pos < nelem lc - 1 then
              bindC (rdp (list_lc lc) (pos + 1)) (\<lambda>q.
              let s = s(q := (s q)\<lparr>prev_l := lease_reference None lp\<rparr>)
              in Ret (s(lp := (s lp)\<lparr>next_l := lease_reference (next_l (s lp)) q\<rparr>)))
            else Ret s) (\<lambda>s.
       Ret (lc, s))))"

definition lc_add_sorted_lease ::
  "nat \<Rightarrow> bool \<Rightarrow> int \<Rightarrow> leasechain \<Rightarrow> lstore \<Rightarrow> lid \<Rightarrow> (leasechain \<times> lstore) cres" where
  "lc_add_sorted_lease lcid alloc_ok rnd lc s lp =
     (if nelem lc = 0 then
        lc_add_lease_pos lcid alloc_ok lc (s(lp := (s lp)\<lparr>sort_tiebreaker := 0\<rparr>)) lp 0
      else
        bindC (rdp (list_lc lc) (nelem lc - 1)) (\<lambda>e.
        if sort_time (s lp) > sort_time (s e) then
          lc_add_lease_pos lcid alloc_ok lc (s(lp := (s lp)\<lparr>sort_tiebreaker := 0\<rparr>)) lp (nelem lc)
        else if sort_time (s lp) = sort_time (s e) then
          (let tb = (if sort_tiebreaker (s e) < LONG_MAX then sort_tiebreaker (s e) + 1
                     else LONG_MAX)
           in lc_add_lease_pos lcid alloc_ok lc (s(lp := (s lp)\<lparr>sort_tiebreaker := tb\<rparr>)) lp
                (nelem lc))
        else
          (let s = s(lp := (s lp)\<lparr>sort_tiebreaker := rnd\<rparr>)
           in bindC (lc_binary_search_insert_point lc s lp 0 (nelem lc - 1)) (\<lambda>pos.
                lc_add_lease_pos lcid alloc_ok lc s lp pos))))"

text \<open>With no element, \<open>nelem - 1\<close> is the largest \<open>size_t\<close> and the move runs off the array.\<close>

definition lc_unlink_lcp :: "leasechain \<Rightarrow> lstore \<Rightarrow> nat \<Rightarrow> (leasechain \<times> lstore) cres" where
  "lc_unlink_lcp lc s n =
     bindC (rdp (list_lc lc) n) (\<lambda>m.
     bindC (definedC (nelem lc \<noteq> 0)) (\<lambda>_.
     bindC (wr (list_lc lc) n None) (\<lambda>l.
     bindC (if nelem lc - 1 > n
            then bindC (rdn l (n + 1) (nelem lc - 1 - n)) (\<lambda>xs. wrn l n xs)
            else Ret l) (\<lambda>l.
       Ret (lc\<lparr>list_lc := l, nelem := nelem lc - 1\<rparr>, s(m := (s m)\<lparr>lc_l := None\<rparr>))))))"

definition lc_unlink_lease_pos ::
  "leasechain \<Rightarrow> lstore \<Rightarrow> nat \<Rightarrow> (leasechain \<times> lstore) cres" where
  "lc_unlink_lease_pos lc s pos =
     bindC (rdp (list_lc lc) pos) (\<lambda>lp.
     bindC (lc_unlink_lcp lc s pos) (\<lambda>(lc, s).
     let s = (case next_l (s lp) of None \<Rightarrow> s
              | Some nx \<Rightarrow> (case prev_l (s lp) of
                    None \<Rightarrow> s(nx := (s nx)\<lparr>prev_l := None\<rparr>)
                  | Some pv \<Rightarrow> s(nx := (s nx)\<lparr>prev_l := lease_reference None pv\<rparr>)));
         s = (case prev_l (s lp) of None \<Rightarrow> s
              | Some pv \<Rightarrow>
                  let s = (case next_l (s lp) of
                      None \<Rightarrow> s(pv := (s pv)\<lparr>next_l := None\<rparr>)
                    | Some nx \<Rightarrow> s(pv := (s pv)\<lparr>next_l := lease_reference None nx\<rparr>))
                  in s(lp := (s lp)\<lparr>prev_l := None\<rparr>));
         s = (case next_l (s lp) of None \<Rightarrow> s | Some _ \<Rightarrow> s(lp := (s lp)\<lparr>next_l := None\<rparr>))
     in Ret (lc, s)))"

text \<open>\<open>log_fatal\<close> when the lease is not on the chain.\<close>

definition lc_unlink_lease :: "leasechain \<Rightarrow> lstore \<Rightarrow> lid \<Rightarrow> (leasechain \<times> lstore) cres" where
  "lc_unlink_lease lc s lp =
     bindC (definedC (nelem lc \<noteq> 0)) (\<lambda>_.
     bindC (lc_binary_search_lease lc s lp 0 (nelem lc - 1)) (\<lambda>r.
     case r of None \<Rightarrow> Fatal | Some pos \<Rightarrow> lc_unlink_lease_pos lc s pos))"

fun lc_delete_from :: "leasechain \<Rightarrow> lstore \<Rightarrow> nat \<Rightarrow> (leasechain \<times> lstore) cres" where
  "lc_delete_from lc s 0 = lc_unlink_lease_pos lc s 0"
| "lc_delete_from lc s (Suc i) =
     bindC (lc_unlink_lease_pos lc s (Suc i)) (\<lambda>(lc, s). lc_delete_from lc s i)"

definition lc_delete_all :: "leasechain \<Rightarrow> lstore \<Rightarrow> (leasechain \<times> lstore) cres" where
  "lc_delete_all lc s =
     bindC (if nelem lc > 0 then lc_delete_from lc s (nelem lc - 1) else Ret (lc, s)) (\<lambda>(lc, s).
       Ret (lc\<lparr>list_lc := [], total_lc := 0, nelem := 0\<rparr>, s))"

definition lc_init_growth :: "leasechain \<Rightarrow> nat \<Rightarrow> leasechain" where
  "lc_init_growth lc g = lc\<lparr>growth := g\<rparr>"

section \<open>The invariant of a chain\<close>

text \<open>
  \<open>linked s ids\<close>: the leases \<open>ids\<close> form a doubly linked list in this order.
  \<open>chain_rep\<close>: the chain \<open>lc\<close> represents the sequence \<open>ids\<close> of distinct leases, in key order,
  in its array and in the links of the leases.
\<close>

definition linked :: "lstore \<Rightarrow> lid list \<Rightarrow> bool" where
  "linked s ids \<longleftrightarrow> (\<forall>i < length ids.
     next_l (s (ids ! i)) = (if Suc i < length ids then Some (ids ! Suc i) else None)
     \<and> prev_l (s (ids ! i)) = (if 0 < i then Some (ids ! (i - 1)) else None))"

definition key_sorted :: "lstore \<Rightarrow> lid list \<Rightarrow> bool" where
  "key_sorted s ids \<longleftrightarrow> sorted_wrt (\<lambda>a b. \<not> key_gt (s a) (s b)) ids"

definition array_rep :: "leasechain \<Rightarrow> lid list \<Rightarrow> bool" where
  "array_rep lc ids \<longleftrightarrow> length (list_lc lc) = total_lc lc \<and> nelem lc = length ids
     \<and> nelem lc \<le> total_lc lc \<and> take (nelem lc) (list_lc lc) = map Some ids"

definition chain_rep :: "nat \<Rightarrow> leasechain \<Rightarrow> lstore \<Rightarrow> lid list \<Rightarrow> bool" where
  "chain_rep lcid lc s ids \<longleftrightarrow> array_rep lc ids \<and> distinct ids \<and> key_sorted s ids
     \<and> linked s ids
     \<and> (\<forall>l \<in> set ids. lc_l (s l) = Some lcid \<and> sort_tiebreaker (s l) \<le> LONG_MAX)"

text \<open>A lease that is on no chain.\<close>

definition unlinked :: "lstore \<Rightarrow> lid \<Rightarrow> bool" where
  "unlinked s l \<longleftrightarrow> next_l (s l) = None \<and> prev_l (s l) = None"

lemma array_rep_nth: "array_rep lc ids \<Longrightarrow> i < length ids \<Longrightarrow> list_lc lc ! i = Some (ids ! i)"
  unfolding array_rep_def by (metis nth_map nth_take)

lemma array_rep_rdp [simp]: "array_rep lc ids \<Longrightarrow> i < length ids \<Longrightarrow> rdp (list_lc lc) i = Ret (ids ! i)"
  using array_rep_nth [of lc ids i] by (auto simp: array_rep_def intro: rdp_in)

lemma array_rep_rd: "array_rep lc ids \<Longrightarrow> i < length ids \<Longrightarrow> rd (list_lc lc) i = Ret (Some (ids ! i))"
  using array_rep_nth [of lc ids i] by (auto simp: array_rep_def rd_def)

lemma key_gt_trans: "key_gt a b \<Longrightarrow> \<not> key_gt c b \<Longrightarrow> \<not> key_gt c a"
  by (auto simp: key_gt_def)

lemma key_sortedD: "key_sorted s ids \<Longrightarrow> i \<le> j \<Longrightarrow> j < length ids \<Longrightarrow> \<not> key_gt (s (ids ! i)) (s (ids ! j))"
  using sorted_wrt_nth_less [of "\<lambda>a b. \<not> key_gt (s a) (s b)" ids i j]
  by (cases "i = j") (auto simp: key_sorted_def key_gt_def)

section \<open>Bisection\<close>

text \<open>
  On a sorted range the insertion point separates the entries that are not greater than the
  lease from the ones that are not smaller.
\<close>

lemma insert_point_spec:
  assumes rep: "array_rep lc ids" and sorted: "key_sorted s ids"
    and "lo \<le> hi" "hi < length ids"
  shows "\<exists>p. lc_binary_search_insert_point lc s lp lo hi = Ret p \<and> lo \<le> p \<and> p \<le> Suc hi
    \<and> (\<forall>k. lo \<le> k \<and> k < p \<longrightarrow> \<not> key_gt (s (ids ! k)) (s lp))
    \<and> (\<forall>k. p \<le> k \<and> k \<le> hi \<longrightarrow> \<not> key_gt (s lp) (s (ids ! k)))"
  using assms(3,4)
proof (induction "hi - lo" arbitrary: lo hi rule: less_induct)
  case less
  define mid where "mid = (hi - lo) div 2 + lo"
  let ?m = "ids ! mid"
  have mid: "lo \<le> mid" "mid \<le> hi" "mid < length ids" using less.prems by (auto simp: mid_def)
  have unf: "lc_binary_search_insert_point lc s lp lo hi =
     (if key_gt (s ?m) (s lp) then
        (if mid = lo then Ret lo else lc_binary_search_insert_point lc s lp lo (mid - 1))
      else if key_gt (s lp) (s ?m) then
        (if mid = hi then Ret (mid + 1) else lc_binary_search_insert_point lc s lp (mid + 1) hi)
      else Ret mid)"
    using less.prems rep mid
    by (simp add: lc_binary_search_insert_point.simps [of lc s lp lo hi] mid_def [symmetric] Let_def)
  have above: "\<not> key_gt (s ?m) (s (ids ! k))" if "mid \<le> k" "k \<le> hi" for k
    using key_sortedD [OF sorted that(1)] that less.prems by simp
  have below: "\<not> key_gt (s (ids ! k)) (s ?m)" if "k \<le> mid" for k
    using key_sortedD [OF sorted that] mid by simp
  consider (gt) "key_gt (s ?m) (s lp)" | (lt) "key_gt (s lp) (s ?m)" "\<not> key_gt (s ?m) (s lp)"
    | (eq) "\<not> key_gt (s ?m) (s lp)" "\<not> key_gt (s lp) (s ?m)" by blast
  then show ?case
  proof cases
    case gt
    then have hi_ok: "\<not> key_gt (s lp) (s (ids ! k))" if "mid \<le> k" "k \<le> hi" for k
      using above [OF that] by (auto simp: key_gt_def)
    show ?thesis
    proof (cases "mid = lo")
      case True
      with gt hi_ok mid show ?thesis by (auto simp: unf)
    next
      case False
      then obtain p where "lc_binary_search_insert_point lc s lp lo (mid - 1) = Ret p"
          "lo \<le> p" "p \<le> mid" "\<forall>k. lo \<le> k \<and> k < p \<longrightarrow> \<not> key_gt (s (ids ! k)) (s lp)"
          "\<forall>k. p \<le> k \<and> k \<le> mid - 1 \<longrightarrow> \<not> key_gt (s lp) (s (ids ! k))"
        using less.hyps [of "mid - 1" lo] mid less.prems by force
      moreover have "\<not> key_gt (s lp) (s (ids ! k))" if "p \<le> k" "k \<le> hi" for k
        using calculation(5) hi_ok [of k] that by (cases "k \<le> mid - 1") auto
      ultimately show ?thesis using gt False mid by (simp add: unf)
    qed
  next
    case lt
    then have lo_ok: "\<not> key_gt (s (ids ! k)) (s lp)" if "k \<le> mid" for k
      using below [OF that] by (auto simp: key_gt_def)
    show ?thesis
    proof (cases "mid = hi")
      case True
      with lt lo_ok mid show ?thesis by (auto simp: unf)
    next
      case False
      then obtain p where "lc_binary_search_insert_point lc s lp (mid + 1) hi = Ret p"
          "mid + 1 \<le> p" "p \<le> Suc hi"
          "\<forall>k. mid + 1 \<le> k \<and> k < p \<longrightarrow> \<not> key_gt (s (ids ! k)) (s lp)"
          "\<forall>k. p \<le> k \<and> k \<le> hi \<longrightarrow> \<not> key_gt (s lp) (s (ids ! k))"
        using less.hyps [of hi "mid + 1"] mid less.prems by force
      moreover have "\<not> key_gt (s (ids ! k)) (s lp)" if "k < p" for k
        using calculation(4) lo_ok [of k] that by (cases "k \<le> mid") auto
      ultimately show ?thesis using lt False mid by (simp add: unf)
    qed
  next
    case eq
    have "\<not> key_gt (s (ids ! k)) (s lp)" if "k \<le> mid" for k
      using eq below [OF that] by (auto simp: key_gt_def)
    moreover have "\<not> key_gt (s lp) (s (ids ! k))" if "mid \<le> k" "k \<le> hi" for k
      using eq above [OF that] by (auto simp: key_gt_def)
    ultimately show ?thesis using eq mid by (simp add: unf)
  qed
qed

lemma scan_down_found:
  assumes "array_rep lc ids" "lo \<le> j" "j \<le> i" "i < length ids" "distinct ids"
    and "\<And>k. j \<le> k \<Longrightarrow> k \<le> i \<Longrightarrow> \<not> key_differs (s (ids ! k)) (s (ids ! j))"
  shows "lc_scan_down lc s (ids ! j) lo i = Ret (Some j)"
  using assms(3,4,6)
proof (induction i rule: less_induct)
  case (less i)
  show ?case
  proof (cases "i = j")
    case True
    with assms less.prems show ?thesis
      by (simp add: lc_scan_down.simps [of lc s "ids ! j" lo j] array_rep_rd)
  next
    case False
    then have "ids ! i \<noteq> ids ! j" using assms(5) less.prems by (simp add: nth_eq_iff_index_eq)
    moreover have "lc_scan_down lc s (ids ! j) lo (i - 1) = Ret (Some j)"
      using less False by simp
    ultimately show ?thesis
      using False less.prems assms(1,2)
      by (simp add: lc_scan_down.simps [of lc s "ids ! j" lo i] array_rep_rd)
  qed
qed

lemma scan_down_none:
  assumes "array_rep lc ids" "i < length ids" "\<And>k. k \<le> i \<Longrightarrow> ids ! k \<noteq> lp"
  shows "lc_scan_down lc s lp lo i = Ret None"
  using assms(2,3)
proof (induction i rule: less_induct)
  case (less i)
  have "lc_scan_down lc s lp lo (i - 1) = Ret None" if "0 < i" using less that by simp
  with less.prems assms(1) show ?case
    by (simp add: lc_scan_down.simps [of lc s lp lo i] array_rep_rd)
qed

lemma scan_up_found:
  assumes "array_rep lc ids" "i \<le> j" "j \<le> hi" "hi < length ids" "distinct ids"
    and "\<And>k. i \<le> k \<Longrightarrow> k \<le> j \<Longrightarrow> \<not> key_differs (s (ids ! k)) (s (ids ! j))"
  shows "lc_scan_up lc s (ids ! j) hi i = Ret (Some j)"
  using assms(2,6)
proof (induction "j - i" arbitrary: i rule: less_induct)
  case less
  show ?case
  proof (cases "i = j")
    case True
    with assms less.prems show ?thesis
      by (simp add: lc_scan_up.simps [of lc s "ids ! j" hi j] array_rep_rd)
  next
    case False
    then have "ids ! i \<noteq> ids ! j" using assms(3-5) less.prems by (simp add: nth_eq_iff_index_eq)
    moreover have "lc_scan_up lc s (ids ! j) hi (i + 1) = Ret (Some j)"
      using less False by simp
    ultimately show ?thesis
      using less.prems assms(1,3,4)
      by (simp add: lc_scan_up.simps [of lc s "ids ! j" hi i] array_rep_rd)
  qed
qed

lemma key_squeeze:
  assumes "\<not> key_gt a b" "\<not> key_gt b c" "\<not> key_gt c a"
  shows "\<not> key_differs b a" "\<not> key_differs b c"
  using assms unfolding key_differs_def key_gt_def by linarith+

text \<open>Bisection finds every lease of the chain, also among entries with equal keys.\<close>

lemma search_lease_found:
  assumes rep: "array_rep lc ids" and sorted: "key_sorted s ids" and dist: "distinct ids"
    and "lo \<le> j" "j \<le> hi" "hi < length ids"
  shows "lc_binary_search_lease lc s (ids ! j) lo hi = Ret (Some j)"
  using assms(4-6)
proof (induction "hi - lo" arbitrary: lo hi rule: less_induct)
  case less
  define mid where "mid = (hi - lo) div 2 + lo"
  let ?m = "ids ! mid" and ?l = "ids ! j"
  have mid: "lo \<le> mid" "mid \<le> hi" "mid < length ids" "\<not> hi < lo"
    using less.prems by (auto simp: mid_def)
  have unf: "lc_binary_search_lease lc s ?l lo hi =
     (if key_gt (s ?m) (s ?l) then
        (if mid = lo then Ret None else lc_binary_search_lease lc s ?l lo (mid - 1))
      else if key_gt (s ?l) (s ?m) then lc_binary_search_lease lc s ?l (mid + 1) hi
      else if ?l = ?m then Ret (Some mid)
      else bindC (if mid > lo then lc_scan_down lc s ?l lo (mid - 1) else Ret None)
            (\<lambda>r. case r of Some i \<Rightarrow> Ret (Some i)
              | None \<Rightarrow> if mid < hi then lc_scan_up lc s ?l hi (mid + 1) else Ret None))"
    using mid rep
    by (simp add: lc_binary_search_lease.simps [of lc s ?l lo hi] mid_def [symmetric] Let_def)
  have le: "\<not> key_gt (s (ids ! a)) (s (ids ! b))" if "a \<le> b" "b \<le> hi" for a b
    using key_sortedD [OF sorted that(1)] that less.prems by simp
  consider (gt) "key_gt (s ?m) (s ?l)" | (lt) "key_gt (s ?l) (s ?m)" "\<not> key_gt (s ?m) (s ?l)"
    | (eq) "\<not> key_gt (s ?m) (s ?l)" "\<not> key_gt (s ?l) (s ?m)" by blast
  then show ?case
  proof cases
    case gt
    then have "j < mid" using le [of mid j] less.prems by (meson not_le)
    then have "lc_binary_search_lease lc s ?l lo (mid - 1) = Ret (Some j)"
      using less.hyps [of "mid - 1" lo] less.prems mid by simp
    with gt \<open>j < mid\<close> less.prems show ?thesis by (simp add: unf)
  next
    case lt
    then have "mid < j" using le [of j mid] mid by (meson not_le)
    then have "lc_binary_search_lease lc s ?l (mid + 1) hi = Ret (Some j)"
      using less.hyps [of hi "mid + 1"] less.prems mid by simp
    with lt show ?thesis by (simp add: unf)
  next
    case eq
    have down: "\<not> key_differs (s (ids ! k)) (s ?l)" if "j \<le> k" "k \<le> mid" for k
      using le [of j k] le [of k mid] that mid eq
      by (intro key_squeeze(1) [of "s ?l" "s (ids ! k)" "s ?m"]) auto
    have up: "\<not> key_differs (s (ids ! k)) (s ?l)" if "mid \<le> k" "k \<le> j" for k
      using le [of mid k] le [of k j] that less.prems eq
      by (intro key_squeeze(2) [of "s ?m" "s (ids ! k)" "s ?l"]) auto
    consider "j = mid" | "j < mid" | "mid < j" by linarith
    then show ?thesis
    proof cases
      case 1
      then show ?thesis unfolding unf using eq by simp
    next
      case 2
      then have "lc_scan_down lc s ?l lo (mid - 1) = Ret (Some j)"
        using mid by (intro scan_down_found [OF rep less.prems(1) _ _ dist] down) auto
      moreover have "?l \<noteq> ?m" using 2 dist mid by (simp add: nth_eq_iff_index_eq)
      ultimately show ?thesis using eq 2 less.prems by (simp add: unf)
    next
      case 3
      have "lc_scan_down lc s ?l lo (mid - 1) = Ret None" if "lo < mid"
      proof (rule scan_down_none [OF rep])
        fix k assume "k \<le> mid - 1"
        then show "ids ! k \<noteq> ?l" using 3 dist less.prems by (simp add: nth_eq_iff_index_eq)
      qed (use mid in simp)
      moreover have "lc_scan_up lc s ?l hi (mid + 1) = Ret (Some j)"
        using 3 by (intro scan_up_found [OF rep _ less.prems(2,3) dist] up) auto
      moreover have "?l \<noteq> ?m" using 3 dist less.prems by (simp add: nth_eq_iff_index_eq)
      ultimately show ?thesis using eq 3 less.prems by (simp add: unf)
    qed
  qed
qed

section \<open>Inserting\<close>

definition insert_at :: "nat \<Rightarrow> 'a \<Rightarrow> 'a list \<Rightarrow> 'a list" where
  "insert_at p x xs = take p xs @ x # drop p xs"

lemma length_insert_at [simp]: "length (insert_at p x xs) = Suc (length xs)"
  by (simp add: insert_at_def)

lemma set_insert_at [simp]: "set (insert_at p x xs) = insert x (set xs)"
  unfolding insert_at_def by (metis append_take_drop_id list.set(2) set_append Un_insert_right)

lemma nth_insert_at: "p \<le> length xs \<Longrightarrow> k \<le> length xs \<Longrightarrow>
    insert_at p x xs ! k = (if k < p then xs ! k else if k = p then x else xs ! (k - 1))"
  by (auto simp: insert_at_def nth_append nth_Cons intro!: arg_cong [of _ _ "nth xs"] split: nat.splits)

lemma distinct_insert_at: "x \<notin> set xs \<Longrightarrow> distinct xs \<Longrightarrow> distinct (insert_at p x xs)"
  using set_take_disj_set_drop_if_distinct [of xs p p]
  by (auto simp: insert_at_def dest: in_set_takeD in_set_dropD)

lemma grow_spec:
  assumes "array_rep lc ids" "alloc_ok"
  shows "\<exists>lc'. lc_grow_chain alloc_ok lc = Ret lc' \<and> array_rep lc' ids \<and> total_lc lc < total_lc lc'"
  using assms
  by (auto simp: lc_grow_chain_def array_rep_def rdn_def Let_def LC_GROWTH_DELTA_def)

lemma link_spec:
  assumes rep: "array_rep lc ids" and pos: "pos \<le> length ids" and mem: "nelem lc < total_lc lc \<or> alloc_ok"
  shows "\<exists>lc'. lc_link_lcp lcid alloc_ok lc s lp pos = Ret (lc', s(lp := (s lp)\<lparr>lc_l := Some lcid\<rparr>))
    \<and> array_rep lc' (insert_at pos lp ids)"
proof -
  obtain lc1 where lc1: "(if nelem lc = total_lc lc then lc_grow_chain alloc_ok lc else Ret lc) = Ret lc1"
      "array_rep lc1 ids" "nelem lc1 < total_lc lc1"
  proof (cases "nelem lc = total_lc lc")
    case True
    with mem grow_spec [OF rep] obtain lc' where "lc_grow_chain alloc_ok lc = Ret lc'"
      "array_rep lc' ids" "total_lc lc < total_lc lc'" by auto
    with True rep that [of lc'] show ?thesis by (auto simp: array_rep_def)
  next
    case False
    with rep that [of lc] show ?thesis by (auto simp: array_rep_def)
  qed
  let ?L = "list_lc lc1" and ?n = "length ids"
  define L2 where "L2 = (if pos < ?n then take (pos + 1) ?L @ take (?n - pos) (drop pos ?L) @ drop (?n + 1) ?L else ?L)"
  have n: "nelem lc1 = ?n" "?n < length ?L" and nth: "\<And>k. k < ?n \<Longrightarrow> ?L ! k = Some (ids ! k)"
    using lc1 array_rep_nth by (auto simp: array_rep_def)
  have move: "(if pos < nelem lc1
      then bindC (rdn ?L pos (nelem lc1 - pos)) (\<lambda>xs. wrn ?L (pos + 1) xs) else Ret ?L) = Ret L2"
    using n pos by (auto simp: rdn_def wrn_def L2_def)
  have len: "length L2 = length ?L" using n pos by (auto simp: L2_def)
  have "L2[pos := None, pos := Some lp] ! k = Some (insert_at pos lp ids ! k)" if "k \<le> ?n" for k
    using that n pos nth len
    by (auto simp: nth_insert_at nth_upd L2_def nth_append)
  then have "take (Suc ?n) (L2[pos := None, pos := Some lp]) = map Some (insert_at pos lp ids)"
    using n len by (intro nth_equalityI) auto
  then have "array_rep (lc1\<lparr>list_lc := L2[pos := None, pos := Some lp], nelem := nelem lc1 + 1\<rparr>)
      (insert_at pos lp ids)"
    using n len lc1 by (simp add: array_rep_def)
  moreover have "lc_link_lcp lcid alloc_ok lc s lp pos =
      Ret (lc1\<lparr>list_lc := L2[pos := None, pos := Some lp], nelem := nelem lc1 + 1\<rparr>,
        s(lp := (s lp)\<lparr>lc_l := Some lcid\<rparr>))"
    unfolding lc_link_lcp_def lc1(1) bindC.simps move
    using n len pos by (simp add: lease_reference_def)
  ultimately show ?thesis by blast
qed

text \<open>The operations change the links of leases and no other field.\<close>

definition lease_data :: "lease \<Rightarrow> lease" where
  "lease_data r = r\<lparr>next_l := None, prev_l := None, lc_l := None\<rparr>"

definition same_but_links :: "lstore \<Rightarrow> lstore \<Rightarrow> bool" where
  "same_but_links s s' \<longleftrightarrow> (\<forall>l. lease_data (s' l) = lease_data (s l))"

lemma lease_data_simps [simp]:
  "lease_data (r\<lparr>next_l := x\<rparr>) = lease_data r" "lease_data (r\<lparr>prev_l := x\<rparr>) = lease_data r"
  "lease_data (r\<lparr>lc_l := y\<rparr>) = lease_data r"
  by (simp_all add: lease_data_def)

lemma same_but_linksD:
  assumes "same_but_links s s'"
  shows "sort_time (s' l) = sort_time (s l)" "sort_tiebreaker (s' l) = sort_tiebreaker (s l)"
proof -
  have "lease_data (s' l) = lease_data (s l)" using assms by (simp add: same_but_links_def)
  from arg_cong [OF this, of sort_time] arg_cong [OF this, of sort_tiebreaker]
  show "sort_time (s' l) = sort_time (s l)" "sort_tiebreaker (s' l) = sort_tiebreaker (s l)"
    by (simp_all add: lease_data_def)
qed

lemma same_but_links_trans: "same_but_links s s' \<Longrightarrow> same_but_links s' s'' \<Longrightarrow> same_but_links s s''"
  by (simp add: same_but_links_def)

lemma key_sorted_same: "same_but_links s s' \<Longrightarrow> key_sorted s' ids = key_sorted s ids"
  by (simp add: same_but_linksD key_sorted_def key_gt_def)

lemma linked_insert_at:
  assumes lnk: "linked s ids" and dist: "distinct ids" and lp: "lp \<notin> set ids" and pos: "pos \<le> length ids"
    and nx: "\<And>l. next_l (s' l) =
      (if l = lp then if pos < length ids then Some (ids ! pos) else None
       else if 0 < pos \<and> l = ids ! (pos - 1) then Some lp else next_l (s l))"
    and pv: "\<And>l. prev_l (s' l) =
      (if l = lp then if 0 < pos then Some (ids ! (pos - 1)) else None
       else if pos < length ids \<and> l = ids ! pos then Some lp else prev_l (s l))"
  shows "linked s' (insert_at pos lp ids)"
  unfolding linked_def
proof (intro allI impI)
  let ?ids = "insert_at pos lp ids" and ?n = "length ids"
  have idx: "ids ! k = ids ! k' \<longleftrightarrow> k = k'" if "k < ?n" "k' < ?n" for k k'
    using dist that by (simp add: nth_eq_iff_index_eq)
  have old: "next_l (s' (ids ! k)) =
        (if Suc k = pos then Some lp else if Suc k < ?n then Some (ids ! Suc k) else None)"
      "prev_l (s' (ids ! k)) =
        (if k = pos then Some lp else if 0 < k then Some (ids ! (k - 1)) else None)"
    if "k < ?n" for k
  proof -
    have "ids ! k \<noteq> lp" using lp that by auto
    moreover have "(0 < pos \<and> ids ! k = ids ! (pos - 1)) \<longleftrightarrow> Suc k = pos"
      using idx [OF that, of "pos - 1"] pos that by auto
    moreover have "(pos < ?n \<and> ids ! k = ids ! pos) \<longleftrightarrow> k = pos"
      using idx [OF that, of pos] that by auto
    ultimately show "next_l (s' (ids ! k)) =
        (if Suc k = pos then Some lp else if Suc k < ?n then Some (ids ! Suc k) else None)"
      "prev_l (s' (ids ! k)) =
        (if k = pos then Some lp else if 0 < k then Some (ids ! (k - 1)) else None)"
      using lnk that unfolding nx pv linked_def by simp_all
  qed
  fix i assume "i < length ?ids"
  then have i: "i \<le> ?n" by simp
  consider "i < pos" | "i = pos" | "pos < i" by linarith
  then show "next_l (s' (?ids ! i)) = (if Suc i < length ?ids then Some (?ids ! Suc i) else None)
    \<and> prev_l (s' (?ids ! i)) = (if 0 < i then Some (?ids ! (i - 1)) else None)"
  proof cases
    case 1
    then show ?thesis using old [of i] pos i
      by (cases "Suc i = pos") (auto simp: nth_insert_at)
  next
    case 2
    then show ?thesis using pos by (auto simp: nth_insert_at nx pv)
  next
    case 3
    then obtain k where k: "i = Suc k" "k < ?n" "pos \<le> k" using i by (cases i) auto
    then show ?thesis using old [of k] pos
      by (cases "k = pos") (auto simp: nth_insert_at)
  qed
qed

lemma add_pos_spec:
  assumes rep: "array_rep lc ids" and dist: "distinct ids" and lnk: "linked s ids"
    and lp: "lp \<notin> set ids" "unlinked s lp" and pos: "pos \<le> length ids"
    and mem: "nelem lc < total_lc lc \<or> alloc_ok"
  shows "\<exists>lc' s'. lc_add_lease_pos lcid alloc_ok lc s lp pos = Ret (lc', s')
    \<and> array_rep lc' (insert_at pos lp ids) \<and> linked s' (insert_at pos lp ids) \<and> same_but_links s s'
    \<and> lc_l (s' lp) = Some lcid \<and> (\<forall>l. l \<noteq> lp \<longrightarrow> lc_l (s' l) = lc_l (s l))
    \<and> (\<forall>l. l \<notin> insert lp (set ids) \<longrightarrow> s' l = s l)"
proof -
  let ?ids = "insert_at pos lp ids" and ?n = "length ids"
  define s1 where "s1 = s(lp := (s lp)\<lparr>lc_l := Some lcid\<rparr>)"
  obtain lc' where lc': "lc_link_lcp lcid alloc_ok lc s lp pos = Ret (lc', s1)" "array_rep lc' ?ids"
    using link_spec [OF rep pos mem] unfolding s1_def by blast
  define p where "p = ids ! (pos - 1)"
  define q where "q = ids ! pos"
  define s2 where "s2 = (if 0 < pos then s1(p := (s1 p)\<lparr>next_l := Some lp\<rparr>,
      lp := (s1 lp)\<lparr>prev_l := Some p\<rparr>) else s1)"
  define s3 where "s3 = (if pos < ?n then s2(q := (s2 q)\<lparr>prev_l := Some lp\<rparr>,
      lp := (s2 lp)\<lparr>next_l := Some q\<rparr>) else s2)"
  note s3_defs = s3_def s2_def s1_def unlinked_def
  have n: "nelem lc' = Suc ?n" using lc'(2) by (simp add: array_rep_def)
  have pq: "0 < pos \<Longrightarrow> p \<in> set ids" "pos < ?n \<Longrightarrow> q \<in> set ids"
    using pos by (auto simp: p_def q_def)
  then have ne: "0 < pos \<Longrightarrow> p \<noteq> lp" "pos < ?n \<Longrightarrow> q \<noteq> lp" using lp by auto
  have rd: "0 < pos \<Longrightarrow> rdp (list_lc lc') (pos - 1) = Ret p"
      "pos < ?n \<Longrightarrow> rdp (list_lc lc') (pos + 1) = Ret q"
    using lc'(2) pos by (simp_all add: nth_insert_at p_def q_def)
  have "lc_add_lease_pos lcid alloc_ok lc s lp pos = Ret (lc', s3)"
    using lp(2) ne rd
    by (auto simp: lc_add_lease_pos_def lc'(1) n lease_reference_def Let_def s3_defs)
  moreover have "same_but_links s s3" "lc_l (s3 lp) = Some lcid"
      "\<forall>l. l \<noteq> lp \<longrightarrow> lc_l (s3 l) = lc_l (s l)"
    using ne by (auto simp: same_but_links_def s3_defs)
  moreover have "\<forall>l. l \<notin> insert lp (set ids) \<longrightarrow> s3 l = s l"
    using pq by (auto simp: s3_defs)
  moreover have "linked s3 ?ids"
  proof (rule linked_insert_at [OF lnk dist lp(1) pos], unfold p_def [symmetric] q_def [symmetric])
    fix l
    show "next_l (s3 l) = (if l = lp then if pos < ?n then Some q else None
        else if 0 < pos \<and> l = p then Some lp else next_l (s l))"
      using ne lp(2) by (cases "0 < pos"; cases "pos < ?n") (auto simp: s3_defs)
    show "prev_l (s3 l) = (if l = lp then if 0 < pos then Some p else None
        else if pos < ?n \<and> l = q then Some lp else prev_l (s l))"
      using ne lp(2) by (cases "0 < pos"; cases "pos < ?n") (auto simp: s3_defs)
  qed
  ultimately show ?thesis using lc'(2) by blast
qed

section \<open>Removing\<close>

definition remove_at :: "nat \<Rightarrow> 'a list \<Rightarrow> 'a list" where
  "remove_at p xs = take p xs @ drop (Suc p) xs"

lemma length_remove_at [simp]: "p < length xs \<Longrightarrow> length (remove_at p xs) = length xs - 1"
  by (simp add: remove_at_def)

lemma nth_remove_at: "p < length xs \<Longrightarrow> k < length xs - 1 \<Longrightarrow>
    remove_at p xs ! k = (if k < p then xs ! k else xs ! Suc k)"
  by (auto simp: remove_at_def nth_append)

lemma remove_at_eq_remove1: "distinct xs \<Longrightarrow> p < length xs \<Longrightarrow> remove_at p xs = remove1 (xs ! p) xs"
proof -
  assume d: "distinct xs" and p: "p < length xs"
  have xs: "xs = take p xs @ xs ! p # drop (Suc p) xs" using p by (simp add: id_take_nth_drop)
  then have "xs ! p \<notin> set (take p xs)"
    using d p by (metis distinct_append disjoint_iff list.set_intros(1))
  then show ?thesis
    using p by (subst (3) xs) (simp add: remove_at_def remove1_append)
qed

lemma unlink_lcp_spec:
  assumes rep: "array_rep lc ids" and pos: "pos < length ids"
  shows "\<exists>lc'. lc_unlink_lcp lc s pos = Ret (lc', s(ids ! pos := (s (ids ! pos))\<lparr>lc_l := None\<rparr>))
    \<and> array_rep lc' (remove_at pos ids)"
proof -
  let ?L = "(list_lc lc)[pos := None]" and ?n = "length ids"
  define L2 where "L2 = (if pos < ?n - 1 then take pos ?L @ take (?n - 1 - pos) (drop (pos + 1) ?L)
    @ drop (?n - 1) ?L else ?L)"
  have n: "nelem lc = ?n" "?n \<le> length ?L" and nth: "\<And>k. k < ?n \<Longrightarrow> list_lc lc ! k = Some (ids ! k)"
    using rep array_rep_nth by (auto simp: array_rep_def)
  have move: "(if nelem lc - 1 > pos
      then bindC (rdn ?L (pos + 1) (nelem lc - 1 - pos)) (\<lambda>xs. wrn ?L pos xs) else Ret ?L) = Ret L2"
    using n pos by (auto simp: rdn_def wrn_def L2_def)
  have len: "length L2 = length ?L" using n pos by (auto simp: L2_def)
  have "L2 ! k = Some (remove_at pos ids ! k)" if "k < ?n - 1" for k
    using that n pos nth by (auto simp: nth_remove_at nth_upd L2_def nth_append)
  then have "take (?n - 1) L2 = map Some (remove_at pos ids)"
    using n len pos by (intro nth_equalityI) auto
  then have "array_rep (lc\<lparr>list_lc := L2, nelem := nelem lc - 1\<rparr>) (remove_at pos ids)"
    using n len rep pos by (auto simp: array_rep_def)
  moreover have "lc_unlink_lcp lc s pos =
      Ret (lc\<lparr>list_lc := L2, nelem := nelem lc - 1\<rparr>, s(ids ! pos := (s (ids ! pos))\<lparr>lc_l := None\<rparr>))"
  proof -
    have "rdp (list_lc lc) pos = Ret (ids ! pos)" "wr (list_lc lc) pos None = Ret ?L" "nelem lc \<noteq> 0"
      using rep n pos by auto
    with move show ?thesis unfolding lc_unlink_lcp_def by (simp only: bindC.simps definedC_def) simp
  qed
  ultimately show ?thesis by blast
qed

lemma linked_remove_at:
  assumes lnk: "linked s ids" and dist: "distinct ids" and pos: "pos < length ids"
    and nx: "\<And>l. next_l (s' l) = (if l = ids ! pos then None
       else if 0 < pos \<and> l = ids ! (pos - 1)
         then if Suc pos < length ids then Some (ids ! Suc pos) else None else next_l (s l))"
    and pv: "\<And>l. prev_l (s' l) = (if l = ids ! pos then None
       else if Suc pos < length ids \<and> l = ids ! Suc pos
         then if 0 < pos then Some (ids ! (pos - 1)) else None else prev_l (s l))"
  shows "linked s' (remove_at pos ids)"
  unfolding linked_def
proof (intro allI impI)
  let ?ids = "remove_at pos ids" and ?n = "length ids"
  have idx: "ids ! k = ids ! k' \<longleftrightarrow> k = k'" if "k < ?n" "k' < ?n" for k k'
    using dist that by (simp add: nth_eq_iff_index_eq)
  have old: "next_l (s' (ids ! k)) = (if Suc k = pos
        then if Suc pos < ?n then Some (ids ! Suc pos) else None
        else if Suc k < ?n then Some (ids ! Suc k) else None)"
      "prev_l (s' (ids ! k)) = (if k = Suc pos
        then if 0 < pos then Some (ids ! (pos - 1)) else None
        else if 0 < k then Some (ids ! (k - 1)) else None)"
    if "k < ?n" "k \<noteq> pos" for k
  proof -
    have "ids ! k \<noteq> ids ! pos" using idx that pos by simp
    moreover have "(0 < pos \<and> ids ! k = ids ! (pos - 1)) \<longleftrightarrow> Suc k = pos"
      using idx [OF that(1), of "pos - 1"] pos that by auto
    moreover have "(Suc pos < ?n \<and> ids ! k = ids ! Suc pos) \<longleftrightarrow> k = Suc pos"
      using idx [OF that(1), of "Suc pos"] that by auto
    ultimately show "next_l (s' (ids ! k)) = (if Suc k = pos
        then if Suc pos < ?n then Some (ids ! Suc pos) else None
        else if Suc k < ?n then Some (ids ! Suc k) else None)"
      "prev_l (s' (ids ! k)) = (if k = Suc pos
        then if 0 < pos then Some (ids ! (pos - 1)) else None
        else if 0 < k then Some (ids ! (k - 1)) else None)"
      using lnk that unfolding nx pv linked_def by simp_all
  qed
  fix i assume "i < length ?ids"
  then have i: "i < ?n - 1" using pos by simp
  show "next_l (s' (?ids ! i)) = (if Suc i < length ?ids then Some (?ids ! Suc i) else None)
    \<and> prev_l (s' (?ids ! i)) = (if 0 < i then Some (?ids ! (i - 1)) else None)"
  proof (cases "i < pos")
    case True
    with old [of i] i pos show ?thesis by (cases "Suc i = pos") (auto simp: nth_remove_at)
  next
    case False
    with old [of "Suc i"] i pos show ?thesis by (cases "i = pos") (auto simp: nth_remove_at)
  qed
qed

lemma unlink_pos_spec:
  assumes rep: "array_rep lc ids" and dist: "distinct ids" and lnk: "linked s ids"
    and pos: "pos < length ids"
  shows "\<exists>lc' s'. lc_unlink_lease_pos lc s pos = Ret (lc', s')
    \<and> array_rep lc' (remove_at pos ids) \<and> linked s' (remove_at pos ids) \<and> same_but_links s s'
    \<and> unlinked s' (ids ! pos) \<and> lc_l (s' (ids ! pos)) = None
    \<and> (\<forall>l. l \<noteq> ids ! pos \<longrightarrow> lc_l (s' l) = lc_l (s l))
    \<and> (\<forall>l. l \<notin> set ids \<longrightarrow> s' l = s l)"
proof -
  let ?n = "length ids"
  define lp where "lp = ids ! pos"
  define p where "p = ids ! (pos - 1)"
  define q where "q = ids ! Suc pos"
  define s1 where "s1 = s(lp := (s lp)\<lparr>lc_l := None\<rparr>)"
  obtain lc' where lc': "lc_unlink_lcp lc s pos = Ret (lc', s1)" "array_rep lc' (remove_at pos ids)"
    using unlink_lcp_spec [OF rep pos] unfolding s1_def lp_def by blast
  have rd: "rdp (list_lc lc) pos = Ret lp" using rep pos by (simp add: lp_def)
  have ne: "0 < pos \<Longrightarrow> p \<noteq> lp" "Suc pos < ?n \<Longrightarrow> q \<noteq> lp" "0 < pos \<Longrightarrow> Suc pos < ?n \<Longrightarrow> p \<noteq> q"
    using dist pos by (auto simp: p_def q_def lp_def nth_eq_iff_index_eq)
  have mem: "lp \<in> set ids" "0 < pos \<Longrightarrow> p \<in> set ids" "Suc pos < ?n \<Longrightarrow> q \<in> set ids"
    using pos by (auto simp: p_def q_def lp_def)
  have links: "next_l (s lp) = (if Suc pos < ?n then Some q else None)"
      "prev_l (s lp) = (if 0 < pos then Some p else None)"
    using lnk pos by (auto simp: linked_def lp_def p_def q_def)
  define s2 where "s2 = (if Suc pos < ?n
      then s1(q := (s1 q)\<lparr>prev_l := (if 0 < pos then Some p else None)\<rparr>) else s1)"
  define s3 where "s3 = (if 0 < pos then s2(p := (s2 p)\<lparr>next_l := next_l (s lp)\<rparr>) else s2)"
  define s4 where "s4 = s3(lp := (s3 lp)\<lparr>prev_l := None, next_l := None\<rparr>)"
  note s4_defs = s4_def s3_def s2_def s1_def
  have "lc_unlink_lease_pos lc s pos = Ret (lc', s4)"
    unfolding lc_unlink_lease_pos_def rd lc'(1) bindC.simps prod.case Let_def
    using ne links
    by (cases "0 < pos"; cases "Suc pos < ?n")
      (auto simp: lease_reference_def s4_defs intro!: ext lease.equality)
  moreover have "same_but_links s s4" "unlinked s4 lp" "lc_l (s4 lp) = None"
      "\<forall>l. l \<noteq> lp \<longrightarrow> lc_l (s4 l) = lc_l (s l)"
    using ne by (auto simp: same_but_links_def s4_defs unlinked_def)
  moreover have "\<forall>l. l \<notin> set ids \<longrightarrow> s4 l = s l"
    using mem by (auto simp: s4_defs)
  moreover have "linked s4 (remove_at pos ids)"
  proof (rule linked_remove_at [OF lnk dist pos], unfold p_def [symmetric] q_def [symmetric] lp_def [symmetric])
    fix l
    show "next_l (s4 l) = (if l = lp then None else if 0 < pos \<and> l = p
        then if Suc pos < ?n then Some q else None else next_l (s l))"
      using ne links by (cases "0 < pos"; cases "Suc pos < ?n") (auto simp: s4_defs)
    show "prev_l (s4 l) = (if l = lp then None else if Suc pos < ?n \<and> l = q
        then if 0 < pos then Some p else None else prev_l (s l))"
      using ne links by (cases "0 < pos"; cases "Suc pos < ?n") (auto simp: s4_defs)
  qed
  ultimately show ?thesis using lc'(2) unfolding lp_def by blast
qed

section \<open>The operations on a well-formed chain\<close>

lemma key_sorted_insert_at:
  assumes "key_sorted s ids" "p \<le> length ids"
    and "\<And>k. k < p \<Longrightarrow> \<not> key_gt (s (ids ! k)) (s lp)"
    and "\<And>k. p \<le> k \<Longrightarrow> k < length ids \<Longrightarrow> \<not> key_gt (s lp) (s (ids ! k))"
  shows "key_sorted s (insert_at p lp ids)"
proof -
  let ?R = "\<lambda>a b. \<not> key_gt (s a) (s b)"
  have split: "sorted_wrt ?R (take p ids)" "sorted_wrt ?R (drop p ids)"
      "\<forall>x \<in> set (take p ids). \<forall>y \<in> set (drop p ids). ?R x y"
    using assms(1) sorted_wrt_append [of ?R "take p ids" "drop p ids"] by (auto simp: key_sorted_def)
  moreover have "\<forall>x \<in> set (take p ids). ?R x lp"
    using assms(3) by (auto simp: in_set_conv_nth)
  moreover have "\<forall>y \<in> set (drop p ids). ?R lp y"
    using assms(4) by (auto simp: in_set_conv_nth)
  ultimately show ?thesis by (simp add: key_sorted_def insert_at_def sorted_wrt_append)
qed

lemma key_sorted_remove1: "key_sorted s ids \<Longrightarrow> key_sorted s (remove1 l ids)"
  unfolding key_sorted_def using set_remove1_subset by (induction ids) fastforce+

lemma unlink_lease_spec:
  assumes rep: "chain_rep lcid lc s ids" and lp: "lp \<in> set ids"
  shows "\<exists>lc' s'. lc_unlink_lease lc s lp = Ret (lc', s') \<and> chain_rep lcid lc' s' (remove1 lp ids)
    \<and> same_but_links s s' \<and> unlinked s' lp \<and> lc_l (s' lp) = None
    \<and> (\<forall>l. l \<notin> set ids \<longrightarrow> s' l = s l)"
proof -
  have ar: "array_rep lc ids" and dist: "distinct ids" and srt: "key_sorted s ids"
    and lnk: "linked s ids" and own: "\<forall>l \<in> set ids. lc_l (s l) = Some lcid \<and> sort_tiebreaker (s l) \<le> LONG_MAX"
    using rep by (auto simp: chain_rep_def)
  obtain j where j: "j < length ids" "lp = ids ! j" using lp by (auto simp: in_set_conv_nth)
  have n: "nelem lc = length ids" using ar by (simp add: array_rep_def)
  have "lc_binary_search_lease lc s lp 0 (nelem lc - 1) = Ret (Some j)"
    using search_lease_found [OF ar srt dist, of 0 j "nelem lc - 1"] j n by simp
  then have run: "lc_unlink_lease lc s lp = lc_unlink_lease_pos lc s j"
    using n j(1) unfolding lc_unlink_lease_def by (cases "nelem lc = 0") simp_all
  obtain lc' s' where r: "lc_unlink_lease_pos lc s j = Ret (lc', s')"
      "array_rep lc' (remove_at j ids)" "linked s' (remove_at j ids)" "same_but_links s s'"
      "unlinked s' lp" "lc_l (s' lp) = None" "\<forall>l. l \<noteq> lp \<longrightarrow> lc_l (s' l) = lc_l (s l)"
      "\<forall>l. l \<notin> set ids \<longrightarrow> s' l = s l"
    using unlink_pos_spec [OF ar dist lnk j(1)] unfolding j(2) by blast
  have "remove_at j ids = remove1 lp ids" using remove_at_eq_remove1 [OF dist j(1)] j(2) by simp
  moreover have "\<forall>l \<in> set (remove1 lp ids). lc_l (s' l) = Some lcid
      \<and> sort_tiebreaker (s' l) \<le> LONG_MAX"
    using own r(7) same_but_linksD [OF r(4)] dist by simp
  moreover have "key_sorted s' (remove1 lp ids)"
    using key_sorted_remove1 [OF srt] key_sorted_same [OF r(4)] by simp
  ultimately show ?thesis using run r dist by (simp add: chain_rep_def)
qed

text \<open>The store with the tiebreaker of one lease set.\<close>

definition with_tb :: "lstore \<Rightarrow> lid \<Rightarrow> int \<Rightarrow> lstore" where
  "with_tb s lp tb = s(lp := (s lp)\<lparr>sort_tiebreaker := tb\<rparr>)"

lemma with_tb_other [simp]: "l \<noteq> lp \<Longrightarrow> with_tb s lp tb l = s l"
  and with_tb_time [simp]: "sort_time (with_tb s lp tb l) = sort_time (s l)"
  and with_tb_tb [simp]: "sort_tiebreaker (with_tb s lp tb lp) = tb"
  and with_tb_links [simp]: "next_l (with_tb s lp tb l) = next_l (s l)"
    "prev_l (with_tb s lp tb l) = prev_l (s l)" "lc_l (with_tb s lp tb l) = lc_l (s l)"
  by (simp_all add: with_tb_def)

lemma chain_rep_with_tb:
  "chain_rep lcid lc s ids \<Longrightarrow> lp \<notin> set ids \<Longrightarrow> chain_rep lcid lc (with_tb s lp tb) ids"
proof -
  assume rep: "chain_rep lcid lc s ids" and lp: "lp \<notin> set ids"
  have eq: "with_tb s lp tb l = s l" if "l \<in> set ids" for l
    using lp that by (metis with_tb_other)
  have "key_sorted (with_tb s lp tb) ids = key_sorted s ids"
    unfolding key_sorted_def sorted_wrt_iff_nth_less using eq by auto
  with rep eq show ?thesis unfolding chain_rep_def linked_def by auto
qed

lemma add_at_spec:
  assumes rep: "chain_rep lcid lc s ids" and lp: "lp \<notin> set ids" "unlinked s lp" and pos: "p \<le> length ids"
    and mem: "nelem lc < total_lc lc \<or> alloc_ok" and tb: "tb \<le> LONG_MAX"
    and "\<And>k. k < p \<Longrightarrow> \<not> key_gt (s (ids ! k)) (with_tb s lp tb lp)"
    and "\<And>k. p \<le> k \<Longrightarrow> k < length ids \<Longrightarrow> \<not> key_gt (with_tb s lp tb lp) (s (ids ! k))"
  shows "\<exists>lc' s'. lc_add_lease_pos lcid alloc_ok lc (with_tb s lp tb) lp p = Ret (lc', s')
    \<and> chain_rep lcid lc' s' (insert_at p lp ids) \<and> same_but_links (with_tb s lp tb) s'
    \<and> (\<forall>l. l \<notin> insert lp (set ids) \<longrightarrow> s' l = s l)"
proof -
  let ?s = "with_tb s lp tb"
  have rep': "array_rep lc ids" "distinct ids" "key_sorted ?s ids" "linked ?s ids"
      "\<forall>l \<in> set ids. lc_l (?s l) = Some lcid \<and> sort_tiebreaker (?s l) \<le> LONG_MAX"
    using chain_rep_with_tb [OF rep lp(1)] by (auto simp: chain_rep_def)
  have "unlinked ?s lp" using lp(2) by (simp add: unlinked_def)
  from add_pos_spec [OF rep'(1,2,4) lp(1) this pos mem] obtain lc' s' where
    r: "lc_add_lease_pos lcid alloc_ok lc ?s lp p = Ret (lc', s')"
      "array_rep lc' (insert_at p lp ids)" "linked s' (insert_at p lp ids)" "same_but_links ?s s'"
      "lc_l (s' lp) = Some lcid" "\<forall>l. l \<noteq> lp \<longrightarrow> lc_l (s' l) = lc_l (?s l)"
      "\<forall>l. l \<notin> insert lp (set ids) \<longrightarrow> s' l = ?s l" by blast
  have ne: "ids ! k \<noteq> lp" if "k < length ids" for k using lp(1) that by (metis nth_mem)
  have "key_sorted ?s (insert_at p lp ids)"
  proof (rule key_sorted_insert_at [OF rep'(3) pos])
    show "\<not> key_gt (?s (ids ! k)) (?s lp)" if "k < p" for k
      using assms(7) [OF that] ne [of k] that pos by simp
    show "\<not> key_gt (?s lp) (?s (ids ! k))" if "p \<le> k" "k < length ids" for k
      using assms(8) [OF that] ne [OF that(2)] by simp
  qed
  moreover have "\<forall>l \<in> set (insert_at p lp ids). lc_l (s' l) = Some lcid
      \<and> sort_tiebreaker (s' l) \<le> LONG_MAX"
    using r(5,6) same_but_linksD(2) [OF r(4)] rep'(5) tb lp(1) by (metis insert_iff set_insert_at with_tb_tb)
  ultimately show ?thesis
    using r rep'(2) lp(1) by (auto simp: chain_rep_def key_sorted_same distinct_insert_at)
qed

lemma add_sorted_position:
  assumes rep: "chain_rep lcid lc s ids" and lp: "lp \<notin> set ids" and rnd: "rnd \<le> LONG_MAX"
  shows "\<exists>p tb. lc_add_sorted_lease lcid alloc_ok rnd lc s lp
        = lc_add_lease_pos lcid alloc_ok lc (with_tb s lp tb) lp p \<and> p \<le> length ids
      \<and> tb \<le> LONG_MAX \<and> (\<forall>k < p. \<not> key_gt (s (ids ! k)) (with_tb s lp tb lp))
      \<and> (\<forall>k. p \<le> k \<and> k < length ids \<longrightarrow> \<not> key_gt (with_tb s lp tb lp) (s (ids ! k)))"
proof -
  let ?run = "lc_add_sorted_lease lcid alloc_ok rnd lc s lp"
  have ar: "array_rep lc ids" and n: "nelem lc = length ids" and srt: "key_sorted s ids"
    and own: "\<forall>l \<in> set ids. sort_tiebreaker (s l) \<le> LONG_MAX"
    using rep by (auto simp: chain_rep_def array_rep_def)
  show ?thesis
  proof (cases "ids = []")
    case True
    then have "?run = lc_add_lease_pos lcid alloc_ok lc (with_tb s lp 0) lp 0"
      using n by (simp add: lc_add_sorted_lease_def with_tb_def)
    with True show ?thesis by (intro exI [of _ 0]) (simp add: LONG_MAX_def)
  next
    case False
    define e where "e = ids ! (length ids - 1)"
    have rd: "rdp (list_lc lc) (nelem lc - 1) = Ret e" using ar False n by (simp add: e_def)
    have e: "e \<in> set ids" using False by (simp add: e_def)
    have last: "\<not> key_gt (s (ids ! k)) (s e)" if "k < length ids" for k
      using key_sortedD [OF srt, of k "length ids - 1"] that by (simp add: e_def)
    have unf: "?run = (if sort_time (s lp) > sort_time (s e) then
          lc_add_lease_pos lcid alloc_ok lc (with_tb s lp 0) lp (length ids)
        else if sort_time (s lp) = sort_time (s e) then
          lc_add_lease_pos lcid alloc_ok lc (with_tb s lp
            (if sort_tiebreaker (s e) < LONG_MAX then sort_tiebreaker (s e) + 1 else LONG_MAX)) lp
            (length ids)
        else bindC (lc_binary_search_insert_point lc (with_tb s lp rnd) lp 0 (length ids - 1))
          (lc_add_lease_pos lcid alloc_ok lc (with_tb s lp rnd) lp))"
      using False rd n unfolding lc_add_sorted_lease_def by (simp add: with_tb_def Let_def)
    consider (after) "sort_time (s lp) > sort_time (s e)" | (same) "sort_time (s lp) = sort_time (s e)"
      | (mid) "sort_time (s lp) < sort_time (s e)" by linarith
    then show ?thesis
    proof cases
      case after
      with last show ?thesis
        by (intro exI [of _ "length ids"] exI [of _ 0]) (fastforce simp: unf key_gt_def LONG_MAX_def)
    next
      case same
      define tb where "tb = (if sort_tiebreaker (s e) < LONG_MAX
        then sort_tiebreaker (s e) + 1 else LONG_MAX)"
      have tb: "sort_tiebreaker (s e) \<le> tb" "tb \<le> LONG_MAX"
        using own e by (auto simp: tb_def)
      have "\<not> key_gt (s (ids ! k)) (with_tb s lp tb lp)" if "k < length ids" for k
        using last [OF that] tb same by (auto simp: key_gt_def)
      moreover have "?run = lc_add_lease_pos lcid alloc_ok lc (with_tb s lp tb) lp (length ids)"
        using same by (simp add: unf tb_def)
      ultimately show ?thesis using tb(2) by (intro exI [of _ "length ids"] exI [of _ tb]) auto
    next
      case mid
      let ?s = "with_tb s lp rnd"
      have "key_sorted ?s ids"
        using chain_rep_with_tb [OF rep lp] by (simp add: chain_rep_def)
      from insert_point_spec [OF ar this, of 0 "length ids - 1" lp] False obtain p where
        p: "lc_binary_search_insert_point lc ?s lp 0 (length ids - 1) = Ret p" "p \<le> length ids"
          "\<forall>k. k < p \<longrightarrow> \<not> key_gt (?s (ids ! k)) (?s lp)"
          "\<forall>k. p \<le> k \<and> k \<le> length ids - 1 \<longrightarrow> \<not> key_gt (?s lp) (?s (ids ! k))" by auto
      have ne: "?s (ids ! k) = s (ids ! k)" if "k < length ids" for k
        using lp that by (metis nth_mem with_tb_other)
      show ?thesis using mid p rnd ne
        by (intro exI [of _ p] exI [of _ rnd]) (auto simp: unf)
    qed
  qed
qed

text \<open>
  Insertion keeps a well-formed chain: the array, the links and the order are those of the
  old chain with the lease added at one position.
\<close>

lemma add_sorted_spec:
  assumes rep: "chain_rep lcid lc s ids" and lp: "lp \<notin> set ids" "unlinked s lp"
    and mem: "nelem lc < total_lc lc \<or> alloc_ok" and rnd: "rnd \<le> LONG_MAX"
  shows "\<exists>lc' s' p tb. lc_add_sorted_lease lcid alloc_ok rnd lc s lp = Ret (lc', s') \<and> p \<le> length ids
    \<and> chain_rep lcid lc' s' (insert_at p lp ids) \<and> same_but_links (with_tb s lp tb) s'
    \<and> (\<forall>l. l \<notin> insert lp (set ids) \<longrightarrow> s' l = s l)"
proof -
  obtain p tb where run: "lc_add_sorted_lease lcid alloc_ok rnd lc s lp
        = lc_add_lease_pos lcid alloc_ok lc (with_tb s lp tb) lp p" and p: "p \<le> length ids"
    and tb: "tb \<le> LONG_MAX" and below: "\<And>k. k < p \<Longrightarrow> \<not> key_gt (s (ids ! k)) (with_tb s lp tb lp)"
    and above: "\<And>k. p \<le> k \<Longrightarrow> k < length ids \<Longrightarrow> \<not> key_gt (with_tb s lp tb lp) (s (ids ! k))"
    using add_sorted_position [OF rep lp(1) rnd] by blast
  from add_at_spec [OF rep lp p mem tb below above] show ?thesis
    unfolding run using p by blast
qed

lemma delete_from_spec:
  assumes "array_rep lc ids" "distinct ids" "linked s ids" "length ids = Suc i"
  shows "\<exists>lc' s'. lc_delete_from lc s i = Ret (lc', s') \<and> array_rep lc' [] \<and> same_but_links s s'
    \<and> (\<forall>l \<in> set ids. unlinked s' l \<and> lc_l (s' l) = None) \<and> (\<forall>l. l \<notin> set ids \<longrightarrow> s' l = s l)"
  using assms
proof (induction i arbitrary: lc s ids)
  case 0
  from unlink_pos_spec [OF 0(1-3), of 0] 0(4) show ?case
    by (auto simp: length_Suc_conv remove_at_def)
next
  case (Suc i)
  let ?l = "ids ! Suc i"
  have rm: "remove_at (Suc i) ids = butlast ids"
    using Suc.prems(4) by (simp add: remove_at_def butlast_conv_take)
  have split: "ids = butlast ids @ [?l]"
    using Suc.prems(4) by (metis append_butlast_last_id diff_Suc_1 last_conv_nth list.size(3) nat.simps(3))
  obtain lc1 s1 where one: "lc_unlink_lease_pos lc s (Suc i) = Ret (lc1, s1)"
      "array_rep lc1 (butlast ids)" "linked s1 (butlast ids)" "same_but_links s s1"
      "unlinked s1 ?l" "lc_l (s1 ?l) = None" "\<forall>l. l \<notin> set ids \<longrightarrow> s1 l = s l"
    using unlink_pos_spec [OF Suc.prems(1-3), of "Suc i"] Suc.prems(4) unfolding rm by auto
  have "distinct (butlast ids)" "?l \<notin> set (butlast ids)"
    using Suc.prems(2) split distinct_butlast by (metis, metis not_distinct_conv_prefix)
  from Suc.IH [OF one(2) this(1) one(3)] Suc.prems(4) obtain lc2 s2 where
    two: "lc_delete_from lc1 s1 i = Ret (lc2, s2)" "array_rep lc2 []" "same_but_links s1 s2"
      "\<forall>l \<in> set (butlast ids). unlinked s2 l \<and> lc_l (s2 l) = None"
      "\<forall>l. l \<notin> set (butlast ids) \<longrightarrow> s2 l = s1 l" by auto
  have ids: "set ids = insert ?l (set (butlast ids))" by (subst split) simp
  have "same_but_links s s2" using one(4) two(3) by (rule same_but_links_trans)
  moreover have "\<forall>l \<in> set ids. unlinked s2 l \<and> lc_l (s2 l) = None"
    using two(4,5) one(5,6) \<open>?l \<notin> set (butlast ids)\<close> unfolding ids by (simp add: unlinked_def)
  moreover have "\<forall>l. l \<notin> set ids \<longrightarrow> s2 l = s l"
    using two(5) one(7) unfolding ids by simp
  ultimately show ?case using one(1) two(1,2) by simp
qed

lemma delete_all_spec:
  assumes "chain_rep lcid lc s ids"
  shows "\<exists>lc' s'. lc_delete_all lc s = Ret (lc', s') \<and> chain_rep lcid lc' s' [] \<and> same_but_links s s'
    \<and> (\<forall>l \<in> set ids. unlinked s' l \<and> lc_l (s' l) = None) \<and> (\<forall>l. l \<notin> set ids \<longrightarrow> s' l = s l)"
proof (cases "ids = []")
  case True
  with assms show ?thesis
    by (simp add: chain_rep_def lc_delete_all_def array_rep_def same_but_links_def key_sorted_def linked_def)
next
  case False
  then have n: "nelem lc = length ids" "length ids = Suc (nelem lc - 1)"
    using assms by (auto simp: chain_rep_def array_rep_def)
  from assms have "array_rep lc ids" "distinct ids" "linked s ids" by (auto simp: chain_rep_def)
  from delete_from_spec [OF this n(2)] obtain lc' s' where r:
    "lc_delete_from lc s (nelem lc - 1) = Ret (lc', s')" "same_but_links s s'"
    "\<forall>l \<in> set ids. unlinked s' l \<and> lc_l (s' l) = None" "\<forall>l. l \<notin> set ids \<longrightarrow> s' l = s l" by blast
  then have "lc_delete_all lc s = Ret (lc'\<lparr>list_lc := [], total_lc := 0, nelem := 0\<rparr>, s')"
    using n(1) False by (simp add: lc_delete_all_def)
  with r(2-4) show ?thesis by (auto simp: chain_rep_def array_rep_def key_sorted_def linked_def)
qed

lemma scan_up_none:
  assumes "array_rep lc ids" "hi < length ids" "lp \<notin> set ids"
  shows "lc_scan_up lc s lp hi i = Ret None"
proof (induction "Suc hi - i" arbitrary: i rule: less_induct)
  case less
  have "lc_scan_up lc s lp hi (i + 1) = Ret None" if "i \<le> hi" using less that by simp
  moreover have "ids ! i \<noteq> lp" if "i \<le> hi" using assms(2,3) that by (metis le_less_trans nth_mem)
  ultimately show ?case
    using assms(1,2) by (simp add: lc_scan_up.simps [of lc s lp hi i] array_rep_rd)
qed

lemma search_lease_missing:
  assumes rep: "array_rep lc ids" and lp: "lp \<notin> set ids" and "hi < length ids"
  shows "lc_binary_search_lease lc s lp lo hi = Ret None"
  using assms(3)
proof (induction "Suc hi - lo" arbitrary: lo hi rule: less_induct)
  case less
  define mid where "mid = (hi - lo) div 2 + lo"
  show ?case
  proof (cases "hi < lo")
    case True
    then show ?thesis by (simp add: lc_binary_search_lease.simps [of lc s lp lo hi])
  next
    case False
    then have mid: "lo \<le> mid" "mid \<le> hi" "mid < length ids" using less.prems by (auto simp: mid_def)
    have ne: "ids ! k \<noteq> lp" if "k < length ids" for k using lp that by (metis nth_mem)
    have "lc_binary_search_lease lc s lp lo (mid - 1) = Ret None" if "mid \<noteq> lo"
      using less.hyps [of "mid - 1" lo] mid that less.prems by simp
    moreover have "lc_binary_search_lease lc s lp (mid + 1) hi = Ret None"
      using less.hyps [of hi "mid + 1"] mid less.prems by simp
    moreover have "lc_scan_down lc s lp lo (mid - 1) = Ret None"
      using scan_down_none [OF rep, of "mid - 1" lp s lo] mid ne by simp
    moreover have "lc_scan_up lc s lp hi (mid + 1) = Ret None"
      by (rule scan_up_none [OF rep less.prems lp])
    ultimately show ?thesis
      using False rep mid ne [OF mid(3)] by (cases "mid = lo")
        (auto simp: lc_binary_search_lease.simps [of lc s lp lo hi] mid_def [symmetric] Let_def)
  qed
qed

section \<open>Properties\<close>

text \<open>A lease record for examples.\<close>

definition lease_due :: "int \<Rightarrow> nat option \<Rightarrow> lease" where
  "lease_due t lcid = \<lparr>next_l = None, prev_l = None, lc_l = lcid, ends_l = t, sort_time = t,
     sort_tiebreaker = 0, client_hostname = None, scope_l = None, host_l = None, pool_l = Some 0,
     billing_class = None, agent_options = None, on_expiry = None, on_commit = None,
     on_release = None, flags_l = 0, binding_state = 2, next_binding_state = 1,
     desired_binding_state = 2, rewind_binding_state = 2, tstp_l = 0, tsfp_l = 0, atsfp_l = 0\<rparr>"

text \<open>C10: \<open>lc_add_sorted_lease\<close> keeps a lease chain well formed: with memory available it
  returns, the array and the doubly linked list still hold the same leases in the same order,
  sorted by \<open>sort_time\<close> and tiebreaker, the new sequence is the old one with the lease inserted
  at one position, and no lease outside the chain is touched.\<close>

theorem add_sorted_lease_keeps_chain:
  assumes "chain_rep lcid lc s ids" "lp \<notin> set ids" "unlinked s lp"
    and "nelem lc < total_lc lc \<or> alloc_ok" "rnd \<le> LONG_MAX"
  shows "\<exists>lc' s' p. lc_add_sorted_lease lcid alloc_ok rnd lc s lp = Ret (lc', s') \<and> p \<le> length ids
    \<and> chain_rep lcid lc' s' (insert_at p lp ids) \<and> (\<forall>l. sort_time (s' l) = sort_time (s l))
    \<and> (\<forall>l. l \<notin> insert lp (set ids) \<longrightarrow> s' l = s l)"
proof -
  obtain lc' s' p tb where r: "lc_add_sorted_lease lcid alloc_ok rnd lc s lp = Ret (lc', s')"
      "p \<le> length ids" "chain_rep lcid lc' s' (insert_at p lp ids)" "same_but_links (with_tb s lp tb) s'"
      "\<forall>l. l \<notin> insert lp (set ids) \<longrightarrow> s' l = s l"
    using add_sorted_spec [OF assms] by blast
  with same_but_linksD(1) [OF r(4)] show ?thesis by auto
qed

theorem add_sorted_lease_keeps_chain_witness:
  "\<exists>lc' s' p. lc_add_sorted_lease 0 True 7 \<lparr>list_lc = [Some 0], total_lc = 1, nelem = 1, growth = 0\<rparr>
      (\<lambda>l. if l = 0 then lease_due 10 (Some 0) else lease_due 5 None) 1 = Ret (lc', s') \<and> p \<le> length [0 :: lid]
    \<and> chain_rep 0 lc' s' (insert_at p 1 [0])
    \<and> (\<forall>l. sort_time (s' l) = sort_time (if l = 0 then lease_due 10 (Some 0) else lease_due 5 None))
    \<and> (\<forall>l. l \<notin> insert 1 (set [0]) \<longrightarrow> s' l = (if l = 0 then lease_due 10 (Some 0) else lease_due 5 None))"
  by (rule add_sorted_lease_keeps_chain)
    (simp_all add: chain_rep_def array_rep_def key_sorted_def linked_def unlinked_def lease_due_def LONG_MAX_def)

text \<open>C15: \<open>lc_unlink_lease\<close> undoes \<open>lc_add_sorted_lease\<close>: the lease just added is found by the
  bisection, whatever other leases have the same key, the chain represents its old sequence
  again, and the lease has no links and no chain.\<close>

theorem unlink_after_add_sorted:
  assumes rep: "chain_rep lcid lc s ids" and lp: "lp \<notin> set ids" "unlinked s lp"
    and "nelem lc < total_lc lc \<or> alloc_ok" "rnd \<le> LONG_MAX"
  shows "\<exists>lc1 s1 lc2 s2. lc_add_sorted_lease lcid alloc_ok rnd lc s lp = Ret (lc1, s1)
    \<and> lc_unlink_lease lc1 s1 lp = Ret (lc2, s2) \<and> chain_rep lcid lc2 s2 ids
    \<and> unlinked s2 lp \<and> lc_l (s2 lp) = None"
proof -
  obtain lc1 s1 p where add: "lc_add_sorted_lease lcid alloc_ok rnd lc s lp = Ret (lc1, s1)"
      "p \<le> length ids" "chain_rep lcid lc1 s1 (insert_at p lp ids)"
    using add_sorted_spec [OF assms] by blast
  have "remove1 lp (insert_at p lp ids) = ids"
    using lp(1) by (simp add: insert_at_def remove1_append) (metis in_set_takeD)
  with unlink_lease_spec [OF add(3), of lp] add(1) show ?thesis by auto
qed

theorem unlink_after_add_sorted_witness:
  "\<exists>lc1 s1 lc2 s2. lc_add_sorted_lease 0 True 0 \<lparr>list_lc = [Some 0, None], total_lc = 2, nelem = 1, growth = 0\<rparr>
      (\<lambda>l. if l = 0 then lease_due 10 (Some 0) else lease_due 5 None) 1 = Ret (lc1, s1)
    \<and> lc_unlink_lease lc1 s1 1 = Ret (lc2, s2) \<and> chain_rep 0 lc2 s2 [0]
    \<and> unlinked s2 1 \<and> lc_l (s2 1) = None"
  by (rule unlink_after_add_sorted)
    (simp_all add: chain_rep_def array_rep_def key_sorted_def linked_def unlinked_def lease_due_def LONG_MAX_def)

text \<open>\<open>lc_unlink_lease\<close> on a lease that is not on the chain stops the server; it never takes
  out another lease.\<close>

theorem unlink_missing_lease_is_fatal:
  assumes "chain_rep lcid lc s ids" "ids \<noteq> []" "lp \<notin> set ids"
  shows "lc_unlink_lease lc s lp = Fatal"
proof -
  have "array_rep lc ids" "nelem lc = length ids" using assms(1) by (auto simp: chain_rep_def array_rep_def)
  with search_lease_missing [OF _ assms(3), of lc "nelem lc - 1" s 0] assms(2) show ?thesis
    by (simp add: lc_unlink_lease_def)
qed

text \<open>\<open>lc_delete_all\<close> unlinks every lease of the chain and leaves an empty chain.\<close>

theorem delete_all_empties_chain:
  assumes "chain_rep lcid lc s ids"
  shows "\<exists>lc' s'. lc_delete_all lc s = Ret (lc', s') \<and> chain_rep lcid lc' s' [] \<and> \<not> lc_not_empty lc'
    \<and> (\<forall>l \<in> set ids. unlinked s' l \<and> lc_l (s' l) = None) \<and> (\<forall>l. l \<notin> set ids \<longrightarrow> s' l = s l)"
  using delete_all_spec [OF assms] by (auto simp: lc_not_empty_def chain_rep_def array_rep_def)

end
