(* ===== verification/Lease_Queue.thy ===== *)
theory Lease_Queue
  imports Lease_Chain "HOL-Library.Multiset"
begin

text \<open>
  The lease queues of \<open>server/mdb.c\<close>. A build without \<open>BINARY_LEASES\<close> keeps a queue as a
  singly linked list (\<open>lease_insert\<close>, \<open>lease_remove\<close>, \<open>lease_remove_all\<close>); a build with it
  keeps a lease chain. The macros \<open>LEASE_INSERTP\<close>, \<open>LEASE_REMOVEP\<close>, \<open>LEASE_GET_FIRSTP\<close> and
  \<open>LEASE_GET_NEXTP\<close> of \<open>includes/dhcpd.h\<close> hide the difference: they are the interface
  \<open>lease_queue\<close>, which both implementations satisfy.

  A walk over a list of leases ends only if the list does; the walks are therefore partial
  functions, and \<open>None\<close> is a walk that does not return.
\<close>

section \<open>Singly linked queues\<close>

partial_function (option) lease_insert_scan ::
  "lstore \<Rightarrow> int \<Rightarrow> lid option \<Rightarrow> lid option \<Rightarrow> lid option option" where
  "lease_insert_scan s t prev lp =
     (case lp of None \<Rightarrow> Some prev
      | Some l \<Rightarrow> if sort_time (s l) \<ge> t then Some prev
                  else lease_insert_scan s t lp (next_l (s l)))"

text \<open>The new lease goes after \<open>prev\<close>, or to the head of the queue.\<close>

definition lease_splice :: "lid option \<Rightarrow> lstore \<Rightarrow> lid \<Rightarrow> lid option \<Rightarrow> lid option \<times> lstore" where
  "lease_splice lq s cl prev =
     (case prev of
        Some p \<Rightarrow>
          let s = (case next_l (s p) of None \<Rightarrow> s
                   | Some n \<Rightarrow>
                      let s = s(cl := (s cl)\<lparr>next_l := lease_reference (next_l (s cl)) n\<rparr>)
                      in s(p := (s p)\<lparr>next_l := None\<rparr>))
          in (lq, s(p := (s p)\<lparr>next_l := lease_reference (next_l (s p)) cl\<rparr>))
      | None \<Rightarrow>
          let s = (case lq of None \<Rightarrow> s
                   | Some h \<Rightarrow>
                      s(cl := (s cl)\<lparr>next_l := lease_reference (next_l (s cl)) h\<rparr>))
          in (lease_reference None cl, s))"

text \<open>
  The static variables \<open>last_lq\<close> and \<open>last_insert_point\<close> are the argument \<open>cache\<close>, \<open>q\<close>
  is the address of the queue head and \<open>qfollow\<close> the flag \<open>SS_QFOLLOW\<close> of
  \<open>server_starting\<close>.
\<close>

definition lease_insert ::
  "bool \<Rightarrow> nat \<Rightarrow> (nat \<times> lid) option \<Rightarrow> lid option \<Rightarrow> lstore \<Rightarrow> lid
    \<Rightarrow> ((nat \<times> lid) option \<times> lid option \<times> lstore) option" where
  "lease_insert qfollow q cache lq s cl =
     (let (prev, lp) =
        (case cache of
           Some (last_lq, last_insert_point) \<Rightarrow>
             if qfollow \<and> q = last_lq \<and> cl \<noteq> last_insert_point
                \<and> sort_time (s last_insert_point) \<le> sort_time (s cl)
             then (Some last_insert_point, next_l (s last_insert_point))
             else (None, lq)
         | None \<Rightarrow> (None, lq))
      in Option.bind (lease_insert_scan s (sort_time (s cl)) prev lp) (\<lambda>prev.
        Some (Some (q, cl), lease_splice lq s cl prev)))"

partial_function (option) lease_remove_scan ::
  "lstore \<Rightarrow> lid \<Rightarrow> lid option \<Rightarrow> lid option \<Rightarrow> (lid option \<times> bool) option" where
  "lease_remove_scan s cl prev lp =
     (case lp of None \<Rightarrow> Some (prev, False)
      | Some l \<Rightarrow> if l = cl then Some (prev, True)
                  else lease_remove_scan s cl lp (next_l (s l)))"

definition lease_remove :: "lid option \<Rightarrow> lstore \<Rightarrow> lid \<Rightarrow> (lid option \<times> lstore) cres option" where
  "lease_remove lq s cl =
     Option.bind (lease_remove_scan s cl None lq) (\<lambda>(prev, found).
     Some (if \<not> found then Fatal
       else case prev of
         Some p \<Rightarrow>
           let s = s(p := (s p)\<lparr>next_l := None\<rparr>)
           in Ret (lq, case next_l (s cl) of None \<Rightarrow> s
                | Some n \<Rightarrow> let s = s(p := (s p)\<lparr>next_l := lease_reference (next_l (s p)) n\<rparr>)
                            in s(cl := (s cl)\<lparr>next_l := None\<rparr>))
       | None \<Rightarrow>
           Ret (case next_l (s cl) of None \<Rightarrow> (None, s)
                | Some n \<Rightarrow> (lease_reference None n, s(cl := (s cl)\<lparr>next_l := None\<rparr>)))))"

text \<open>
  \<open>lp0\<close> is the value of the local variable \<open>lp\<close>, which is not initialised:
  \<open>lease_reference\<close> leaves a pointer that is not NULL alone, and the loop then works on
  whatever it points to.
\<close>

partial_function (option) lease_remove_all_loop :: "lstore \<Rightarrow> lid \<Rightarrow> lstore option" where
  "lease_remove_all_loop s lp =
     (case next_l (s lp) of None \<Rightarrow> Some s
      | Some ln \<Rightarrow> lease_remove_all_loop (s(lp := (s lp)\<lparr>next_l := None\<rparr>)) ln)"

definition lease_remove_all ::
  "lid option \<Rightarrow> lid option \<Rightarrow> lstore \<Rightarrow> (lid option \<times> lstore) cres option" where
  "lease_remove_all lp0 lq s =
     (case lq of None \<Rightarrow> Some (Ret (lq, s))
      | Some h \<Rightarrow> (case lp0 of Some _ \<Rightarrow> Some Undef
          | None \<Rightarrow> Option.bind (lease_remove_all_loop s h) (\<lambda>s. Some (Ret (None, s)))))"

section \<open>List segments\<close>

fun lseg :: "lstore \<Rightarrow> lid option \<Rightarrow> lid list \<Rightarrow> lid option \<Rightarrow> bool" where
  "lseg s p [] q \<longleftrightarrow> p = q"
| "lseg s p (x # xs) q \<longleftrightarrow> p = Some x \<and> lseg s (next_l (s x)) xs q"

lemma lseg_append: "lseg s p (xs @ ys) q \<longleftrightarrow> (\<exists>r. lseg s p xs r \<and> lseg s r ys q)"
  by (induction xs arbitrary: p) auto

lemma lseg_frame: "(\<And>l. l \<in> set xs \<Longrightarrow> next_l (s' l) = next_l (s l)) \<Longrightarrow> lseg s' p xs q = lseg s p xs q"
  by (induction xs arbitrary: p) auto

lemma lseg_next:
  "lseg s p xs None \<Longrightarrow> i < length xs \<Longrightarrow>
     next_l (s (xs ! i)) = (if Suc i < length xs then Some (xs ! Suc i) else None)"
proof (induction xs arbitrary: p i)
  case (Cons x xs)
  then show ?case by (cases i; cases xs) auto
qed simp

lemma lseg_last: "lseg s p (A @ [x]) q \<Longrightarrow> next_l (s x) = q"
  by (simp add: lseg_append)

lemma lseg_relast:
  assumes "lseg s p A q" "distinct A" "\<And>l. l \<in> set A \<Longrightarrow> l \<noteq> last A \<Longrightarrow> next_l (s' l) = next_l (s l)"
    and "A \<noteq> [] \<Longrightarrow> next_l (s' (last A)) = q'" and "A \<noteq> []"
  shows "lseg s' p A q'"
proof -
  define B where "B = butlast A"
  have A: "A = B @ [last A]" using assms(5) by (simp add: B_def)
  then have nin: "last A \<notin> set B" using assms(2) by (metis distinct_append disjoint_insert(1) list.set(2))
  have "lseg s' p B (Some (last A))"
    using assms(1) nin assms(3) A lseg_frame [of B s' s p] 
    by (metis (no_types, lifting) UnCI lseg.simps(2) lseg_append set_append)
  then show ?thesis using A assms(4,5) by (metis lseg.simps lseg_append)
qed

lemma insert_scan_spec:
  "lseg s lp xs None \<Longrightarrow> lease_insert_scan s t prev lp =
     (let A = takeWhile (\<lambda>l. sort_time (s l) < t) xs in Some (if A = [] then prev else Some (last A)))"
proof (induction xs arbitrary: prev lp)
  case Nil
  then show ?case by (simp add: lease_insert_scan.simps [of s t prev None])
next
  case (Cons x xs)
  then show ?case by (auto simp: lease_insert_scan.simps [of s t prev "Some x"] Let_def)
qed

lemma remove_scan_spec:
  "lseg s lp xs None \<Longrightarrow> lease_remove_scan s cl prev lp =
     (let A = takeWhile (\<lambda>l. l \<noteq> cl) xs
      in Some (if A = [] then prev else Some (last A), cl \<in> set xs))"
proof (induction xs arbitrary: prev lp)
  case Nil
  then show ?case by (simp add: lease_remove_scan.simps [of s cl prev None])
next
  case (Cons x xs)
  then show ?case by (auto simp: lease_remove_scan.simps [of s cl prev "Some x"] Let_def)
qed

section \<open>Operations on a sorted linked queue\<close>

definition list_rep :: "lid option \<Rightarrow> lstore \<Rightarrow> lid list \<Rightarrow> bool" where
  "list_rep lq s ids \<longleftrightarrow> lseg s lq ids None \<and> distinct ids \<and> sorted (map (\<lambda>l. sort_time (s l)) ids)"

text \<open>The insertion point: after the leases that expire before the new one.\<close>

definition before_point :: "lstore \<Rightarrow> int \<Rightarrow> lid list \<Rightarrow> lid list \<Rightarrow> bool" where
  "before_point s t A B \<longleftrightarrow> (\<forall>a \<in> set A. sort_time (s a) \<le> t) \<and> (\<forall>b \<in> set B. t \<le> sort_time (s b))"

lemma takeWhile_point:
  assumes "sorted (map (\<lambda>l. sort_time (s l)) ids)"
  shows "before_point s t (takeWhile (\<lambda>l. sort_time (s l) < t) ids)
    (dropWhile (\<lambda>l. sort_time (s l) < t) ids)"
  using assms unfolding before_point_def
proof (induction ids)
  case (Cons x xs)
  then show ?case by (cases "sort_time (s x) < t") auto
qed simp

lemma lseg_upd [simp]: "x \<notin> set xs \<Longrightarrow> lseg (s(x := r)) p xs q = lseg s p xs q"
  by (intro lseg_frame) auto

lemma splice_head:
  assumes "next_l (s cl) = None"
  shows "lease_splice lq s cl None = (Some cl, s(cl := (s cl)\<lparr>next_l := lq\<rparr>))"
  using assms by (cases lq) (auto simp: lease_splice_def lease_reference_def intro!: ext lease.equality)

lemma splice_after:
  assumes "next_l (s cl) = None" "p \<noteq> cl"
  shows "lease_splice lq s cl (Some p)
    = (lq, s(cl := (s cl)\<lparr>next_l := next_l (s p)\<rparr>, p := (s p)\<lparr>next_l := Some cl\<rparr>))"
  using assms by (cases "next_l (s p)")
    (auto simp: lease_splice_def lease_reference_def Let_def intro!: ext lease.equality)

lemma splice_spec:
  assumes lst: "lseg s lq (A @ B) None" and dist: "distinct (A @ B)" and cl: "cl \<notin> set (A @ B)"
    and nx: "next_l (s cl) = None"
  shows "\<exists>lq' s'. lease_splice lq s cl (if A = [] then None else Some (last A)) = (lq', s')
      \<and> lseg s' lq' (A @ cl # B) None \<and> same_but_links s s'
      \<and> (\<forall>l. l \<notin> insert cl (set A) \<longrightarrow> s' l = s l)"
proof (cases "A = []")
  case True
  with lst cl nx show ?thesis by (simp add: splice_head same_but_links_def)
next
  case False
  define p where "p = last A"
  define r where "r = next_l (s p)"
  define s1 where "s1 = s(cl := (s cl)\<lparr>next_l := r\<rparr>)"
  define s' where "s' = s1(p := (s p)\<lparr>next_l := Some cl\<rparr>)"
  have pA: "p \<in> set A" using False by (simp add: p_def)
  then have pA: "p \<in> set A" "p \<noteq> cl" "p \<notin> set B" using cl dist by auto
  obtain r' where seg: "lseg s lq A r'" "lseg s r' B None" using lst by (auto simp: lseg_append)
  have "r' = r" using seg(1) False by (metis append_butlast_last_id lseg_last p_def r_def)
  have "lseg s' lq A (Some cl)"
  proof (rule lseg_relast [OF seg(1)])
    show "next_l (s' l) = next_l (s l)" if "l \<in> set A" "l \<noteq> last A" for l
      using that cl by (auto simp: s'_def s1_def p_def)
  qed (use dist False in \<open>simp_all add: s'_def p_def\<close>)
  moreover have "lseg s' r B None"
    using seg(2) \<open>r' = r\<close> cl pA(3) by (simp add: s'_def s1_def)
  ultimately have "lseg s' lq (A @ cl # B) None"
    using pA(2) unfolding lseg_append by (auto simp: s'_def s1_def)
  moreover have "lease_splice lq s cl (Some p) = (lq, s')"
    using splice_after [of s cl p lq] nx pA(2) by (simp add: s'_def s1_def r_def)
  moreover have "same_but_links s s'" "\<forall>l. l \<notin> insert cl (set A) \<longrightarrow> s' l = s l"
    using pA(1,2) by (auto simp: same_but_links_def s'_def s1_def)
  ultimately show ?thesis using False unfolding p_def by auto
qed

lemma sorted_splice:
  assumes "sorted (map f (A @ B))" "\<forall>a \<in> set A. f a \<le> f x" "\<forall>b \<in> set B. f x \<le> f b"
  shows "sorted (map f (A @ x # B))"
  using assms by (auto simp: sorted_append)

lemma same_time: "same_but_links s s' \<Longrightarrow> (\<lambda>l. sort_time (s' l)) = (\<lambda>l. sort_time (s l))"
  by (simp add: same_but_linksD)

lemma list_insert_point:
  assumes lst: "lseg s lq ids None" and srt: "sorted (map (\<lambda>l. sort_time (s l)) ids)"
    and cache: "\<And>pt. qfollow \<Longrightarrow> cache = Some (q, pt) \<Longrightarrow> pt \<in> set ids"
  shows "\<exists>A B. ids = A @ B \<and> before_point s (sort_time (s cl)) A B \<and>
      lease_insert qfollow q cache lq s cl
        = Some (Some (q, cl), lease_splice lq s cl (if A = [] then None else Some (last A)))"
proof -
  let ?t = "sort_time (s cl)" and ?prev = "\<lambda>A. if A = [] then None else Some (last A)"
  show ?thesis
  proof (cases "\<exists>pt. qfollow \<and> cache = Some (q, pt) \<and> cl \<noteq> pt \<and> sort_time (s pt) \<le> ?t")
    case True
    then obtain pt where pt: "qfollow" "cache = Some (q, pt)" "cl \<noteq> pt" "sort_time (s pt) \<le> ?t" by blast
    from cache [OF pt(1,2)] obtain P R where ids: "ids = P @ pt # R" by (meson split_list)
    define A1 where "A1 = takeWhile (\<lambda>l. sort_time (s l) < ?t) R"
    define B where "B = dropWhile (\<lambda>l. sort_time (s l) < ?t) R"
    have seg: "lseg s (next_l (s pt)) R None" using lst unfolding ids by (auto simp: lseg_append)
    have "before_point s ?t A1 B"
      using takeWhile_point [of s R ?t] srt unfolding ids A1_def B_def by (simp add: sorted_append)
    moreover have "\<forall>a \<in> set P. sort_time (s a) \<le> sort_time (s pt)"
      using srt unfolding ids by (auto simp: sorted_append)
    ultimately have "before_point s ?t (P @ pt # A1) B" using pt(4) by (auto simp: before_point_def)
    moreover have "lease_insert qfollow q cache lq s cl
        = Some (Some (q, cl), lease_splice lq s cl (?prev (P @ pt # A1)))"
      using pt insert_scan_spec [OF seg, of ?t "Some pt"]
      by (auto simp: lease_insert_def A1_def Let_def)
    moreover have "ids = (P @ pt # A1) @ B" unfolding ids A1_def B_def by simp
    ultimately show ?thesis by blast
  next
    case False
    then have "lease_insert qfollow q cache lq s cl = Option.bind (lease_insert_scan s ?t None lq)
        (\<lambda>prev. Some (Some (q, cl), lease_splice lq s cl prev))"
      by (auto simp: lease_insert_def Let_def split: option.splits)
    with takeWhile_point [OF srt, of ?t] insert_scan_spec [OF lst, of ?t None] show ?thesis
      by (intro exI [of _ "takeWhile (\<lambda>l. sort_time (s l) < ?t) ids"]
          exI [of _ "dropWhile (\<lambda>l. sort_time (s l) < ?t) ids"]) (simp add: Let_def)
  qed
qed

text \<open>
  \<open>lease_insert\<close> keeps a sorted queue. Starting at the cached insertion point is correct as
  long as that lease is still on the queue.
\<close>

lemma list_insert_spec:
  assumes rep: "list_rep lq s ids" and cl: "cl \<notin> set ids" "next_l (s cl) = None"
    and cache: "\<And>pt. qfollow \<Longrightarrow> cache = Some (q, pt) \<Longrightarrow> pt \<in> set ids"
  shows "\<exists>lq' s' A B. lease_insert qfollow q cache lq s cl = Some (Some (q, cl), lq', s')
    \<and> ids = A @ B \<and> list_rep lq' s' (A @ cl # B) \<and> same_but_links s s'
    \<and> (\<forall>l. l \<notin> insert cl (set ids) \<longrightarrow> s' l = s l)"
proof -
  let ?t = "sort_time (s cl)" and ?prev = "\<lambda>A. if A = [] then None else Some (last A)"
  have lst: "lseg s lq ids None" and dist: "distinct ids"
    and srt: "sorted (map (\<lambda>l. sort_time (s l)) ids)" using rep by (auto simp: list_rep_def)
  obtain A B where AB: "ids = A @ B" "before_point s ?t A B"
    "lease_insert qfollow q cache lq s cl = Some (Some (q, cl), lease_splice lq s cl (?prev A))"
    using list_insert_point [where cl = cl, OF lst srt cache] by blast
  obtain lq' s' where r: "lease_splice lq s cl (?prev A) = (lq', s')" "lseg s' lq' (A @ cl # B) None"
      "same_but_links s s'" "\<forall>l. l \<notin> insert cl (set A) \<longrightarrow> s' l = s l"
    using splice_spec [of s lq A B cl] lst dist cl unfolding AB(1) by blast
  have "sorted (map (\<lambda>l. sort_time (s' l)) (A @ cl # B))"
    using sorted_splice [of "\<lambda>l. sort_time (s l)" A B cl] srt AB(2)
    unfolding same_time [OF r(3)] AB(1) before_point_def by simp
  then have "list_rep lq' s' (A @ cl # B)"
    using r(2) dist cl(1) AB(1) by (simp add: list_rep_def)
  then show ?thesis using AB(1,3) r by auto
qed

text \<open>\<open>lease_remove\<close> takes out the lease it is given, and is fatal for any other lease.\<close>

lemma list_remove_spec:
  assumes rep: "list_rep lq s ids" and cl: "cl \<in> set ids"
  shows "\<exists>lq' s'. lease_remove lq s cl = Some (Ret (lq', s')) \<and> list_rep lq' s' (remove1 cl ids)
    \<and> same_but_links s s' \<and> next_l (s' cl) = None \<and> (\<forall>l. l \<notin> set ids \<longrightarrow> s' l = s l)"
proof -
  obtain A B where ids: "ids = A @ cl # B" "cl \<notin> set A" using cl by (metis split_list_first)
  have dist: "distinct ids" and lst: "lseg s lq ids None"
    and srt: "sorted (map (\<lambda>l. sort_time (s l)) ids)" using rep by (auto simp: list_rep_def)
  have rm: "remove1 cl ids = A @ B" using ids by (simp add: remove1_append)
  have clB: "cl \<notin> set B" using dist ids by simp
  have tw: "takeWhile (\<lambda>l. l \<noteq> cl) ids = A" unfolding ids(1) using ids(2)
    by (subst takeWhile_append2) auto
  have scan: "lease_remove_scan s cl None lq = Some (if A = [] then None else Some (last A), True)"
    using remove_scan_spec [OF lst, of cl None] tw cl by (simp add: Let_def)
  have srt': "sorted (map (\<lambda>l. sort_time (s l)) (A @ B))"
    using srt unfolding ids(1) by (auto simp: sorted_append)
  define r where "r = next_l (s cl)"
  have seg: "lseg s lq A (Some cl)" "lseg s r B None"
    using lst unfolding ids(1) r_def by (auto simp: lseg_append)
  show ?thesis
  proof (cases "A = []")
    case True
    define s' where "s' = s(cl := (s cl)\<lparr>next_l := None\<rparr>)"
    have "lease_remove lq s cl = Some (Ret (r, s'))"
      using scan True by (cases r)
        (auto simp: lease_remove_def r_def s'_def lease_reference_def intro!: ext lease.equality)
    moreover have "same_but_links s s'" by (simp add: same_but_links_def s'_def)
    moreover from this have "list_rep r s' (remove1 cl ids)"
      using srt' seg(2) clB dist True unfolding rm list_rep_def same_time [OF \<open>same_but_links s s'\<close>]
      by (simp add: ids s'_def)
    ultimately show ?thesis using cl by (auto simp: s'_def)
  next
    case False
    define p where "p = last A"
    define s' where "s' = s(p := (s p)\<lparr>next_l := r\<rparr>, cl := (s cl)\<lparr>next_l := None\<rparr>)"
    have pA: "p \<in> set A" using False by (simp add: p_def)
    then have p: "p \<noteq> cl" "p \<notin> set B" "p \<in> set ids" using ids dist by auto
    have "lease_remove lq s cl = Some (Ret (lq, s'))"
      using scan False p(1) by (cases r) (auto simp: lease_remove_def r_def s'_def
          lease_reference_def p_def [symmetric] Let_def intro!: ext lease.equality)
    moreover have sb: "same_but_links s s'" by (simp add: same_but_links_def s'_def)
    moreover have "lseg s' lq A r"
    proof (rule lseg_relast [OF seg(1)])
      show "next_l (s' l) = next_l (s l)" if "l \<in> set A" "l \<noteq> last A" for l
        using that ids(2) by (auto simp: s'_def p_def)
    qed (use dist ids p(1) False in \<open>simp_all add: s'_def p_def\<close>)
    moreover have "lseg s' r B None" using seg(2) clB p(2) by (simp add: s'_def)
    ultimately have "list_rep lq s' (remove1 cl ids)"
      using srt' dist unfolding rm list_rep_def same_time [OF sb] by (auto simp: lseg_append ids)
    then show ?thesis using \<open>lease_remove lq s cl = Some (Ret (lq, s'))\<close> sb cl p
      by (auto simp: s'_def)
  qed
qed

lemma list_remove_missing:
  assumes "list_rep lq s ids" "cl \<notin> set ids"
  shows "lease_remove lq s cl = Some Fatal"
  using assms remove_scan_spec [of s lq ids cl None] by (simp add: list_rep_def lease_remove_def Let_def)

lemma remove_all_loop_spec:
  assumes "lseg s (Some h) ids None" "distinct ids"
  shows "\<exists>s'. lease_remove_all_loop s h = Some s' \<and> (\<forall>l \<in> set ids. next_l (s' l) = None)
    \<and> same_but_links s s' \<and> (\<forall>l. l \<notin> set ids \<longrightarrow> s' l = s l)"
  using assms
proof (induction ids arbitrary: s h)
  case (Cons x xs)
  then have x: "x = h" "x \<notin> set xs" "lseg s (next_l (s h)) xs None" by auto
  show ?case
  proof (cases "next_l (s h)")
    case None
    with x have "xs = []" by (cases xs) auto
    with None x show ?thesis by (simp add: lease_remove_all_loop.simps [of s h] same_but_links_def)
  next
    case (Some ln)
    let ?s = "s(h := (s h)\<lparr>next_l := None\<rparr>)"
    have "lseg ?s (Some ln) xs None" using x Some by simp
    with Cons.IH [of ?s ln] Cons.prems(2) obtain s' where r: "lease_remove_all_loop ?s ln = Some s'"
      "\<forall>l \<in> set xs. next_l (s' l) = None" "same_but_links ?s s'" "\<forall>l. l \<notin> set xs \<longrightarrow> s' l = ?s l"
      by (metis distinct.simps(2))
    have "lease_remove_all_loop s h = Some s'"
      using r(1) Some by (simp add: lease_remove_all_loop.simps [of s h])
    moreover have "same_but_links s s'"
      by (rule same_but_links_trans [OF _ r(3)]) (simp add: same_but_links_def)
    ultimately show ?thesis using r(2,4) x by auto
  qed
qed simp

section \<open>The queue interface\<close>

text \<open>The queues of a pool, in the order \<open>pool_timer\<close> goes through them.\<close>

datatype qname = QFree | QActive | QExpired | QAbandoned | QBackup | QReserved

primrec qindex :: "qname \<Rightarrow> nat" where
  "qindex QFree = 0"
| "qindex QActive = 1"
| "qindex QExpired = 2"
| "qindex QAbandoned = 3"
| "qindex QBackup = 4"
| "qindex QReserved = 5"

text \<open>All of a lease but its links and its tiebreaker.\<close>

definition lease_core :: "lease \<Rightarrow> lease" where
  "lease_core r = (lease_data r)\<lparr>sort_tiebreaker := 0\<rparr>"

definition keeps :: "lstore \<Rightarrow> lstore \<Rightarrow> bool" where
  "keeps s s' \<longleftrightarrow> (\<forall>l. lease_core (s' l) = lease_core (s l))"

lemma keeps_trans [trans]: "keeps s s' \<Longrightarrow> keeps s' s'' \<Longrightarrow> keeps s s''"
  by (simp add: keeps_def)

lemma keeps_same_but_links: "same_but_links s s' \<Longrightarrow> keeps s s'"
  by (simp add: keeps_def same_but_links_def lease_core_def)

lemma keeps_with_tb: "same_but_links (with_tb s l tb) s' \<Longrightarrow> keeps s s'"
  by (simp add: keeps_def same_but_links_def lease_core_def with_tb_def lease_data_def)

text \<open>The fields of a lease that its place on a queue depends on.\<close>

definition same_place :: "lease \<Rightarrow> lease \<Rightarrow> bool" where
  "same_place r r' \<longleftrightarrow> next_l r' = next_l r \<and> prev_l r' = prev_l r \<and> lc_l r' = lc_l r
     \<and> sort_time r' = sort_time r \<and> sort_tiebreaker r' = sort_tiebreaker r"

lemma same_place_refl [simp]: "same_place r r"
  by (simp add: same_place_def)

text \<open>
  A queue holds a sequence of distinct leases in the order of their \<open>sort_time\<close>. Operations
  on one queue touch the leases of that queue only.
\<close>

locale lease_queue =
  fixes rep :: "qname \<Rightarrow> 'q \<Rightarrow> lstore \<Rightarrow> lid list \<Rightarrow> bool"
    and offq :: "lstore \<Rightarrow> lid \<Rightarrow> bool"
    and insertq :: "qname \<Rightarrow> 'q \<Rightarrow> lstore \<Rightarrow> lid \<Rightarrow> ('q \<times> lstore) cres option"
    and removeq :: "qname \<Rightarrow> 'q \<Rightarrow> lstore \<Rightarrow> lid \<Rightarrow> ('q \<times> lstore) cres option"
    and firstq :: "'q \<Rightarrow> lid option cres"
    and nextq :: "lstore \<Rightarrow> lid \<Rightarrow> lid option"
  assumes rep_distinct: "rep n q s ids \<Longrightarrow> distinct ids"
    and rep_sorted: "rep n q s ids \<Longrightarrow> sorted (map (\<lambda>l. sort_time (s l)) ids)"
    and rep_frame: "rep n q s ids \<Longrightarrow> (\<And>l. l \<in> set ids \<Longrightarrow> same_place (s l) (s' l)) \<Longrightarrow> rep n q s' ids"
    and offq_frame: "offq s l \<Longrightarrow> next_l (s' l) = next_l (s l) \<Longrightarrow> prev_l (s' l) = prev_l (s l) \<Longrightarrow> offq s' l"
    and insert_law: "rep n q s ids \<Longrightarrow> l \<notin> set ids \<Longrightarrow> offq s l \<Longrightarrow>
      \<exists>q' s' ids'. insertq n q s l = Some (Ret (q', s')) \<and> rep n q' s' ids'
        \<and> mset ids' = add_mset l (mset ids) \<and> keeps s s'
        \<and> (\<forall>k. k \<notin> insert l (set ids) \<longrightarrow> s' k = s k)"
    and remove_law: "rep n q s ids \<Longrightarrow> l \<in> set ids \<Longrightarrow>
      \<exists>q' s'. removeq n q s l = Some (Ret (q', s')) \<and> rep n q' s' (remove1 l ids) \<and> keeps s s'
        \<and> offq s' l \<and> (\<forall>k. k \<notin> set ids \<longrightarrow> s' k = s k)"
    and first_law: "rep n q s ids \<Longrightarrow> firstq q = Ret (if ids = [] then None else Some (hd ids))"
    and next_law: "rep n q s ids \<Longrightarrow> i < length ids \<Longrightarrow>
      nextq s (ids ! i) = (if Suc i < length ids then Some (ids ! Suc i) else None)"
begin

text \<open>The first lease of a queue is due first.\<close>

lemma first_due:
  assumes "rep n q s ids" "firstq q = Ret (Some l)" "k \<in> set ids"
  shows "l \<in> set ids \<and> sort_time (s l) \<le> sort_time (s k)"
  using assms rep_sorted [OF assms(1)] first_law [OF assms(1)]
  by (cases ids) (auto split: if_splits)

text \<open>Walking a queue from its first lease meets every lease, in order.\<close>

lemma walk_step:
  assumes "rep n q s ids" "ids = A @ l # B"
  shows "nextq s l = (case B of [] \<Rightarrow> None | b # _ \<Rightarrow> Some b)"
  using next_law [OF assms(1), of "length A"] assms(2) by (cases B) (auto simp: nth_append)

end

section \<open>The two implementations\<close>

text \<open>
  \<open>LEASE_INSERTP\<close> and \<open>LEASE_REMOVEP\<close> with \<open>BINARY_LEASES\<close>; \<open>rnd\<close> gives the values of
  \<open>random()\<close>, which are less than \<open>2 ^ 31\<close>, and memory is available.
\<close>

definition chain_insertp ::
  "(lid \<Rightarrow> 31 word) \<Rightarrow> qname \<Rightarrow> leasechain \<Rightarrow> lstore \<Rightarrow> lid \<Rightarrow> (leasechain \<times> lstore) cres option" where
  "chain_insertp rnd n lc s l = Some (lc_add_sorted_lease (qindex n) True (uint (rnd l)) lc s l)"

definition chain_removep ::
  "qname \<Rightarrow> leasechain \<Rightarrow> lstore \<Rightarrow> lid \<Rightarrow> (leasechain \<times> lstore) cres option" where
  "chain_removep n lc s l = Some (lc_unlink_lease lc s l)"

text \<open>The same macros without \<open>BINARY_LEASES\<close>, after the server has started.\<close>

definition list_insertp ::
  "(nat \<times> lid) option \<Rightarrow> qname \<Rightarrow> lid option \<Rightarrow> lstore \<Rightarrow> lid \<Rightarrow> (lid option \<times> lstore) cres option" where
  "list_insertp cache n lq s l =
     map_option (\<lambda>(_, lq, s). Ret (lq, s)) (lease_insert False (qindex n) cache lq s l)"

definition list_removep ::
  "qname \<Rightarrow> lid option \<Rightarrow> lstore \<Rightarrow> lid \<Rightarrow> (lid option \<times> lstore) cres option" where
  "list_removep n lq s l = lease_remove lq s l"

definition list_offq :: "lstore \<Rightarrow> lid \<Rightarrow> bool" where
  "list_offq s l \<longleftrightarrow> next_l (s l) = None"

lemma mset_insert_at: "mset (insert_at p x xs) = add_mset x (mset xs)"
  unfolding insert_at_def by (metis append_take_drop_id mset_append mset.simps(2) union_mset_add_mset_right)

lemma chain_rep_frame:
  assumes "chain_rep lcid lc s ids" "\<And>l. l \<in> set ids \<Longrightarrow> same_place (s l) (s' l)"
  shows "chain_rep lcid lc s' ids"
proof -
  have "key_sorted s' ids = key_sorted s ids"
    unfolding key_sorted_def sorted_wrt_iff_nth_less using assms(2)
    by (auto simp: key_gt_def same_place_def)
  with assms show ?thesis unfolding chain_rep_def linked_def by (auto simp: same_place_def)
qed

lemma chain_rep_time_sorted:
  assumes "chain_rep lcid lc s ids"
  shows "sorted (map (\<lambda>l. sort_time (s l)) ids)"
proof -
  have "sorted_wrt (\<lambda>a b. sort_time (s a) \<le> sort_time (s b)) ids"
    using assms unfolding chain_rep_def key_sorted_def
    by (auto elim!: sorted_wrt_mono_rel [rotated] simp: key_gt_def)
  then show ?thesis by (simp add: sorted_wrt_map)
qed

lemma chain_first:
  "chain_rep lcid lc s ids \<Longrightarrow> lc_get_first_lease lc = Ret (if ids = [] then None else Some (hd ids))"
  using array_rep_rd [of lc ids 0]
  by (auto simp: chain_rep_def array_rep_def lc_get_first_lease_def hd_conv_nth)

lemma chain_insert_law:
  assumes "chain_rep (qindex n) lc s ids" "l \<notin> set ids" "unlinked s l"
  shows "\<exists>lc' s' ids'. chain_insertp rnd n lc s l = Some (Ret (lc', s')) \<and> chain_rep (qindex n) lc' s' ids'
        \<and> mset ids' = add_mset l (mset ids) \<and> keeps s s'
        \<and> (\<forall>k. k \<notin> insert l (set ids) \<longrightarrow> s' k = s k)"
proof -
  have "uint (rnd l) \<le> LONG_MAX"
    using uint_lt2p [of "rnd l"] by (simp add: LONG_MAX_def)
  from add_sorted_spec [OF assms disjI2 [OF TrueI] this] show ?thesis
    unfolding chain_insertp_def using mset_insert_at keeps_with_tb by metis
qed

lemma chain_remove_law:
  assumes "chain_rep (qindex n) lc s ids" "l \<in> set ids"
  shows "\<exists>lc' s'. chain_removep n lc s l = Some (Ret (lc', s')) \<and> chain_rep (qindex n) lc' s' (remove1 l ids)
      \<and> keeps s s' \<and> unlinked s' l \<and> (\<forall>k. k \<notin> set ids \<longrightarrow> s' k = s k)"
  using unlink_lease_spec [OF assms] keeps_same_but_links unfolding chain_removep_def by metis

lemma chain_rep_distinct: "chain_rep lcid lc s ids \<Longrightarrow> distinct ids"
  by (simp add: chain_rep_def)

lemma chain_next:
  "chain_rep lcid lc s ids \<Longrightarrow> i < length ids \<Longrightarrow>
     lc_get_next s (ids ! i) = (if Suc i < length ids then Some (ids ! Suc i) else None)"
  by (simp add: chain_rep_def linked_def lc_get_next_def)

lemma unlinked_frame:
  "unlinked s l \<Longrightarrow> next_l (s' l) = next_l (s l) \<Longrightarrow> prev_l (s' l) = prev_l (s l) \<Longrightarrow> unlinked s' l"
  by (simp add: unlinked_def)

interpretation chainq: lease_queue "\<lambda>n. chain_rep (qindex n)" unlinked "chain_insertp rnd"
  chain_removep lc_get_first_lease lc_get_next
  by unfold_locales (rule chain_rep_distinct chain_rep_time_sorted chain_rep_frame unlinked_frame
    chain_insert_law chain_remove_law chain_first chain_next; assumption)+

lemma list_insert_law:
  assumes "list_rep lq s ids" "l \<notin> set ids" "list_offq s l"
  shows "\<exists>lq' s' ids'. list_insertp cache n lq s l = Some (Ret (lq', s')) \<and> list_rep lq' s' ids'
        \<and> mset ids' = add_mset l (mset ids) \<and> keeps s s'
        \<and> (\<forall>k. k \<notin> insert l (set ids) \<longrightarrow> s' k = s k)"
proof -
  from list_insert_spec [OF assms(1,2), of False cache "qindex n"] assms(3)
  obtain lq' s' A B where "lease_insert False (qindex n) cache lq s l = Some (Some (qindex n, l), lq', s')"
    "ids = A @ B" "list_rep lq' s' (A @ l # B)" "same_but_links s s'"
    "\<forall>k. k \<notin> insert l (set ids) \<longrightarrow> s' k = s k" unfolding list_offq_def by blast
  then show ?thesis
    unfolding list_insertp_def by (intro exI [of _ lq'] exI [of _ s'] exI [of _ "A @ l # B"])
      (simp add: keeps_same_but_links)
qed

lemma list_rep_frame:
  assumes "list_rep lq s ids" "\<And>l. l \<in> set ids \<Longrightarrow> same_place (s l) (s' l)"
  shows "list_rep lq s' ids"
proof -
  have "map (\<lambda>l. sort_time (s' l)) ids = map (\<lambda>l. sort_time (s l)) ids"
    using assms(2) by (simp add: same_place_def)
  moreover have "lseg s' lq ids None = lseg s lq ids None"
    using assms(2) by (intro lseg_frame) (simp add: same_place_def)
  ultimately show ?thesis using assms(1) unfolding list_rep_def by metis
qed

lemma list_first: "list_rep lq s ids \<Longrightarrow> lq = (if ids = [] then None else Some (hd ids))"
  by (cases ids) (auto simp: list_rep_def)

lemma list_remove_law:
  assumes "list_rep lq s ids" "l \<in> set ids"
  shows "\<exists>lq' s'. list_removep n lq s l = Some (Ret (lq', s')) \<and> list_rep lq' s' (remove1 l ids)
      \<and> keeps s s' \<and> list_offq s' l \<and> (\<forall>k. k \<notin> set ids \<longrightarrow> s' k = s k)"
  using list_remove_spec [OF assms] keeps_same_but_links
  unfolding list_removep_def list_offq_def by metis

lemma list_next:
  "list_rep lq s ids \<Longrightarrow> i < length ids \<Longrightarrow>
     lc_get_next s (ids ! i) = (if Suc i < length ids then Some (ids ! Suc i) else None)"
  unfolding list_rep_def lc_get_next_def by (auto dest: lseg_next)

lemma list_rep_distinct: "list_rep lq s ids \<Longrightarrow> distinct ids"
  and list_rep_time_sorted: "list_rep lq s ids \<Longrightarrow> sorted (map (\<lambda>l. sort_time (s l)) ids)"
  by (simp_all add: list_rep_def)

lemma list_offq_frame:
  "list_offq s l \<Longrightarrow> next_l (s' l) = next_l (s l) \<Longrightarrow> prev_l (s' l) = prev_l (s l) \<Longrightarrow> list_offq s' l"
  by (simp add: list_offq_def)

lemma list_first_Ret: "list_rep lq s ids \<Longrightarrow> Ret lq = Ret (if ids = [] then None else Some (hd ids))"
  by (simp add: list_first)

interpretation listq: lease_queue "\<lambda>n. list_rep" list_offq "list_insertp cache" list_removep
  Ret lc_get_next
  by unfold_locales (rule list_rep_distinct list_rep_time_sorted list_rep_frame list_offq_frame
    list_insert_law list_remove_law list_first_Ret list_next; assumption)+

section \<open>Properties\<close>

text \<open>C12: \<open>lease_insert\<close> returns on every finite queue and keeps it sorted by \<open>sort_time\<close>: the new
  queue is the old one with the lease spliced in at one point. This includes the shortcut
  taken while the server starts, which begins at the lease inserted last, provided that lease
  is still on the queue.\<close>

theorem lease_insert_keeps_sorted:
  assumes "list_rep lq s ids" "cl \<notin> set ids" "next_l (s cl) = None"
    and "\<forall>pt. qfollow \<and> cache = Some (q, pt) \<longrightarrow> pt \<in> set ids"
  shows "\<exists>lq' s' A B. lease_insert qfollow q cache lq s cl = Some (Some (q, cl), lq', s')
    \<and> ids = A @ B \<and> list_rep lq' s' (A @ cl # B) \<and> (\<forall>l. l \<notin> insert cl (set ids) \<longrightarrow> s' l = s l)"
  using list_insert_spec [OF assms(1-3), of qfollow cache q] assms(4) by blast

theorem lease_insert_keeps_sorted_witness:
  "\<exists>lq' s' A B. lease_insert True 3 (Some (3, 0)) (Some 0)
        (\<lambda>l. if l = 0 then lease_due 4 None else lease_due 9 None) 1 = Some (Some (3, 1), lq', s')
    \<and> [0] = A @ B \<and> list_rep lq' s' (A @ 1 # B)
    \<and> (\<forall>l. l \<notin> insert 1 (set [0]) \<longrightarrow> s' l = (if l = 0 then lease_due 4 None else lease_due 9 None))"
  by (rule lease_insert_keeps_sorted) (simp_all add: list_rep_def lease_due_def)

text \<open>C17: \<open>lease_remove\<close> takes exactly the given lease out of a sorted queue, and is fatal when the
  lease is not on it.\<close>

theorem lease_remove_takes_out:
  assumes "list_rep lq s ids"
  shows "if cl \<in> set ids
    then \<exists>lq' s'. lease_remove lq s cl = Some (Ret (lq', s')) \<and> list_rep lq' s' (remove1 cl ids)
           \<and> next_l (s' cl) = None \<and> (\<forall>l. l \<notin> set ids \<longrightarrow> s' l = s l)
    else lease_remove lq s cl = Some Fatal"
  using list_remove_spec [OF assms, of cl] list_remove_missing [OF assms, of cl] by auto

theorem lease_remove_takes_out_witness:
  "if (0 :: lid) \<in> set [0]
    then \<exists>lq' s'. lease_remove (Some 0) (\<lambda>l. lease_due 4 None) 0 = Some (Ret (lq', s'))
           \<and> list_rep lq' s' (remove1 0 [0])
           \<and> next_l (s' 0) = None \<and> (\<forall>l. l \<notin> set [0] \<longrightarrow> s' l = lease_due 4 None)
    else lease_remove (Some 0) (\<lambda>l. lease_due 4 None) 0 = Some Fatal"
  by (rule lease_remove_takes_out) (simp add: list_rep_def lease_due_def)

end
