(* ===== verification/Lease_Pool.thy ===== *)
theory Lease_Pool
  imports Lease_Queue
begin

text \<open>
  The pools of \<open>server/mdb.c\<close>: which queue a lease is on (\<open>lease_enqueue\<close> and the first part of
  \<open>supersede_lease\<close>), and the state transition of a lease
  (\<open>make_binding_state_transition\<close>), for a server built with failover. The operations are
  written over the queue interface, so that what is proved here holds for both queue
  implementations. Calls that act outside the lease and its pool (dynamic DNS, statements of
  the configuration, class billing) are recorded as events, in the order of the calls.
\<close>

section \<open>States\<close>

abbreviation RESERVED_LEASE :: byte where "RESERVED_LEASE \<equiv> 4"

datatype failover_state = unknown_state | startup | normal | communications_interrupted
  | partner_down | potential_conflict | recover | paused | shut_down | recover_done
  | resolution_interrupted | conflict_done | recover_wait

record failover_peer =
  me_state :: failover_state
  me_stos :: int
  mclt :: int

datatype lease_event = Ddns_removals | Execute_statements nat | Unbill_class nat

record 'q pool =
  queue :: "qname \<Rightarrow> 'q"
  free_leases :: int
  backup_leases :: int

section \<open>Queueing\<close>

text \<open>The queue for a binding state; \<open>None\<close> for a bogus one.\<close>

definition queue_of :: "lease \<Rightarrow> qname option" where
  "queue_of r =
     (let reserved = flags_l r AND RESERVED_LEASE \<noteq> 0; b = binding_state r in
      if b = FTS_FREE then Some (if reserved then QReserved else QFree)
      else if b = FTS_ACTIVE then Some QActive
      else if b = FTS_EXPIRED \<or> b = FTS_RELEASED \<or> b = FTS_RESET then Some QExpired
      else if b = FTS_ABANDONED then Some QAbandoned
      else if b = FTS_BACKUP then Some (if reserved then QReserved else QBackup)
      else None)"

text \<open>The counters \<open>free_leases\<close> and \<open>backup_leases\<close> go with the queues of these names.\<close>

definition count_lease :: "int \<Rightarrow> qname \<Rightarrow> 'q pool \<Rightarrow> 'q pool" where
  "count_lease d q p = (case q of
     QFree \<Rightarrow> p\<lparr>free_leases := free_leases p + d\<rparr>
   | QBackup \<Rightarrow> p\<lparr>backup_leases := backup_leases p + d\<rparr>
   | _ \<Rightarrow> p)"

definition set_queue :: "qname \<Rightarrow> 'q \<Rightarrow> 'q pool \<Rightarrow> 'q pool" where
  "set_queue q x p = p\<lparr>queue := (queue p)(q := x)\<rparr>"

definition enqueue_time :: "failover_peer option \<Rightarrow> qname \<Rightarrow> lease \<Rightarrow> int" where
  "enqueue_time peer q r =
     (case peer of
        Some fp \<Rightarrow> if q = QExpired \<and> me_state fp = partner_down
                   then (if tsfp_l r > ends_l r then tsfp_l r else ends_l r)
                   else ends_l r
      | None \<Rightarrow> ends_l r)"

type_synonym 'q queue_op = "qname \<Rightarrow> 'q \<Rightarrow> lstore \<Rightarrow> lid \<Rightarrow> ('q \<times> lstore) cres option"

text \<open>The boolean is the result of the C function; \<open>peer\<close> is \<open>comp->pool->failover_peer\<close>.\<close>

definition lease_enqueue ::
  "'q queue_op \<Rightarrow> failover_peer option \<Rightarrow> 'q pool \<Rightarrow> lstore \<Rightarrow> lid
    \<Rightarrow> (bool \<times> 'q pool \<times> lstore) cres option" where
  "lease_enqueue insertq peer p s l =
     (if pool_l (s l) = None then Some (Ret (False, p, s))
      else case queue_of (s l) of
        None \<Rightarrow> Some (Ret (False, p, s))
      | Some q \<Rightarrow>
          let p = count_lease 1 q p;
              s = s(l := (s l)\<lparr>sort_time := enqueue_time peer q (s l)\<rparr>)
          in map_option (\<lambda>r. bindC r (\<lambda>(x, s). Ret (True, set_queue q x p, s)))
               (insertq q (queue p q) s l))"

section \<open>The state transition\<close>

definition lease_expires :: "failover_peer option \<Rightarrow> lease \<Rightarrow> bool" where
  "lease_expires peer r \<longleftrightarrow> next_binding_state r \<noteq> binding_state r \<and>
     ((peer \<noteq> None \<and> (binding_state r = FTS_EXPIRED \<or> binding_state r = FTS_ACTIVE)
        \<and> (next_binding_state r = FTS_FREE \<or> next_binding_state r = FTS_BACKUP))
      \<or> (peer = None \<and> binding_state r = FTS_ACTIVE \<and> next_binding_state r \<noteq> FTS_RELEASED))"

definition lease_releases :: "failover_peer option \<Rightarrow> lease \<Rightarrow> bool" where
  "lease_releases peer r \<longleftrightarrow> next_binding_state r \<noteq> binding_state r \<and>
     ((peer \<noteq> None \<and> binding_state r = FTS_RELEASED
        \<and> (next_binding_state r = FTS_FREE \<or> next_binding_state r = FTS_BACKUP))
      \<or> (peer = None \<and> binding_state r = FTS_ACTIVE \<and> next_binding_state r = FTS_RELEASED))"

text \<open>Dropping the client-specific bindings, and the time that is sent to the peer.\<close>

definition drop_bindings :: "lease \<Rightarrow> lease \<times> lease_event list" where
  "drop_bindings r =
     (r\<lparr>billing_class := None, agent_options := None, client_hostname := None, host_l := None,
        tstp_l := ends_l r\<rparr>,
      case billing_class r of None \<Rightarrow> [] | Some c \<Rightarrow> [Unbill_class c])"

definition run_statements :: "nat option \<Rightarrow> lease_event list" where
  "run_statements st = (case st of None \<Rightarrow> [] | Some x \<Rightarrow> [Execute_statements x])"

text \<open>The expiry event and the release event of a lease.\<close>

definition expiry_event :: "failover_peer option \<Rightarrow> lease \<Rightarrow> lease \<times> lease_event list" where
  "expiry_event peer r =
     (if lease_expires peer r then
        let (r', ev) = drop_bindings (r\<lparr>on_expiry := None, on_release := None\<rparr>)
        in (r', Ddns_removals # run_statements (on_expiry r) @ ev)
      else (r, []))"

definition release_event :: "failover_peer option \<Rightarrow> lease \<Rightarrow> lease \<times> lease_event list" where
  "release_event peer r =
     (if lease_releases peer r then
        let (r', ev) = drop_bindings (r\<lparr>on_release := None, on_expiry := None\<rparr>)
        in (r', Ddns_removals # run_statements (on_release r) @ ev)
      else (r, []))"

text \<open>The switch at the end: the new state and the pending one.\<close>

definition enter_state :: "failover_peer option \<Rightarrow> lease \<Rightarrow> lease" where
  "enter_state peer r =
     (let r = r\<lparr>binding_state := next_binding_state r\<rparr>; b = binding_state r in
      if b = FTS_ACTIVE then
        r\<lparr>next_binding_state := (if peer \<noteq> None then FTS_EXPIRED else FTS_FREE)\<rparr>
      else if b = FTS_EXPIRED \<or> b = FTS_RELEASED \<or> b = FTS_ABANDONED \<or> b = FTS_RESET then
        let r = r\<lparr>next_binding_state := FTS_FREE\<rparr>
        in (case peer of
              Some fp \<Rightarrow> if me_state fp = partner_down
                         then r\<lparr>tsfp_l := me_stos fp + mclt fp\<rparr> else r
            | None \<Rightarrow> r)
      else if b = FTS_FREE \<or> b = FTS_BACKUP then r\<lparr>next_binding_state := b\<rparr>
      else r)"

definition make_binding_state_transition ::
  "failover_peer option \<Rightarrow> lease \<Rightarrow> lease \<times> lease_event list" where
  "make_binding_state_transition fp r =
     (let peer = (if pool_l r = None then None else fp);
          (r, ev1) = expiry_event peer r;
          (r, ev2) = release_event peer r
      in (enter_state peer r, ev1 @ ev2))"

section \<open>Moving a lease\<close>

text \<open>
  \<open>supersede_lease\<close> called without a sample lease, up to the point where the lease is back on a
  queue: the lease leaves the queue of its old state, makes its transition and joins the queue
  of its new state. The last component of the result is \<open>do_pool_check\<close>.
\<close>

definition supersede_move ::
  "'q queue_op \<Rightarrow> 'q queue_op \<Rightarrow> failover_peer option \<Rightarrow> bool \<Rightarrow> bool \<Rightarrow> bool \<Rightarrow> 'q pool \<Rightarrow> lstore \<Rightarrow> lid
    \<Rightarrow> (bool \<times> 'q pool \<times> lstore \<times> lease_event list \<times> bool) cres option" where
  "supersede_move insertq removeq peer commit propogate pimmediate p s l =
     (if pimmediate \<and> \<not> commit then Some (Ret (False, p, s, [], False))
      else
        let s = (if propogate then s(l := (s l)\<lparr>atsfp_l := 0\<rparr>) else s) in
        if pool_l (s l) = None then Some (Ret (False, p, s, [], False))
        else case queue_of (s l) of
          None \<Rightarrow> Some (Ret (False, p, s, [], False))
        | Some q \<Rightarrow>
            let check = (binding_state (s l) = FTS_FREE \<or> binding_state (s l) = FTS_BACKUP);
                p = count_lease (- 1) q p
            in Option.bind (removeq q (queue p q) s l) (\<lambda>r. case r of
                 Fatal \<Rightarrow> Some Fatal
               | Undef \<Rightarrow> Some Undef
               | Ret (x, s) \<Rightarrow>
                   let p = set_queue q x p;
                       (r', ev) = (if commit \<or> \<not> pimmediate
                                   then make_binding_state_transition peer (s l) else (s l, []));
                       s = s(l := r')
                   in map_option (\<lambda>r. bindC r (\<lambda>(ok, p, s). Ret (ok, p, s, ev, check)))
                        (lease_enqueue insertq peer p s l)))"

section \<open>The invariant of a pool\<close>

text \<open>
  Every lease of the pool is on the queue of its binding state and on no other, every queue is
  well formed, and the counters count the free and the backup leases.
\<close>

definition pool_inv ::
  "(qname \<Rightarrow> 'q \<Rightarrow> lstore \<Rightarrow> lid list \<Rightarrow> bool) \<Rightarrow> nat \<Rightarrow> 'q pool \<Rightarrow> lstore \<Rightarrow> (qname \<Rightarrow> lid list) \<Rightarrow> bool" where
  "pool_inv rep pid p s ids \<longleftrightarrow> (\<forall>q. rep q (queue p q) s (ids q))
     \<and> (\<forall>q. \<forall>l \<in> set (ids q). queue_of (s l) = Some q \<and> pool_l (s l) = Some pid)
     \<and> free_leases p = int (length (ids QFree)) \<and> backup_leases p = int (length (ids QBackup))"

lemma keepsD:
  assumes "keeps s s'"
  shows "binding_state (s' l) = binding_state (s l)" "flags_l (s' l) = flags_l (s l)"
    "pool_l (s' l) = pool_l (s l)" "sort_time (s' l) = sort_time (s l)"
    "next_binding_state (s' l) = next_binding_state (s l)" "ends_l (s' l) = ends_l (s l)"
proof -
  have c: "lease_core (s' l) = lease_core (s l)" using assms by (simp add: keeps_def)
  show "binding_state (s' l) = binding_state (s l)" "flags_l (s' l) = flags_l (s l)"
    "pool_l (s' l) = pool_l (s l)" "sort_time (s' l) = sort_time (s l)"
    "next_binding_state (s' l) = next_binding_state (s l)" "ends_l (s' l) = ends_l (s l)"
    using arg_cong [OF c, of binding_state] arg_cong [OF c, of flags_l] arg_cong [OF c, of pool_l]
      arg_cong [OF c, of sort_time] arg_cong [OF c, of next_binding_state] arg_cong [OF c, of ends_l]
    by (simp_all add: lease_core_def lease_data_def)
qed

lemma queue_of_cong:
  "binding_state r = binding_state r' \<Longrightarrow> flags_l r = flags_l r' \<Longrightarrow> queue_of r = queue_of r'"
  by (simp add: queue_of_def)

lemma keeps_queue_of: "keeps s s' \<Longrightarrow> queue_of (s' l) = queue_of (s l)"
  by (rule queue_of_cong) (simp_all add: keepsD)

lemma count_lease_queue [simp]: "queue (count_lease d q p) = queue p"
  by (cases q) (auto simp: count_lease_def)

lemma set_queue_simps [simp]:
  "queue (set_queue q x p) = (queue p)(q := x)" "free_leases (set_queue q x p) = free_leases p"
  "backup_leases (set_queue q x p) = backup_leases p"
  by (simp_all add: set_queue_def)

lemma count_lease_counts:
  "free_leases (count_lease d q p) = free_leases p + (if q = QFree then d else 0)"
  "backup_leases (count_lease d q p) = backup_leases p + (if q = QBackup then d else 0)"
  by (cases q; simp add: count_lease_def)+

lemma UN_insert_at: "(\<Union>y. if y = a then insert l (F y) else F y) = insert l (\<Union>y. F y)"
  by auto

text \<open>What the transition does to the state and what it leaves alone.\<close>

lemma drop_bindings_fst: "fst (drop_bindings r) = r\<lparr>billing_class := None, agent_options := None,
    client_hostname := None, host_l := None, tstp_l := ends_l r\<rparr>"
  by (simp add: drop_bindings_def)

lemma event_simps [simp]:
  "binding_state (fst (expiry_event p r)) = binding_state r" "binding_state (fst (release_event p r)) = binding_state r"
  "next_binding_state (fst (expiry_event p r)) = next_binding_state r"
  "next_binding_state (fst (release_event p r)) = next_binding_state r"
  "flags_l (fst (expiry_event p r)) = flags_l r" "flags_l (fst (release_event p r)) = flags_l r"
  "pool_l (fst (expiry_event p r)) = pool_l r" "pool_l (fst (release_event p r)) = pool_l r"
  "next_l (fst (expiry_event p r)) = next_l r" "next_l (fst (release_event p r)) = next_l r"
  "prev_l (fst (expiry_event p r)) = prev_l r" "prev_l (fst (release_event p r)) = prev_l r"
  by (simp_all add: expiry_event_def release_event_def split_beta drop_bindings_fst)

lemma enter_state_simps [simp]:
  "binding_state (enter_state p r) = next_binding_state r" "flags_l (enter_state p r) = flags_l r"
  "pool_l (enter_state p r) = pool_l r" "next_l (enter_state p r) = next_l r"
  "prev_l (enter_state p r) = prev_l r" "client_hostname (enter_state p r) = client_hostname r"
  "host_l (enter_state p r) = host_l r" "agent_options (enter_state p r) = agent_options r"
  "billing_class (enter_state p r) = billing_class r" "on_expiry (enter_state p r) = on_expiry r"
  "on_release (enter_state p r) = on_release r"
  by (simp_all add: enter_state_def Let_def split: option.split)

lemma transition_fst:
  "fst (make_binding_state_transition fp r) =
     (let peer = (if pool_l r = None then None else fp)
      in enter_state peer (fst (release_event peer (fst (expiry_event peer r)))))"
  by (simp add: make_binding_state_transition_def split_beta Let_def)

lemma transition_simps:
  "binding_state (fst (make_binding_state_transition fp r)) = next_binding_state r"
  "flags_l (fst (make_binding_state_transition fp r)) = flags_l r"
  "pool_l (fst (make_binding_state_transition fp r)) = pool_l r"
  "next_l (fst (make_binding_state_transition fp r)) = next_l r"
  "prev_l (fst (make_binding_state_transition fp r)) = prev_l r"
  by (simp_all add: transition_fst Let_def)

text \<open>Without a peer, an active lease that leaves its state goes through one of the two events.\<close>

lemma events_drop_bindings:
  assumes "binding_state r = FTS_ACTIVE" "next_binding_state r \<noteq> FTS_ACTIVE"
  defines "r' \<equiv> fst (release_event None (fst (expiry_event None r)))"
  shows "client_hostname r' = None" "host_l r' = None" "agent_options r' = None"
    "billing_class r' = None" "on_expiry r' = None" "on_release r' = None"
  using assms(1,2) unfolding r'_def
  by (cases "next_binding_state r = FTS_RELEASED";
      simp add: expiry_event_def release_event_def lease_expires_def lease_releases_def split_beta
        drop_bindings_fst)+

context lease_queue
begin

lemma pool_inv_disjoint:
  "pool_inv rep pid p s ids \<Longrightarrow> l \<in> set (ids q) \<Longrightarrow> l \<in> set (ids q') \<Longrightarrow> q = q'"
  unfolding pool_inv_def by (metis option.inject)

text \<open>A change that leaves every lease of the pool on its queue.\<close>

lemma pool_inv_frame:
  assumes inv: "pool_inv rep pid p s ids"
    and same: "\<And>q l. l \<in> set (ids q) \<Longrightarrow> same_place (s l) (s' l) \<and> queue_of (s' l) = queue_of (s l)
      \<and> pool_l (s' l) = pool_l (s l)"
  shows "pool_inv rep pid p s' ids"
proof -
  have "rep q (queue p q) s' (ids q)" for q
    using inv same rep_frame [of q "queue p q" s "ids q" s'] by (simp add: pool_inv_def)
  with inv same show ?thesis unfolding pool_inv_def by metis
qed

lemma enqueue_inv:
  assumes inv: "pool_inv rep pid p s ids" and new: "\<And>q. l \<notin> set (ids q)" "offq s l"
    and pl: "pool_l (s l) = Some pid" and q: "queue_of (s l) = Some q"
  shows "\<exists>p' s' ids'. lease_enqueue insertq peer p s l = Some (Ret (True, p', s'))
    \<and> pool_inv rep pid p' s' ids' \<and> mset (ids' q) = add_mset l (mset (ids q))
    \<and> (\<forall>q'. q' \<noteq> q \<longrightarrow> ids' q' = ids q') \<and> sort_time (s' l) = enqueue_time peer q (s l)
    \<and> binding_state (s' l) = binding_state (s l)"
proof -
  define s1 where "s1 = s(l := (s l)\<lparr>sort_time := enqueue_time peer q (s l)\<rparr>)"
  have s1: "queue_of (s1 l) = Some q" "pool_l (s1 l) = Some pid" "offq s1 l"
    using q pl new(2) queue_of_cong [of "s l" "s1 l"] offq_frame [of s l s1] by (simp_all add: s1_def)
  have inv1: "pool_inv rep pid p s1 ids"
    by (rule pool_inv_frame [OF inv]) (use new(1) in \<open>auto simp: s1_def\<close>)
  then obtain x s' idq where r: "insertq q (queue p q) s1 l = Some (Ret (x, s'))" "rep q x s' idq"
      "mset idq = add_mset l (mset (ids q))" "keeps s1 s'"
      "\<forall>k. k \<notin> insert l (set (ids q)) \<longrightarrow> s' k = s1 k"
    using insert_law [OF _ new(1) s1(3)] unfolding pool_inv_def by metis
  define p' where "p' = set_queue q x (count_lease 1 q p)"
  have run: "lease_enqueue insertq peer p s l = Some (Ret (True, p', s'))"
    using q pl r(1) by (simp add: lease_enqueue_def s1_def [symmetric] p'_def)
  have "rep q' (queue p' q') s' ((ids(q := idq)) q')" for q'
  proof (cases "q' = q")
    case False
    have "s' k = s1 k" if k: "k \<in> set (ids q')" for k
    proof -
      have "k \<notin> set (ids q)" "k \<noteq> l" using pool_inv_disjoint [OF inv1 k, of q] False k new(1) by auto
      then show ?thesis using r(5) by simp
    qed
    with inv1 False show ?thesis
      using rep_frame [of q' "queue p q'" s1 "ids q'" s'] by (simp add: pool_inv_def p'_def)
  qed (use r(2) in \<open>simp add: p'_def\<close>)
  moreover have "set idq = insert l (set (ids q))" "length idq = Suc (length (ids q))"
    using arg_cong [OF r(3), of set_mset] arg_cong [OF r(3), of size] by simp_all
  ultimately have "pool_inv rep pid p' s' (ids(q := idq))"
    using inv1 s1 keepsD [OF r(4)] keeps_queue_of [OF r(4)]
    by (auto simp: pool_inv_def p'_def count_lease_counts)
  moreover have "sort_time (s' l) = enqueue_time peer q (s l)" "binding_state (s' l) = binding_state (s l)"
    using keepsD [OF r(4), of l] by (simp_all add: s1_def)
  ultimately show ?thesis using run r(3) by (intro exI [of _ p'] exI [of _ s'] exI) auto
qed

lemma dequeue_inv:
  assumes inv: "pool_inv rep pid p s ids" and l: "l \<in> set (ids q)"
  shows "\<exists>x s'. removeq q (queue p q) s l = Some (Ret (x, s'))
    \<and> pool_inv rep pid (set_queue q x (count_lease (- 1) q p)) s' (ids(q := remove1 l (ids q)))
    \<and> keeps s s' \<and> offq s' l \<and> (\<forall>q'. l \<notin> set ((ids(q := remove1 l (ids q))) q'))"
proof -
  obtain x s' where r: "removeq q (queue p q) s l = Some (Ret (x, s'))" "rep q x s' (remove1 l (ids q))"
      "keeps s s'" "offq s' l" "\<forall>k. k \<notin> set (ids q) \<longrightarrow> s' k = s k"
    using remove_law [of q "queue p q" s "ids q" l] inv l unfolding pool_inv_def by blast
  let ?p = "set_queue q x (count_lease (- 1) q p)" and ?ids = "ids(q := remove1 l (ids q))"
  have "rep q' (queue ?p q') s' (?ids q')" for q'
  proof (cases "q' = q")
    case False
    have "s' k = s k" if "k \<in> set (ids q')" for k
      using r(5) that False pool_inv_disjoint [OF inv that, of q] by auto
    with inv False show ?thesis
      using rep_frame [of q' "queue p q'" s "ids q'" s'] by (simp add: pool_inv_def)
  qed (use r(2) in simp)
  moreover have dist: "distinct (ids q)" using inv rep_distinct unfolding pool_inv_def by blast
  moreover have "length (ids q) = Suc (length (remove1 l (ids q)))"
    using l length_pos_if_in_set [OF l] by (metis Suc_diff_1 length_remove1)
  ultimately have "pool_inv rep pid ?p s' ?ids"
    using inv keepsD [OF r(3)] keeps_queue_of [OF r(3)]
    by (auto simp: pool_inv_def count_lease_counts)
  moreover have "l \<notin> set (?ids q')" for q'
    using dist pool_inv_disjoint [OF inv l, of q'] by auto
  ultimately show ?thesis using r by blast
qed

lemma supersede_inv:
  assumes inv: "pool_inv rep pid p s ids" and l: "l \<in> set (ids q)"
    and go: "commit \<or> \<not> pimmediate"
    and q': "queue_of ((s l)\<lparr>binding_state := next_binding_state (s l)\<rparr>) = Some q'"
  shows "\<exists>p' s' ev check ids'.
      supersede_move insertq removeq peer commit propogate pimmediate p s l
        = Some (Ret (True, p', s', ev, check))
    \<and> pool_inv rep pid p' s' ids' \<and> binding_state (s' l) = next_binding_state (s l)
    \<and> l \<in> set (ids' q') \<and> (\<Union>x. set (ids' x)) = (\<Union>x. set (ids x))"
proof -
  define s0 where "s0 = (if propogate then s(l := (s l)\<lparr>atsfp_l := 0\<rparr>) else s)"
  have own: "queue_of (s l) = Some q" "pool_l (s l) = Some pid" using inv l by (auto simp: pool_inv_def)
  have s0: "same_place (s k) (s0 k)" "queue_of (s0 k) = queue_of (s k)" "pool_l (s0 k) = pool_l (s k)"
      "next_binding_state (s0 k) = next_binding_state (s k)" "flags_l (s0 k) = flags_l (s k)"
      "binding_state (s0 k) = binding_state (s k)" for k
    by (auto simp: s0_def same_place_def intro!: queue_of_cong)
  have inv0: "pool_inv rep pid p s0 ids" by (rule pool_inv_frame [OF inv]) (simp add: s0)
  let ?ids = "ids(q := remove1 l (ids q))"
  obtain x s1 where r: "removeq q (queue p q) s0 l = Some (Ret (x, s1))"
      "pool_inv rep pid (set_queue q x (count_lease (- 1) q p)) s1 ?ids" "keeps s0 s1" "offq s1 l"
      "\<And>q'. l \<notin> set (?ids q')"
    using dequeue_inv [OF inv0 l] by blast
  define t where "t = make_binding_state_transition peer (s1 l)"
  define s2 where "s2 = s1(l := fst t)"
  have t: "binding_state (s2 l) = next_binding_state (s l)" "flags_l (s2 l) = flags_l (s l)"
      "pool_l (s2 l) = Some pid" "next_l (s2 l) = next_l (s1 l)" "prev_l (s2 l) = prev_l (s1 l)"
    using keepsD [OF r(3), of l] s0 [of l] own by (simp_all add: s2_def t_def transition_simps)
  have inv2: "pool_inv rep pid (set_queue q x (count_lease (- 1) q p)) s2 ?ids"
    by (rule pool_inv_frame [OF r(2)]) (use r(5) in \<open>auto simp: s2_def\<close>)
  have off: "offq s2 l" using offq_frame [of s1 l s2] r(4) t(4,5) by simp
  have q2: "queue_of (s2 l) = Some q'"
    using q' queue_of_cong [of "s2 l" "(s l)\<lparr>binding_state := next_binding_state (s l)\<rparr>"] t(1,2) by simp
  obtain p' s' ids' where e:
      "lease_enqueue insertq peer (set_queue q x (count_lease (- 1) q p)) s2 l = Some (Ret (True, p', s'))"
      "pool_inv rep pid p' s' ids'" "mset (ids' q') = add_mset l (mset (?ids q'))"
      "\<forall>q''. q'' \<noteq> q' \<longrightarrow> ids' q'' = ?ids q''"
      "binding_state (s' l) = binding_state (s2 l)"
    using enqueue_inv [OF inv2 r(5) off t(3) q2] by blast
  have set': "set (ids' y) = (if y = q' then insert l (set (?ids y)) else set (?ids y))" for y
    using arg_cong [OF e(3), of set_mset] e(4) by (cases "y = q'") simp_all
  have dist: "distinct (ids q)" using inv rep_distinct unfolding pool_inv_def by blast
  then have old: "set (ids y) = (if y = q then insert l (set (?ids y)) else set (?ids y))" for y
    using l by auto
  define F where "F y = set (?ids y)" for y
  have "(\<Union>y. set (ids' y)) = insert l (\<Union>y. F y)" unfolding set' F_def [symmetric] by (rule UN_insert_at)
  moreover have "(\<Union>y. set (ids y)) = insert l (\<Union>y. F y)" unfolding old F_def [symmetric] by (rule UN_insert_at)
  moreover have "l \<in> set (ids' q')" using set' by simp
  moreover have "supersede_move insertq removeq peer commit propogate pimmediate p s l
      = Some (Ret (True, p', s', snd t, binding_state (s0 l) = FTS_FREE \<or> binding_state (s0 l) = FTS_BACKUP))"
    using go own r(1) e(1) s0 [of l]
    by (auto simp: supersede_move_def s0_def [symmetric] t_def [symmetric] s2_def split_beta Let_def)
  ultimately show ?thesis using e(2,5) t(1) by metis
qed

end

section \<open>Properties\<close>

text \<open>C5: with lease chains as queues, moving a lease to its next binding state keeps the pool
  consistent. \<open>supersede_lease\<close> takes the lease off the queue of its old state and puts it on
  the queue of its new one; every lease of the pool stays on exactly the queue of its state,
  the queues stay sorted, no lease is lost, and \<open>free_leases\<close> and \<open>backup_leases\<close> count the
  leases on the free and the backup queue.\<close>

theorem supersede_keeps_pool_chain:
  assumes "pool_inv (\<lambda>n. chain_rep (qindex n)) pid p s ids" "l \<in> set (ids q)"
    and "commit \<or> \<not> pimmediate"
    and "queue_of ((s l)\<lparr>binding_state := next_binding_state (s l)\<rparr>) = Some q'"
  shows "\<exists>p' s' ev check ids'.
      supersede_move (chain_insertp rnd) chain_removep peer commit propogate pimmediate p s l
        = Some (Ret (True, p', s', ev, check))
    \<and> pool_inv (\<lambda>n. chain_rep (qindex n)) pid p' s' ids' \<and> binding_state (s' l) = next_binding_state (s l)
    \<and> l \<in> set (ids' q') \<and> (\<Union>x. set (ids' x)) = (\<Union>x. set (ids x))"
  by (rule chainq.supersede_inv [OF assms])

theorem supersede_keeps_pool_chain_witness:
  "\<exists>p' s' ev check ids'.
      supersede_move (chain_insertp (\<lambda>_. 0)) chain_removep None True True True
        \<lparr>queue = (\<lambda>q. if q = QActive
            then \<lparr>list_lc = [Some 0], total_lc = 1, nelem = 1, growth = 0\<rparr>
            else \<lparr>list_lc = [], total_lc = 0, nelem = 0, growth = 0\<rparr>),
          free_leases = 0, backup_leases = 0\<rparr> (\<lambda>_. lease_due 4 (Some 1)) 0
        = Some (Ret (True, p', s', ev, check))
    \<and> pool_inv (\<lambda>n. chain_rep (qindex n)) 0 p' s' ids' \<and> binding_state (s' 0) = next_binding_state (lease_due 4 (Some 1))
    \<and> 0 \<in> set (ids' QFree) \<and> (\<Union>x. set (ids' x)) = (\<Union>x. set (if x = QActive then [0] else []))"
  by (rule supersede_keeps_pool_chain [where q = QActive])
    (simp_all add: pool_inv_def chain_rep_def array_rep_def key_sorted_def linked_def lease_due_def
      LONG_MAX_def queue_of_def)

text \<open>C16: the same with the singly linked lists of a build without \<open>BINARY_LEASES\<close>.\<close>

theorem supersede_keeps_pool_list:
  assumes "pool_inv (\<lambda>n. list_rep) pid p s ids" "l \<in> set (ids q)"
    and "commit \<or> \<not> pimmediate"
    and "queue_of ((s l)\<lparr>binding_state := next_binding_state (s l)\<rparr>) = Some q'"
  shows "\<exists>p' s' ev check ids'.
      supersede_move (list_insertp cache) list_removep peer commit propogate pimmediate p s l
        = Some (Ret (True, p', s', ev, check))
    \<and> pool_inv (\<lambda>n. list_rep) pid p' s' ids' \<and> binding_state (s' l) = next_binding_state (s l)
    \<and> l \<in> set (ids' q') \<and> (\<Union>x. set (ids' x)) = (\<Union>x. set (ids x))"
  by (rule listq.supersede_inv [OF assms])

theorem supersede_keeps_pool_list_witness:
  "\<exists>p' s' ev check ids'.
      supersede_move (list_insertp None) list_removep None True True True
        \<lparr>queue = (\<lambda>q. if q = QActive then Some 0 else None), free_leases = 0, backup_leases = 0\<rparr>
        (\<lambda>_. lease_due 4 None) 0
        = Some (Ret (True, p', s', ev, check))
    \<and> pool_inv (\<lambda>n. list_rep) 0 p' s' ids' \<and> binding_state (s' 0) = next_binding_state (lease_due 4 None)
    \<and> 0 \<in> set (ids' QFree) \<and> (\<Union>x. set (ids' x)) = (\<Union>x. set (if x = QActive then [0] else []))"
  by (rule supersede_keeps_pool_list [where q = QActive])
    (simp_all add: pool_inv_def list_rep_def lease_due_def queue_of_def)

text \<open>C18: the transition of a lease moves it to its pending state and fixes what it will do
  next: an active lease expires (to \<open>FTS_EXPIRED\<close> with a failover peer, to \<open>FTS_FREE\<close> without),
  an expired, released, abandoned or reset lease becomes free, and a free or backup lease
  stays. Without a failover peer, leaving \<open>FTS_ACTIVE\<close> drops the client's hostname, host
  declaration, agent options and billing class.\<close>

theorem transition_next_state:
  assumes "make_binding_state_transition fp r = (r', ev)"
  shows "binding_state r' = next_binding_state r
    \<and> (next_binding_state r = FTS_ACTIVE \<longrightarrow> next_binding_state r'
         = (if pool_l r \<noteq> None \<and> fp \<noteq> None then FTS_EXPIRED else FTS_FREE))
    \<and> (next_binding_state r \<in> {FTS_EXPIRED, FTS_RELEASED, FTS_ABANDONED, FTS_RESET} \<longrightarrow>
         next_binding_state r' = FTS_FREE)
    \<and> (next_binding_state r \<in> {FTS_FREE, FTS_BACKUP} \<longrightarrow> next_binding_state r' = binding_state r')
    \<and> (fp = None \<and> binding_state r = FTS_ACTIVE \<and> next_binding_state r \<noteq> FTS_ACTIVE \<longrightarrow>
         client_hostname r' = None \<and> host_l r' = None \<and> agent_options r' = None
         \<and> billing_class r' = None \<and> on_expiry r' = None \<and> on_release r' = None)"
proof -
  define peer where "peer = (if pool_l r = None then None else fp)"
  define r1 where "r1 = fst (release_event peer (fst (expiry_event peer r)))"
  have r': "r' = enter_state peer r1"
    using assms transition_fst [of fp r] by (simp add: peer_def r1_def Let_def)
  have n: "next_binding_state r1 = next_binding_state r" by (simp add: r1_def)
  have "fp = None \<and> binding_state r = FTS_ACTIVE \<and> next_binding_state r \<noteq> FTS_ACTIVE \<longrightarrow>
      client_hostname r1 = None \<and> host_l r1 = None \<and> agent_options r1 = None
      \<and> billing_class r1 = None \<and> on_expiry r1 = None \<and> on_release r1 = None"
    using events_drop_bindings [of r] by (simp add: r1_def peer_def)
  moreover have "next_binding_state r = FTS_ACTIVE \<longrightarrow> next_binding_state (enter_state peer r1)
         = (if pool_l r \<noteq> None \<and> fp \<noteq> None then FTS_EXPIRED else FTS_FREE)"
    by (auto simp: enter_state_def n peer_def)
  moreover have "next_binding_state r \<in> {FTS_EXPIRED, FTS_RELEASED, FTS_ABANDONED, FTS_RESET} \<longrightarrow>
         next_binding_state (enter_state peer r1) = FTS_FREE"
    by (auto simp: enter_state_def n Let_def split: option.split)
  moreover have "next_binding_state r \<in> {FTS_FREE, FTS_BACKUP} \<longrightarrow>
      next_binding_state (enter_state peer r1) = next_binding_state r"
    by (auto simp: enter_state_def n)
  ultimately show ?thesis unfolding r' by (simp add: n)
qed

theorem transition_next_state_witness:
  "binding_state (fst (make_binding_state_transition None (lease_due 4 None))) = FTS_FREE
    \<and> next_binding_state (fst (make_binding_state_transition None (lease_due 4 None))) = FTS_FREE"
  using transition_next_state [of None "lease_due 4 None"
      "fst (make_binding_state_transition None (lease_due 4 None))"
      "snd (make_binding_state_transition None (lease_due 4 None))"]
  by (simp add: lease_due_def)

end
