(* ===== verification/Isc_Heap.thy ===== *)
theory Isc_Heap
  imports Dhcp_Prelude "HOL-Library.Multiset"
begin

text \<open>
  Model of \<open>common/heap.c\<close>, the priority queue with index callbacks. The array of
  \<open>void *\<close> pointers is a list of optional elements (\<open>None\<close> is NULL, the contents of fresh
  memory), 1-based as in the source. The index callback is a function that updates the state
  \<open>'s\<close> of the client; \<open>None\<close> is a NULL callback. The result of \<open>dmalloc\<close> is the argument
  \<open>alloc_ok\<close>.

  No makefile of the repository builds \<open>common/heap.c\<close>: the server is linked with the heap of
  BIND's \<open>libisc\<close>, whose sources are not part of the repository and whose functions have the same
  names and the same contract (\<open>includes/heap.h\<close>) and take a memory context in addition. The file
  is the repository's own implementation of that contract, and the theories of \<open>server/mdb6.c\<close> use
  it in the place of the library. What they rely on are the lemmas of the locale \<open>heap_order\<close> below.
\<close>

record ('a, 's) isc_heap =
  size_h :: nat
  size_increment :: nat
  last_h :: nat
  array_h :: "'a option list"
  compare_h :: "'a \<Rightarrow> 'a \<Rightarrow> bool"
  index_h :: "('a \<Rightarrow> nat \<Rightarrow> 's \<Rightarrow> 's) option"

abbreviation heap_parent :: "nat \<Rightarrow> nat" where
  "heap_parent i \<equiv> i div 2"

abbreviation heap_left :: "nat \<Rightarrow> nat" where
  "heap_left i \<equiv> 2 * i"

definition SIZE_INCREMENT :: nat where
  "SIZE_INCREMENT = 1024"

definition call_index ::
  "('a \<Rightarrow> nat \<Rightarrow> 's \<Rightarrow> 's) option \<Rightarrow> 'a \<Rightarrow> nat \<Rightarrow> 's \<Rightarrow> 's" where
  "call_index f x i s = (case f of None \<Rightarrow> s | Some g \<Rightarrow> g x i s)"

definition HEAPCONDITION :: "('a \<Rightarrow> 'a \<Rightarrow> bool) \<Rightarrow> 'a option list \<Rightarrow> nat \<Rightarrow> bool cres" where
  "HEAPCONDITION cmp a i =
     (if i = 1 then Ret True
      else bindC (rdp a i) (\<lambda>x. bindC (rdp a (heap_parent i)) (\<lambda>p. Ret (\<not> cmp x p))))"

definition isc_heap_create ::
  "('a \<Rightarrow> 'a \<Rightarrow> bool) \<Rightarrow> ('a \<Rightarrow> nat \<Rightarrow> 's \<Rightarrow> 's) option \<Rightarrow> nat \<Rightarrow> bool
    \<Rightarrow> isc_result \<times> ('a, 's) isc_heap option" where
  "isc_heap_create cmp idx increment alloc_ok =
     (if \<not> alloc_ok then (ISC_R_NOMEMORY, None)
      else (ISC_R_SUCCESS, Some \<lparr>size_h = 0,
        size_increment = (if increment = 0 then SIZE_INCREMENT else increment),
        last_h = 0, array_h = [], compare_h = cmp, index_h = idx\<rparr>))"

text \<open>The heap pointer of the caller is NULL afterwards; the element objects are untouched.\<close>

definition isc_heap_destroy :: "('a, 's) isc_heap option \<Rightarrow> ('a, 's) isc_heap option cres" where
  "isc_heap_destroy heapp = (case heapp of None \<Rightarrow> Undef | Some _ \<Rightarrow> Ret None)"

definition resize :: "bool \<Rightarrow> ('a, 's) isc_heap \<Rightarrow> bool \<times> ('a, 's) isc_heap" where
  "resize alloc_ok h =
     (let new_size = size_h h + size_increment h
      in if \<not> alloc_ok then (False, h)
         else (True, h\<lparr>size_h := new_size,
           array_h := take (size_h h) (array_h h) @ replicate (size_increment h) None\<rparr>))"

text \<open>
  The loops of \<open>float_up\<close> and \<open>sink_down\<close>, with the hole \<open>i\<close>; they return the array, the
  client state and the final hole. Index 0 is not a position of the heap: the callers
  \<open>REQUIRE\<close> an index of at least 1.
\<close>

function float_up_loop :: "('a \<Rightarrow> 'a \<Rightarrow> bool) \<Rightarrow> ('a \<Rightarrow> nat \<Rightarrow> 's \<Rightarrow> 's) option
    \<Rightarrow> 'a option list \<Rightarrow> 's \<Rightarrow> nat \<Rightarrow> 'a \<Rightarrow> ('a option list \<times> 's \<times> nat) cres" where
  "float_up_loop cmp idx a s i elt =
     (if i > 1 then
        bindC (rdp a (heap_parent i)) (\<lambda>x.
        if cmp elt x then
          bindC (wr a i (Some x)) (\<lambda>a'.
            float_up_loop cmp idx a' (call_index idx x i s) (heap_parent i) elt)
        else Ret (a, s, i))
      else Ret (a, s, i))"
  by pat_completeness auto
termination
  by (relation "measure (\<lambda>(cmp, idx, a, s, i, elt). i)") auto

declare float_up_loop.simps [simp del]

definition float_up ::
  "('a, 's) isc_heap \<Rightarrow> 's \<Rightarrow> nat \<Rightarrow> 'a \<Rightarrow> (('a, 's) isc_heap \<times> 's) cres" where
  "float_up h s i elt =
     bindC (float_up_loop (compare_h h) (index_h h) (array_h h) s i elt) (\<lambda>(a, s, i).
     bindC (wr a i (Some elt)) (\<lambda>a.
     bindC (HEAPCONDITION (compare_h h) a i) (\<lambda>ok.
     bindC (assertC ok) (\<lambda>_.
       Ret (h\<lparr>array_h := a\<rparr>, call_index (index_h h) elt i s)))))"

definition smallest_child ::
  "('a \<Rightarrow> 'a \<Rightarrow> bool) \<Rightarrow> 'a option list \<Rightarrow> nat \<Rightarrow> nat \<Rightarrow> nat cres" where
  "smallest_child cmp a sz i =
     (let j = heap_left i
      in if j < sz then
           bindC (rdp a (j + 1)) (\<lambda>r. bindC (rdp a j) (\<lambda>l.
             Ret (if cmp r l then j + 1 else j)))
         else Ret j)"

lemma smallest_child_cases:
  "smallest_child cmp a sz i = Ret j \<Longrightarrow> j = 2 * i \<or> (j = 2 * i + 1 \<and> 2 * i < sz)"
  by (auto simp: smallest_child_def Let_def cres_simps split: if_splits)

function sink_down_loop :: "('a \<Rightarrow> 'a \<Rightarrow> bool) \<Rightarrow> ('a \<Rightarrow> nat \<Rightarrow> 's \<Rightarrow> 's) option \<Rightarrow> nat
    \<Rightarrow> 'a option list \<Rightarrow> 's \<Rightarrow> nat \<Rightarrow> 'a \<Rightarrow> ('a option list \<times> 's \<times> nat) cres" where
  "sink_down_loop cmp idx sz a s i elt =
     (if i = 0 then Undef
      else if i \<le> sz div 2 then
        bindC (smallest_child cmp a sz i) (\<lambda>j.
        bindC (rdp a j) (\<lambda>x.
        if cmp elt x then Ret (a, s, i)
        else bindC (wr a i (Some x)) (\<lambda>a'.
               sink_down_loop cmp idx sz a' (call_index idx x i s) j elt)))
      else Ret (a, s, i))"
  by pat_completeness auto
termination
  by (relation "measure (\<lambda>(cmp, idx, sz, a, s, i, elt). sz - i)")
    (auto dest!: smallest_child_cases)

declare sink_down_loop.simps [simp del]

definition sink_down ::
  "('a, 's) isc_heap \<Rightarrow> 's \<Rightarrow> nat \<Rightarrow> 'a \<Rightarrow> (('a, 's) isc_heap \<times> 's) cres" where
  "sink_down h s i elt =
     bindC (sink_down_loop (compare_h h) (index_h h) (last_h h) (array_h h) s i elt)
       (\<lambda>(a, s, i).
     bindC (wr a i (Some elt)) (\<lambda>a.
     bindC (HEAPCONDITION (compare_h h) a i) (\<lambda>ok.
     bindC (assertC ok) (\<lambda>_.
       Ret (h\<lparr>array_h := a\<rparr>, call_index (index_h h) elt i s)))))"

definition isc_heap_insert ::
  "bool \<Rightarrow> ('a, 's) isc_heap \<Rightarrow> 's \<Rightarrow> 'a \<Rightarrow> (isc_result \<times> ('a, 's) isc_heap \<times> 's) cres" where
  "isc_heap_insert alloc_ok h s elt =
     (let i = last_h h + 1; h = h\<lparr>last_h := i\<rparr>;
          (ok, h) = (if i \<ge> size_h h then resize alloc_ok h else (True, h))
      in if \<not> ok then Ret (ISC_R_NOMEMORY, h, s)
         else bindC (float_up h s i elt) (\<lambda>(h, s). Ret (ISC_R_SUCCESS, h, s)))"

definition isc_heap_delete ::
  "('a, 's) isc_heap \<Rightarrow> 's \<Rightarrow> nat \<Rightarrow> (('a, 's) isc_heap \<times> 's) cres" where
  "isc_heap_delete h s index =
     bindC (assertC (1 \<le> index \<and> index \<le> last_h h)) (\<lambda>_.
     if index = last_h h then Ret (h\<lparr>last_h := last_h h - 1\<rparr>, s)
     else
       bindC (rdp (array_h h) (last_h h)) (\<lambda>elt.
       bindC (rdp (array_h h) index) (\<lambda>old.
       bindC (wr (array_h h) index (Some elt)) (\<lambda>a.
         let h = h\<lparr>last_h := last_h h - 1, array_h := a\<rparr>
         in if compare_h h elt old then float_up h s index elt
            else sink_down h s index elt))))"

definition isc_heap_increased ::
  "('a, 's) isc_heap \<Rightarrow> 's \<Rightarrow> nat \<Rightarrow> (('a, 's) isc_heap \<times> 's) cres" where
  "isc_heap_increased h s index =
     bindC (assertC (1 \<le> index \<and> index \<le> last_h h)) (\<lambda>_.
     bindC (rdp (array_h h) index) (\<lambda>elt. float_up h s index elt))"

definition isc_heap_decreased ::
  "('a, 's) isc_heap \<Rightarrow> 's \<Rightarrow> nat \<Rightarrow> (('a, 's) isc_heap \<times> 's) cres" where
  "isc_heap_decreased h s index =
     bindC (assertC (1 \<le> index \<and> index \<le> last_h h)) (\<lambda>_.
     bindC (rdp (array_h h) index) (\<lambda>elt. sink_down h s index elt))"

definition isc_heap_element :: "('a, 's) isc_heap \<Rightarrow> nat \<Rightarrow> 'a option cres" where
  "isc_heap_element h index =
     bindC (assertC (1 \<le> index \<and> index \<le> last_h h)) (\<lambda>_. rd (array_h h) index)"

text \<open>\<open>action\<close> is called on the elements 1 to \<open>last\<close> in order; \<open>uap\<close> is its own state.\<close>

fun foreach_from ::
  "('a option \<Rightarrow> 'u \<Rightarrow> 'u) \<Rightarrow> 'a option list \<Rightarrow> nat \<Rightarrow> nat \<Rightarrow> 'u \<Rightarrow> 'u cres" where
  "foreach_from action a i 0 uap = Ret uap"
| "foreach_from action a i (Suc n) uap =
     bindC (rd a i) (\<lambda>p. foreach_from action a (i + 1) n (action p uap))"

definition isc_heap_foreach ::
  "('a, 's) isc_heap \<Rightarrow> ('a option \<Rightarrow> 'u \<Rightarrow> 'u) \<Rightarrow> 'u \<Rightarrow> 'u cres" where
  "isc_heap_foreach h action uap = foreach_from action (array_h h) 1 (last_h h) uap"

section \<open>The heap invariant\<close>

abbreviation elem_at :: "'a option list \<Rightarrow> nat \<Rightarrow> 'a" where
  "elem_at a k \<equiv> the (a ! k)"

definition filled :: "nat \<Rightarrow> 'a option list \<Rightarrow> bool" where
  "filled n a \<longleftrightarrow> n < length a \<and> (\<forall>k. 1 \<le> k \<and> k \<le> n \<longrightarrow> a ! k \<noteq> None)"

definition filled_but :: "nat \<Rightarrow> nat \<Rightarrow> 'a option list \<Rightarrow> bool" where
  "filled_but n i a \<longleftrightarrow> n < length a \<and> (\<forall>k. 1 \<le> k \<and> k \<le> n \<and> k \<noteq> i \<longrightarrow> a ! k \<noteq> None)"

definition heap_ok :: "('a \<Rightarrow> 'a \<Rightarrow> bool) \<Rightarrow> nat \<Rightarrow> 'a option list \<Rightarrow> bool" where
  "heap_ok cmp n a \<longleftrightarrow>
     (\<forall>k. 2 \<le> k \<and> k \<le> n \<longrightarrow> \<not> cmp (elem_at a k) (elem_at a (heap_parent k)))"

text \<open>
  The heap order everywhere but at the hole \<open>i\<close>, whose children are ordered with its parent.
\<close>

definition hole_ok :: "('a \<Rightarrow> 'a \<Rightarrow> bool) \<Rightarrow> nat \<Rightarrow> 'a option list \<Rightarrow> nat \<Rightarrow> bool" where
  "hole_ok cmp n a i \<longleftrightarrow> filled_but n i a \<and> 1 \<le> i \<and> i \<le> n
     \<and> (\<forall>k. 2 \<le> k \<and> k \<le> n \<and> k \<noteq> i \<and> heap_parent k \<noteq> i
          \<longrightarrow> \<not> cmp (elem_at a k) (elem_at a (heap_parent k)))
     \<and> (\<forall>k. 2 \<le> i \<and> k \<le> n \<and> heap_parent k = i
          \<longrightarrow> \<not> cmp (elem_at a k) (elem_at a (heap_parent i)))"

definition above_ok :: "('a \<Rightarrow> 'a \<Rightarrow> bool) \<Rightarrow> 'a option list \<Rightarrow> nat \<Rightarrow> 'a \<Rightarrow> bool" where
  "above_ok cmp a i x \<longleftrightarrow> (2 \<le> i \<longrightarrow> \<not> cmp x (elem_at a (heap_parent i)))"

definition below_ok :: "('a \<Rightarrow> 'a \<Rightarrow> bool) \<Rightarrow> nat \<Rightarrow> 'a option list \<Rightarrow> nat \<Rightarrow> 'a \<Rightarrow> bool" where
  "below_ok cmp n a i x \<longleftrightarrow> (\<forall>k. k \<le> n \<and> heap_parent k = i \<longrightarrow> \<not> cmp (elem_at a k) x)"

definition heap_inv :: "('a, 's) isc_heap \<Rightarrow> bool" where
  "heap_inv h \<longleftrightarrow> length (array_h h) = size_h h \<and> 2 \<le> size_increment h
     \<and> (last_h h = 0 \<or> filled (last_h h) (array_h h))
     \<and> heap_ok (compare_h h) (last_h h) (array_h h)"

definition heap_elems :: "nat \<Rightarrow> 'a option list \<Rightarrow> 'a multiset" where
  "heap_elems n a = image_mset (elem_at a) (mset_set {1..n})"

text \<open>What a loop does to the array: the hole moves, the elements are permuted.\<close>

definition moved :: "nat \<Rightarrow> 'a option list \<Rightarrow> nat \<Rightarrow> 'a option list \<Rightarrow> nat \<Rightarrow> 'a \<Rightarrow> bool" where
  "moved n a i a' i' x \<longleftrightarrow> length a' = length a \<and> (\<forall>k. k = 0 \<or> n < k \<longrightarrow> a' ! k = a ! k)
     \<and> heap_elems n (a'[i' := Some x]) = heap_elems n (a[i := Some x])"

lemma moved_refl: "moved n a i a i x"
  by (simp add: moved_def)

lemma moved_trans: "moved n a i a' i' x \<Longrightarrow> moved n a' i' b j x \<Longrightarrow> moved n a i b j x"
  by (auto simp: moved_def)

lemma heap_elems_swap:
  assumes "1 \<le> i" "i \<le> n" "1 \<le> j" "j \<le> n" "n < length a"
  shows "heap_elems n (a[i := a ! j, j := a ! i]) = heap_elems n a"
proof -
  let ?t = "\<lambda>k. if k = i then j else if k = j then i else k"
  have "elem_at (a[i := a ! j, j := a ! i]) k = elem_at a (?t k)" for k
    using assms by (simp add: nth_upd)
  then have "heap_elems n (a[i := a ! j, j := a ! i]) =
      image_mset (elem_at a) (image_mset ?t (mset_set {1..n}))"
    by (simp add: heap_elems_def multiset.map_comp comp_def)
  also have "image_mset ?t (mset_set {1..n}) = mset_set (?t ` {1..n})"
    by (rule image_mset_mset_set) (auto simp: inj_on_def)
  also have "?t ` {1..n} = {1..n}"
    using assms by (auto simp: image_iff)
  finally show ?thesis by (simp add: heap_elems_def)
qed

lemma moved_step:
  assumes "filled_but n i a" "1 \<le> i" "i \<le> n" "1 \<le> j" "j \<le> n" "i \<noteq> j"
  shows "moved n a i (a[i := Some (elem_at a j)]) j x"
proof -
  let ?b = "a[i := Some x]"
  have aj: "Some (elem_at a j) = a ! j" using assms by (auto simp: filled_but_def)
  have "a[i := Some (elem_at a j), j := Some x] = ?b[i := ?b ! j, j := ?b ! i]"
    using assms aj by (auto simp: filled_but_def list_update_swap)
  moreover have "n < length ?b" using assms by (simp add: filled_but_def)
  ultimately have "heap_elems n (a[i := Some (elem_at a j), j := Some x]) = heap_elems n ?b"
    using heap_elems_swap [of i n j ?b] assms by simp
  then show ?thesis using assms by (auto simp: moved_def)
qed

lemma filled_update: "filled n a \<Longrightarrow> filled n (a[i := Some x])"
  by (auto simp: filled_def nth_upd)

lemma filled_but_update: "filled_but n i a \<Longrightarrow> filled n (a[i := Some x])"
  by (auto simp: filled_def filled_but_def nth_upd)

lemma filled_imp_but: "filled n a \<Longrightarrow> filled_but n i a"
  by (simp add: filled_def filled_but_def)

lemma rdp_filled_but [simp]:
  "filled_but n i a \<Longrightarrow> 1 \<le> k \<Longrightarrow> k \<le> n \<Longrightarrow> k \<noteq> i \<Longrightarrow> rdp a k = Ret (elem_at a k)"
  by (auto simp: rdp_def filled_but_def split: option.split)

lemma rdp_filled [simp]: "filled n a \<Longrightarrow> 1 \<le> k \<Longrightarrow> k \<le> n \<Longrightarrow> rdp a k = Ret (elem_at a k)"
  by (auto simp: rdp_def filled_def split: option.split)

text \<open>
  A property of array, client state and hole that every move of the hole keeps. The loops of
  both directions keep it too.
\<close>

definition kept_by_moves :: "nat \<Rightarrow> ('a \<Rightarrow> nat \<Rightarrow> 's \<Rightarrow> 's) option
    \<Rightarrow> ('a option list \<Rightarrow> 's \<Rightarrow> nat \<Rightarrow> bool) \<Rightarrow> bool" where
  "kept_by_moves n idx P \<longleftrightarrow> (\<forall>a s i j. P a s i \<and> filled_but n i a
     \<and> 1 \<le> i \<and> i \<le> n \<and> 1 \<le> j \<and> j \<le> n \<and> i \<noteq> j
     \<longrightarrow> P (a[i := Some (elem_at a j)]) (call_index idx (elem_at a j) i s) j)"

lemma kept_by_movesD:
  "kept_by_moves n idx P \<Longrightarrow> P a s i \<Longrightarrow> filled_but n i a \<Longrightarrow> 1 \<le> i \<Longrightarrow> i \<le> n \<Longrightarrow> 1 \<le> j \<Longrightarrow> j \<le> n
    \<Longrightarrow> i \<noteq> j \<Longrightarrow> P (a[i := Some (elem_at a j)]) (call_index idx (elem_at a j) i s) j"
  by (simp add: kept_by_moves_def)

lemma kept_by_moves_moved: "kept_by_moves n idx (\<lambda>b s j. moved n a i b j x)"
  unfolding kept_by_moves_def
proof (intro allI impI)
  fix b s j k
  assume "moved n a i b j x \<and> filled_but n j b \<and> 1 \<le> j \<and> j \<le> n \<and> 1 \<le> k \<and> k \<le> n \<and> j \<noteq> k"
  then show "moved n a i (b[j := Some (elem_at b k)]) k x"
    using moved_trans [of n a i b j x] moved_step [of n j b k x] by blast
qed

text \<open>
  With a callback that records the index of each element: every element but the one at the
  hole is recorded at its position, and no element occurs twice.
\<close>

abbreviation record_index :: "('a \<Rightarrow> nat \<Rightarrow> ('a \<Rightarrow> nat) \<Rightarrow> 'a \<Rightarrow> nat) option" where
  "record_index \<equiv> Some (\<lambda>x i f. f(x := i))"

definition tracked :: "nat \<Rightarrow> nat set \<Rightarrow> 'a option list \<Rightarrow> ('a \<Rightarrow> nat) \<Rightarrow> bool" where
  "tracked n H a f \<longleftrightarrow> (\<forall>k \<in> {1..n} - H. f (elem_at a k) = k)"

lemma trackedD: "tracked n H a f \<Longrightarrow> 1 \<le> k \<Longrightarrow> k \<le> n \<Longrightarrow> k \<notin> H \<Longrightarrow> f (elem_at a k) = k"
  by (simp add: tracked_def)

lemma tracked_distinct: "tracked n H a f \<Longrightarrow> inj_on (elem_at a) ({1..n} - H)"
  by (rule inj_on_inverseI [of _ f]) (simp add: tracked_def)

lemma kept_by_moves_tracked: "kept_by_moves n record_index (\<lambda>a f i. tracked n {i} a f)"
  unfolding kept_by_moves_def
proof (intro allI impI)
  fix a :: "'a option list" and f i j
  assume *: "tracked n {i} a f \<and> filled_but n i a \<and> 1 \<le> i \<and> i \<le> n \<and> 1 \<le> j \<and> j \<le> n \<and> i \<noteq> j"
  then have inj: "inj_on (elem_at a) ({1..n} - {i})" using tracked_distinct by blast
  show "tracked n {j} (a[i := Some (elem_at a j)]) (call_index record_index (elem_at a j) i f)"
    unfolding tracked_def
  proof
    fix k assume k: "k \<in> {1..n} - {j}"
    then have "elem_at a k \<noteq> elem_at a j" if "k \<noteq> i"
      using inj_onD [OF inj, of k j] * that by auto
    with k * show "call_index record_index (elem_at a j) i f
        (elem_at (a[i := Some (elem_at a j)]) k) = k"
      by (auto simp: tracked_def call_index_def nth_upd filled_but_def)
  qed
qed

text \<open>
  The same with a frame: the elements are taken from \<open>E\<close>, and outside of \<open>E\<close> the recorded indices
  are still those of \<open>g\<close>.
\<close>

definition follows ::
  "'a set \<Rightarrow> ('a \<Rightarrow> nat) \<Rightarrow> nat \<Rightarrow> 'a option list \<Rightarrow> ('a \<Rightarrow> nat) \<Rightarrow> nat \<Rightarrow> bool" where
  "follows E g n a f i \<longleftrightarrow> tracked n {i} a f \<and> (\<forall>k \<in> {1..n} - {i}. elem_at a k \<in> E)
     \<and> (\<forall>y. y \<notin> E \<longrightarrow> f y = g y)"

lemma kept_by_moves_follows: "kept_by_moves n record_index (follows E g n)"
  unfolding kept_by_moves_def
proof (intro allI impI)
  fix a :: "'a option list" and f i j
  assume *: "follows E g n a f i \<and> filled_but n i a \<and> 1 \<le> i \<and> i \<le> n \<and> 1 \<le> j \<and> j \<le> n \<and> i \<noteq> j"
  then have "tracked n {j} (a[i := Some (elem_at a j)]) (call_index record_index (elem_at a j) i f)"
    using kept_by_movesD [OF kept_by_moves_tracked, of n i a f j] by (simp add: follows_def)
  moreover have "elem_at a j \<in> E" using * by (simp add: follows_def)
  ultimately show "follows E g n (a[i := Some (elem_at a j)])
      (call_index record_index (elem_at a j) i f) j"
    using * by (auto simp: follows_def call_index_def nth_upd filled_but_def)
qed

text \<open>
  A heap for the order \<open>cmp\<close> whose callback records positions: \<open>f\<close> gives the position of every
  element.
\<close>

definition heap_rep ::
  "('a \<Rightarrow> 'a \<Rightarrow> bool) \<Rightarrow> ('a, 'a \<Rightarrow> nat) isc_heap \<Rightarrow> ('a \<Rightarrow> nat) \<Rightarrow> bool" where
  "heap_rep cmp h f \<longleftrightarrow> heap_inv h \<and> compare_h h = cmp \<and> index_h h = record_index
     \<and> tracked (last_h h) {} (array_h h) f"

abbreviation elems_of :: "('a, 's) isc_heap \<Rightarrow> 'a multiset" where
  "elems_of h \<equiv> heap_elems (last_h h) (array_h h)"

section \<open>Strict weak orders and the two loops\<close>

text \<open>What the heap relies on of a \<open>compare\<close> function.\<close>

locale heap_order =
  fixes cmp :: "'a \<Rightarrow> 'a \<Rightarrow> bool"
  assumes asym: "cmp x y \<Longrightarrow> \<not> cmp y x"
    and neg_trans: "\<not> cmp x y \<Longrightarrow> \<not> cmp y z \<Longrightarrow> \<not> cmp x z"
begin

lemma cmp_trans: "cmp x y \<Longrightarrow> cmp y z \<Longrightarrow> cmp x z"
  using asym neg_trans by blast

lemma heap_ok_hole:
  assumes "filled n a" "heap_ok cmp n a" "1 \<le> i" "i \<le> n"
  shows "hole_ok cmp n a i"
proof -
  have "\<not> cmp (elem_at a k) (elem_at a (heap_parent i))"
    if "2 \<le> i" "k \<le> n" "heap_parent k = i" for k
  proof (rule neg_trans)
    show "\<not> cmp (elem_at a k) (elem_at a i)"
      using assms(2) that unfolding heap_ok_def by auto
    show "\<not> cmp (elem_at a i) (elem_at a (heap_parent i))"
      using assms that by (simp add: heap_ok_def)
  qed
  with assms show ?thesis by (simp add: hole_ok_def heap_ok_def filled_imp_but)
qed

lemma hole_filled:
  assumes "hole_ok cmp n a i" "above_ok cmp a i x" "below_ok cmp n a i x"
  shows "heap_ok cmp n (a[i := Some x])"
  unfolding heap_ok_def
proof (intro allI impI)
  fix k assume k: "2 \<le> k \<and> k \<le> n"
  have i: "i < length a" "1 \<le> i" using assms(1) by (auto simp: hole_ok_def filled_but_def)
  consider "k = i" | "k \<noteq> i" "heap_parent k = i" | "k \<noteq> i" "heap_parent k \<noteq> i" by blast
  then show "\<not> cmp (elem_at (a[i := Some x]) k) (elem_at (a[i := Some x]) (heap_parent k))"
    using assms k i
    by cases (auto simp: hole_ok_def above_ok_def below_ok_def nth_list_update)
qed

lemma float_up_step:
  assumes "hole_ok cmp n a i" "below_ok cmp n a i x" "2 \<le> i" "cmp x (elem_at a (heap_parent i))"
  defines "p \<equiv> heap_parent i"
  defines "a' \<equiv> a[i := Some (elem_at a p)]"
  shows "hole_ok cmp n a' p" "below_ok cmp n a' p x"
proof -
  have p: "1 \<le> p" "p < i" "p \<le> n" and i: "i < length a" "i \<le> n" and f: "filled_but n i a"
    using assms by (auto simp: hole_ok_def filled_but_def)
  have old: "\<not> cmp (elem_at a k) (elem_at a (heap_parent k))"
    if "2 \<le> k" "k \<le> n" "k \<noteq> i" "heap_parent k \<noteq> i" for k
    using assms(1) that by (simp add: hole_ok_def)
  have low: "\<not> cmp (elem_at a k) (elem_at a p)" if "k \<le> n" "heap_parent k = i" for k
    using assms(1,3) that unfolding p_def by (simp add: hole_ok_def)
  have sib: "\<not> cmp (elem_at a k) (elem_at a p)" if "k \<le> n" "heap_parent k = p" "k \<noteq> i" for k
    using old [of k] that p by auto
  have a'_nth: "elem_at a' k = (if k = i then elem_at a p else elem_at a k)" for k
    using i by (simp add: a'_def nth_list_update)
  show "below_ok cmp n a' p x"
    unfolding below_ok_def a'_nth
  proof (intro allI impI)
    fix k assume k: "k \<le> n \<and> heap_parent k = p"
    show "\<not> cmp (if k = i then elem_at a p else elem_at a k) x"
    proof (cases "k = i")
      case True
      with assms(4) show ?thesis by (simp add: p_def asym)
    next
      case False
      with k sib have "\<not> cmp (elem_at a k) (elem_at a p)" by simp
      with False assms(4) show ?thesis unfolding p_def using cmp_trans by auto
    qed
  qed
  have up: "\<not> cmp (elem_at a p) (elem_at a (heap_parent p))" if "2 \<le> p"
    using old [of p] that p by auto
  show "hole_ok cmp n a' p"
    unfolding hole_ok_def a'_nth
  proof (intro conjI allI impI)
    show "filled_but n p a'" using f by (simp add: a'_def filled_but_update filled_imp_but)
    show "1 \<le> p" "p \<le> n" using p by auto
  next
    fix k assume k: "2 \<le> k \<and> k \<le> n \<and> k \<noteq> p \<and> heap_parent k \<noteq> p"
    then have "k \<noteq> i" by (auto simp: p_def)
    then show "\<not> cmp (if k = i then elem_at a p else elem_at a k)
        (if heap_parent k = i then elem_at a p else elem_at a (heap_parent k))"
      using k old low by auto
  next
    fix k assume k: "2 \<le> p \<and> k \<le> n \<and> heap_parent k = p"
    then have "\<not> cmp (if k = i then elem_at a p else elem_at a k) (elem_at a (heap_parent p))"
      using up sib [of k] neg_trans [OF sib [of k] up] by (cases "k = i") auto
    moreover have "heap_parent p \<noteq> i" using p by auto
    ultimately show "\<not> cmp (if k = i then elem_at a p else elem_at a k)
        (if heap_parent p = i then elem_at a p else elem_at a (heap_parent p))"
      by simp
  qed
qed

lemma float_up_loop_spec:
  assumes P: "kept_by_moves n idx P"
    and "hole_ok cmp n a i" "below_ok cmp n a i x" "P a s i"
  shows "\<exists>a' s' i'. float_up_loop cmp idx a s i x = Ret (a', s', i')
    \<and> hole_ok cmp n a' i' \<and> below_ok cmp n a' i' x \<and> above_ok cmp a' i' x \<and> P a' s' i'"
  using assms(2-)
proof (induction i arbitrary: a s rule: less_induct)
  case (less i)
  have f: "filled_but n i a" "1 \<le> i" "i \<le> n" using less.prems by (auto simp: hole_ok_def)
  let ?p = "heap_parent i" and ?a = "a[i := Some (elem_at a (heap_parent i))]"
  show ?case
  proof (cases "1 < i \<and> cmp x (elem_at a ?p)")
    case False
    with f have "float_up_loop cmp idx a s i x = Ret (a, s, i)"
      using rdp_filled_but [OF f(1), of ?p]
      by (cases "1 < i") (auto simp: float_up_loop.simps [of cmp idx a s i x])
    with False f less.prems show ?thesis by (auto simp: above_ok_def)
  next
    case True
    then have p: "1 \<le> ?p" "?p \<le> n" "?p < i" "i \<noteq> ?p" using f by auto
    have unf: "float_up_loop cmp idx a s i x =
        float_up_loop cmp idx ?a (call_index idx (elem_at a ?p) i s) ?p x"
    proof -
      have "1 < i" "rdp a ?p = Ret (elem_at a ?p)" "i < length a"
        using True f p by (auto simp: rdp_filled_but [of n i] filled_but_def)
      with True show ?thesis by (simp add: float_up_loop.simps [of cmp idx a s i x])
    qed
    have "hole_ok cmp n ?a ?p" "below_ok cmp n ?a ?p x"
      using float_up_step [of n a i x] less.prems True by auto
    from less.IH [OF p(3) this kept_by_movesD [OF P less.prems(3) f p(1,2,4)]]
    show ?thesis unfolding unf .
  qed
qed

lemma sink_down_step:
  assumes "hole_ok cmp n a i" "above_ok cmp a i x" "heap_parent j = i" "j \<le> n"
    and minimal: "\<And>k. k \<le> n \<Longrightarrow> heap_parent k = i \<Longrightarrow> \<not> cmp (elem_at a k) (elem_at a j)"
    and "\<not> cmp x (elem_at a j)"
  defines "a' \<equiv> a[i := Some (elem_at a j)]"
  shows "hole_ok cmp n a' j" "above_ok cmp a' j x"
proof -
  have i: "1 \<le> i" "i < length a" "i \<le> n" and j: "i < j" "2 \<le> j" and f: "filled_but n i a"
    using assms by (auto simp: hole_ok_def filled_but_def)
  have old: "\<not> cmp (elem_at a k) (elem_at a (heap_parent k))"
    if "2 \<le> k" "k \<le> n" "k \<noteq> i" "heap_parent k \<noteq> i" for k
    using assms(1) that by (simp add: hole_ok_def)
  have a'_nth: "elem_at a' k = (if k = i then elem_at a j else elem_at a k)" for k
    using i by (simp add: a'_def nth_list_update)
  show "above_ok cmp a' j x"
    using assms(3,6) by (simp add: above_ok_def a'_nth)
  have "\<not> cmp (elem_at a j) (elem_at a (heap_parent i))" if "2 \<le> i"
    using assms(1,3,4) that by (simp add: hole_ok_def)
  moreover have "\<not> cmp (elem_at a k) (elem_at a j)" if "k \<le> n" "heap_parent k = j" for k
    using old [of k] that j i by auto
  ultimately show "hole_ok cmp n a' j"
    unfolding hole_ok_def a'_nth
    using i j old minimal f assms(3,4)
    by (auto simp: a'_def filled_but_update filled_imp_but)
qed

lemma smallest_child_spec:
  assumes "filled_but n i a" "1 \<le> i" "i \<le> n div 2"
  shows "\<exists>j. smallest_child cmp a n i = Ret j \<and> heap_parent j = i \<and> j \<le> n \<and> i < j
    \<and> (\<forall>k. k \<le> n \<and> heap_parent k = i \<longrightarrow> \<not> cmp (elem_at a k) (elem_at a j))"
proof -
  have two: "k = 2 * i \<or> k = 2 * i + 1" if "heap_parent k = i" for k using that by auto
  have irrefl: "\<not> cmp y y" for y using asym by blast
  show ?thesis
  proof (cases "2 * i < n")
    case True
    let ?j = "if cmp (elem_at a (2 * i + 1)) (elem_at a (2 * i)) then 2 * i + 1 else 2 * i"
    have "smallest_child cmp a n i = Ret ?j"
      using True assms by (simp add: smallest_child_def rdp_filled_but [of n i])
    moreover have "\<not> cmp (elem_at a k) (elem_at a ?j)" if "heap_parent k = i" for k
      using two [OF that] irrefl asym by auto
    ultimately show ?thesis using True assms by (intro exI [of _ ?j]) auto
  next
    case False
    then have "smallest_child cmp a n i = Ret (2 * i)" by (simp add: smallest_child_def)
    moreover have "k = 2 * i" if "k \<le> n" "heap_parent k = i" for k using two [of k] that False by auto
    ultimately show ?thesis using assms irrefl by (intro exI [of _ "2 * i"]) auto
  qed
qed

lemma sink_down_loop_spec:
  assumes P: "kept_by_moves n idx P"
    and "hole_ok cmp n a i" "above_ok cmp a i x" "P a s i"
  shows "\<exists>a' s' i'. sink_down_loop cmp idx n a s i x = Ret (a', s', i')
    \<and> hole_ok cmp n a' i' \<and> below_ok cmp n a' i' x \<and> above_ok cmp a' i' x \<and> P a' s' i'"
  using assms(2-)
proof (induction "n - i" arbitrary: i a s rule: less_induct)
  case less
  have f: "filled_but n i a" "1 \<le> i" "i \<le> n" using less.prems by (auto simp: hole_ok_def)
  show ?case
  proof (cases "i \<le> n div 2")
    case False
    then have "below_ok cmp n a i x" by (auto simp: below_ok_def)
    with False f less.prems show ?thesis
      by (auto simp: sink_down_loop.simps [of cmp idx n a s i x])
  next
    case True
    then obtain j where j: "smallest_child cmp a n i = Ret j" "heap_parent j = i" "j \<le> n" "i < j"
      and minimal: "\<And>k. k \<le> n \<Longrightarrow> heap_parent k = i \<Longrightarrow> \<not> cmp (elem_at a k) (elem_at a j)"
      using smallest_child_spec f by blast
    have rdp: "rdp a j = Ret (elem_at a j)" using f j by (simp add: rdp_filled_but [of n i])
    show ?thesis
    proof (cases "cmp x (elem_at a j)")
      case less_x: True
      then have "below_ok cmp n a i x"
        using minimal cmp_trans unfolding below_ok_def by blast
      with less_x True f j rdp less.prems show ?thesis
        by (auto simp: sink_down_loop.simps [of cmp idx n a s i x])
    next
      case not_less: False
      let ?a = "a[i := Some (elem_at a j)]" and ?s = "call_index idx (elem_at a j) i s"
      have unf: "sink_down_loop cmp idx n a s i x = sink_down_loop cmp idx n ?a ?s j x"
        using True f j rdp not_less
        by (simp add: sink_down_loop.simps [of cmp idx n a s i x] filled_but_def)
      have "hole_ok cmp n ?a j" "above_ok cmp ?a j x"
        using sink_down_step [OF less.prems(1,2) j(2,3) minimal not_less] by auto
      moreover have "n - j < n - i" "P ?a ?s j"
        using j f kept_by_movesD [OF P less.prems(3) f, of j] by auto
      ultimately show ?thesis
        unfolding unf using less.hyps [of j ?a ?s] by blast
    qed
  qed
qed

text \<open>The element at the root has the highest priority.\<close>

lemma root_minimal: "heap_ok cmp n a \<Longrightarrow> 1 \<le> k \<Longrightarrow> k \<le> n \<Longrightarrow> \<not> cmp (elem_at a k) (elem_at a 1)"
proof (induction k rule: less_induct)
  case (less k)
  show ?case
  proof (cases "k = 1")
    case True
    then show ?thesis using asym by blast
  next
    case False
    then have "\<not> cmp (elem_at a (heap_parent k)) (elem_at a 1)"
      using less by auto
    moreover have "\<not> cmp (elem_at a k) (elem_at a (heap_parent k))"
      using less.prems False by (simp add: heap_ok_def)
    ultimately show ?thesis using neg_trans by blast
  qed
qed

text \<open>
  One specification for the two ways to place an element at a hole: the array is a heap
  again, its elements are the old ones with \<open>x\<close> at the hole, nothing outside \<open>1..n\<close> is
  touched, no assertion fails, and a recording callback has seen every position.
\<close>

definition placed :: "nat \<Rightarrow> 'a option list \<Rightarrow> nat \<Rightarrow> 'a \<Rightarrow> 'a option list \<Rightarrow> bool" where
  "placed n a i x a' \<longleftrightarrow> filled n a' \<and> heap_ok cmp n a' \<and> length a' = length a
     \<and> (\<forall>k. k = 0 \<or> n < k \<longrightarrow> a' ! k = a ! k)
     \<and> heap_elems n a' = heap_elems n (a[i := Some x])"

lemma place_at_hole:
  assumes "hole_ok cmp n a' i'" "below_ok cmp n a' i' x" "above_ok cmp a' i' x"
    and "moved n a i a' i' x"
  shows "placed n a i x (a'[i' := Some x])" "wr a' i' (Some x) = Ret (a'[i' := Some x])"
    and "HEAPCONDITION cmp (a'[i' := Some x]) i' = Ret True"
proof -
  have f: "filled n (a'[i' := Some x])" "1 \<le> i'" "i' \<le> n" "i' < length a'"
    using assms(1) by (auto simp: hole_ok_def filled_but_update filled_but_def)
  have ok: "heap_ok cmp n (a'[i' := Some x])" using hole_filled assms by blast
  with f assms(4) show "placed n a i x (a'[i' := Some x])"
    by (auto simp: placed_def moved_def nth_upd)
  show "wr a' i' (Some x) = Ret (a'[i' := Some x])" using f by simp
  show "HEAPCONDITION cmp (a'[i' := Some x]) i' = Ret True"
  proof (cases "i' = 1")
    case False
    let ?b = "a'[i' := Some x]"
    have "2 \<le> i'" using False f by simp
    with ok f have "\<not> cmp (elem_at ?b i') (elem_at ?b (heap_parent i'))"
      unfolding heap_ok_def by blast
    moreover have "rdp ?b i' = Ret (elem_at ?b i')"
      using f by (intro rdp_filled [of n])
    moreover have "rdp ?b (heap_parent i') = Ret (elem_at ?b (heap_parent i'))"
      by (rule rdp_filled [of n]) (use f \<open>2 \<le> i'\<close> in auto)
    ultimately show ?thesis using False by (simp add: HEAPCONDITION_def)
  qed (simp add: HEAPCONDITION_def)
qed

lemma float_up_spec:
  assumes "kept_by_moves n (index_h h) P" "compare_h h = cmp" "P (array_h h) s i"
    and "hole_ok cmp n (array_h h) i" "below_ok cmp n (array_h h) i x"
  shows "\<exists>a' s' i'. float_up h s i x = Ret (h\<lparr>array_h := a'[i' := Some x]\<rparr>, call_index (index_h h) x i' s')
    \<and> placed n (array_h h) i x (a'[i' := Some x]) \<and> P a' s' i' \<and> 1 \<le> i' \<and> i' \<le> n"
proof -
  let ?a = "array_h h" and ?Q = "\<lambda>b s j. P b s j \<and> moved n (array_h h) i b j x"
  have Q: "kept_by_moves n (index_h h) ?Q"
    using assms(1) kept_by_moves_moved [of n "index_h h" "array_h h" i x]
    by (simp add: kept_by_moves_def)
  obtain a' s' i' where r: "float_up_loop cmp (index_h h) ?a s i x = Ret (a', s', i')"
      "hole_ok cmp n a' i'" "below_ok cmp n a' i' x" "above_ok cmp a' i' x" "?Q a' s' i'"
    using float_up_loop_spec [OF Q assms(4,5)] assms(3) moved_refl by metis
  show ?thesis
    using place_at_hole [OF r(2-4)] r assms(2)
    by (intro exI [of _ a'] exI [of _ s'] exI [of _ i']) (auto simp: float_up_def hole_ok_def)
qed

lemma sink_down_spec:
  assumes "kept_by_moves n (index_h h) P" "compare_h h = cmp" "P (array_h h) s i" "last_h h = n"
    and "hole_ok cmp n (array_h h) i" "above_ok cmp (array_h h) i x"
  shows "\<exists>a' s' i'. sink_down h s i x = Ret (h\<lparr>array_h := a'[i' := Some x]\<rparr>, call_index (index_h h) x i' s')
    \<and> placed n (array_h h) i x (a'[i' := Some x]) \<and> P a' s' i' \<and> 1 \<le> i' \<and> i' \<le> n"
proof -
  let ?a = "array_h h" and ?Q = "\<lambda>b s j. P b s j \<and> moved n (array_h h) i b j x"
  have Q: "kept_by_moves n (index_h h) ?Q"
    using assms(1) kept_by_moves_moved [of n "index_h h" "array_h h" i x]
    by (simp add: kept_by_moves_def)
  obtain a' s' i' where r: "sink_down_loop cmp (index_h h) n ?a s i x = Ret (a', s', i')"
      "hole_ok cmp n a' i'" "below_ok cmp n a' i' x" "above_ok cmp a' i' x" "?Q a' s' i'"
    using sink_down_loop_spec [OF Q assms(5,6)] assms(3) moved_refl by metis
  show ?thesis
    using place_at_hole [OF r(2-4)] r assms(2,4)
    by (intro exI [of _ a'] exI [of _ s'] exI [of _ i']) (auto simp: sink_down_def hole_ok_def)
qed

text \<open>The operations as a client sees them.\<close>

lemma heap_elems_update:
  assumes "i < length a" "1 \<le> i" "i \<le> n"
  shows "heap_elems n (a[i := Some x]) = add_mset x (heap_elems n a - {#elem_at a i#})"
proof -
  have "mset_set {1..n} = add_mset i (mset_set ({1..n} - {i}))"
    using assms by (simp add: mset_set.remove)
  moreover have "image_mset (elem_at (a[i := Some x])) (mset_set ({1..n} - {i})) =
      image_mset (elem_at a) (mset_set ({1..n} - {i}))"
    by (rule image_mset_cong) (auto simp: nth_upd)
  ultimately show ?thesis using assms by (simp add: heap_elems_def)
qed

lemma heap_elems_Suc: "heap_elems (Suc n) a = add_mset (elem_at a (Suc n)) (heap_elems n a)"
  by (simp add: heap_elems_def atLeastAtMostSuc_conv)

lemma heap_elems_cong: "(\<And>k. 1 \<le> k \<Longrightarrow> k \<le> n \<Longrightarrow> a ! k = b ! k) \<Longrightarrow> heap_elems n a = heap_elems n b"
  unfolding heap_elems_def by (rule image_mset_cong) auto

lemma elem_in_heap: "1 \<le> i \<Longrightarrow> i \<le> n \<Longrightarrow> elem_at a i \<in># heap_elems n a"
  by (simp add: heap_elems_def)

lemma in_heapE:
  assumes "x \<in># heap_elems n a"
  obtains i where "1 \<le> i" "i \<le> n" "elem_at a i = x"
  using assms by (auto simp: heap_elems_def)

text \<open>
  From the outcome of \<open>float_up\<close> or \<open>sink_down\<close> with a recording callback back to the
  client's view: \<open>x\<close> is new to the array outside the hole.
\<close>

lemma placed_rep:
  assumes "placed n a i x (a'[i' := Some x])" "tracked n {i'} a' f'"
    and "1 \<le> i'" "i' \<le> n" "1 \<le> i" "i \<le> n" "x \<notin># heap_elems n a - {#elem_at a i#}"
    and "length a = size_h h" "2 \<le> size_increment h" "last_h h = n"
    and "compare_h h = cmp" "index_h h = record_index"
  shows "heap_rep cmp (h\<lparr>array_h := a'[i' := Some x]\<rparr>) (call_index record_index x i' f')"
    and "heap_elems n (a'[i' := Some x]) = add_mset x (heap_elems n a - {#elem_at a i#})"
proof -
  let ?b = "a'[i' := Some x]"
  have len: "length a' = length a" "n < length a'"
    using assms(1) by (auto simp: placed_def filled_def)
  show elems: "heap_elems n ?b = add_mset x (heap_elems n a - {#elem_at a i#})"
    using assms len by (simp add: placed_def heap_elems_update)
  have "heap_elems n ?b = add_mset x (heap_elems n a' - {#elem_at a' i'#})"
    using assms len by (simp add: heap_elems_update)
  with elems assms(7) have x: "x \<notin># heap_elems n a' - {#elem_at a' i'#}" by simp
  have "elem_at a' k \<noteq> x" if "k \<in> {1..n} - {i'}" for k
  proof -
    have "mset_set {1..n} = add_mset i' (mset_set ({1..n} - {i'}))"
      using assms(3,4) by (simp add: mset_set.remove)
    then have "heap_elems n a' - {#elem_at a' i'#} =
        image_mset (elem_at a') (mset_set ({1..n} - {i'}))"
      by (simp add: heap_elems_def)
    with x that show ?thesis by auto
  qed
  then have "tracked n {} ?b (call_index record_index x i' f')"
    using assms(2-4) len by (auto simp: tracked_def call_index_def nth_upd)
  with assms show "heap_rep cmp (h\<lparr>array_h := ?b\<rparr>) (call_index record_index x i' f')"
    by (auto simp: heap_rep_def heap_inv_def placed_def)
qed

lemma tracked_hole: "tracked n {} a f \<Longrightarrow> tracked n {i} a f"
  by (simp add: tracked_def)

lemma insert_rep:
  assumes rep: "heap_rep cmp h f" and new: "x \<notin># elems_of h"
    and mem: "last_h h + 1 < size_h h \<or> alloc_ok"
  shows "\<exists>h' f'. isc_heap_insert alloc_ok h f x = Ret (ISC_R_SUCCESS, h', f') \<and> heap_rep cmp h' f'
    \<and> elems_of h' = add_mset x (elems_of h) \<and> size_h h \<le> size_h h'
    \<and> (\<forall>y. y \<noteq> x \<and> y \<notin># elems_of h \<longrightarrow> f' y = f y)"
proof -
  let ?n = "Suc (last_h h)" and ?h1 = "h\<lparr>last_h := Suc (last_h h)\<rparr>"
  define h2 where "h2 = (if ?n \<ge> size_h h then snd (resize True ?h1) else ?h1)"
  let ?a = "array_h h2"
  have inv: "length (array_h h) = size_h h" "2 \<le> size_increment h" "compare_h h = cmp"
      "index_h h = record_index" "tracked (last_h h) {} (array_h h) f"
      "last_h h = 0 \<or> filled (last_h h) (array_h h)" "heap_ok cmp (last_h h) (array_h h)"
    using rep by (auto simp: heap_rep_def heap_inv_def)
  have h2: "last_h h2 = ?n" "compare_h h2 = cmp" "index_h h2 = record_index"
      "size_increment h2 = size_increment h" "length ?a = size_h h2" "?n < length ?a" "size_h h \<le> size_h h2"
    using inv by (auto simp: h2_def resize_def filled_def Let_def)
  have run: "isc_heap_insert alloc_ok h f x =
      bindC (float_up h2 f ?n x) (\<lambda>(h, s). Ret (ISC_R_SUCCESS, h, s))"
    using mem by (auto simp: isc_heap_insert_def h2_def resize_def Let_def)
  have same: "?a ! k = array_h h ! k" if "k \<le> last_h h" "1 \<le> k" for k
    using inv that by (auto simp: h2_def resize_def filled_def Let_def nth_append)
  have "filled_but ?n ?n ?a"
    using same inv(6) h2(6) by (auto simp: filled_but_def filled_def le_Suc_eq)
  with inv(7) same have hole: "hole_ok cmp ?n ?a ?n" "below_ok cmp ?n ?a ?n x"
    by (auto simp: hole_ok_def below_ok_def heap_ok_def le_Suc_eq)
  let ?E = "set_mset (elems_of h)"
  have track: "follows ?E f ?n ?a f ?n"
    using inv(5) same elem_in_heap [of _ "last_h h" "array_h h"]
    by (auto simp: follows_def tracked_def le_Suc_eq)
  have old: "heap_elems ?n ?a - {#elem_at ?a ?n#} = elems_of h"
    using heap_elems_cong [of "last_h h" ?a "array_h h"] same by (simp add: heap_elems_Suc)
  obtain a' f' i' where r: "float_up h2 f ?n x = Ret (h2\<lparr>array_h := a'[i' := Some x]\<rparr>,
        call_index record_index x i' f')"
      "placed ?n ?a ?n x (a'[i' := Some x])" "follows ?E f ?n a' f' i'" "1 \<le> i'" "i' \<le> ?n"
    using float_up_spec [of ?n h2 "follows ?E f ?n" f ?n x]
      kept_by_moves_follows [of ?n ?E f] h2 hole track by auto
  from placed_rep [OF r(2) _ r(4,5) _ _ _ h2(5) _ h2(1,2,3)] inv(2) h2(4) new old r(3)
  show ?thesis unfolding run r(1) by (auto simp: h2(1,7) follows_def call_index_def)
qed

text \<open>
  Replacing the element \<open>x\<close> at position \<open>i\<close> by \<open>y\<close>: moving \<open>y\<close> up or down, whichever way it
  compares to \<open>x\<close>, makes a heap again.
\<close>

lemma refill_hole:
  assumes fn: "filled n a" and ok: "heap_ok cmp n a" and i: "1 \<le> i" "i \<le> n"
    and h: "index_h h = record_index" "compare_h h = cmp" "array_h h = a[i := Some y]" "last_h h = n"
    and track: "follows E g n (a[i := Some y]) f i"
  shows "\<exists>a' f' i'. (if cmp y (elem_at a i) then float_up h f i y else sink_down h f i y)
      = Ret (h\<lparr>array_h := a'[i' := Some y]\<rparr>, call_index record_index y i' f')
    \<and> placed n (a[i := Some y]) i y (a'[i' := Some y]) \<and> follows E g n a' f' i' \<and> 1 \<le> i' \<and> i' \<le> n"
proof -
  let ?b = "a[i := Some y]" and ?x = "elem_at a i"
  have "hole_ok cmp n a i" using heap_ok_hole fn ok i by blast
  then have hole: "hole_ok cmp n ?b i" by (auto simp: hole_ok_def nth_upd filled_but_def)
  show ?thesis
  proof (cases "cmp y ?x")
    case True
    have "below_ok cmp n ?b i y"
      unfolding below_ok_def
    proof (intro allI impI)
      fix k assume k: "k \<le> n \<and> heap_parent k = i"
      then have "\<not> cmp (elem_at a k) ?x" using ok i by (auto simp: heap_ok_def)
      then have "k \<noteq> i" "\<not> cmp (elem_at a k) y"
        using k i True cmp_trans [of "elem_at a k" y ?x] by auto
      then show "\<not> cmp (elem_at ?b k) y" by simp
    qed
    from float_up_spec [of n h "follows E g n" f i y, unfolded h,
        OF kept_by_moves_follows refl track hole this]
    show ?thesis unfolding if_P [OF True] .
  next
    case False
    have "\<not> cmp ?x (elem_at a (heap_parent i))" if "2 \<le> i"
      using ok i that by (auto simp: heap_ok_def)
    then have "above_ok cmp ?b i y"
      using neg_trans [OF False, of "elem_at a (heap_parent i)"] i by (auto simp: above_ok_def)
    from sink_down_spec [of n h "follows E g n" f i y, unfolded h,
        OF kept_by_moves_follows refl track refl hole this]
    show ?thesis unfolding if_not_P [OF False] .
  qed
qed

text \<open>
  Deletion at the position \<open>f x\<close> of \<open>x\<close>, where the recorded index of \<open>x\<close> itself may have changed
  in the meantime because \<open>x\<close> is in another heap by now.
\<close>

lemma delete_at_rep:
  assumes rep: "heap_rep cmp h f" and x: "x \<in># elems_of h"
    and g: "\<And>y. y \<in># elems_of h \<Longrightarrow> y \<noteq> x \<Longrightarrow> g y = f y"
  shows "\<exists>h' g'. isc_heap_delete h g (f x) = Ret (h', g') \<and> heap_rep cmp h' g'
    \<and> elems_of h' = elems_of h - {#x#} \<and> size_h h' = size_h h
    \<and> (\<forall>y. y \<notin># elems_of h - {#x#} \<longrightarrow> g' y = g y)"
proof -
  let ?a = "array_h h"
  have inv: "length ?a = size_h h" "2 \<le> size_increment h" "compare_h h = cmp"
      "index_h h = record_index" "tracked (last_h h) {} ?a f"
      "last_h h = 0 \<or> filled (last_h h) ?a" "heap_ok cmp (last_h h) ?a"
    using rep by (auto simp: heap_rep_def heap_inv_def)
  obtain i where i: "1 \<le> i" "i \<le> last_h h" "elem_at ?a i = x" using x by (rule in_heapE)
  then have fx: "f x = i" using inv(5) by (auto simp: tracked_def)
  obtain n where n: "last_h h = Suc n" using i by (cases "last_h h") auto
  have fill: "filled (Suc n) ?a" using inv(6) n by simp
  have elems: "elems_of h = add_mset (elem_at ?a (Suc n)) (heap_elems n ?a)"
    by (simp add: n heap_elems_Suc)
  have gk: "g (elem_at ?a k) = k" if "1 \<le> k" "k \<le> Suc n" "k \<noteq> i" for k
  proof -
    have "f (elem_at ?a k) = k" using trackedD [OF inv(5)] n that by simp
    moreover from this fx that(3) have "elem_at ?a k \<noteq> x" by auto
    ultimately show ?thesis using g [of "elem_at ?a k"] elem_in_heap [of k "Suc n" ?a] that n by simp
  qed
  show ?thesis
  proof (cases "i = Suc n")
    case True
    with fx n have "isc_heap_delete h g (f x) = Ret (h\<lparr>last_h := n\<rparr>, g)"
      by (simp add: isc_heap_delete_def)
    moreover have "heap_rep cmp (h\<lparr>last_h := n\<rparr>) g"
      using inv n fill gk True
      by (auto simp: heap_rep_def heap_inv_def heap_ok_def tracked_def filled_def)
    ultimately show ?thesis using True i elems by auto
  next
    case False
    then have i': "i \<le> n" using i n by simp
    let ?y = "elem_at ?a (Suc n)" and ?b = "?a[i := Some (elem_at ?a (Suc n))]"
    let ?h = "h\<lparr>last_h := n, array_h := ?b\<rparr>" and ?E = "set_mset (elems_of h - {#x#})"
    have fn: "filled n ?a" and ok: "heap_ok cmp n ?a"
      using fill inv(7) n by (auto simp: filled_def heap_ok_def)
    have len: "i < length ?a" using fn i' by (simp add: filled_def)
    have run: "isc_heap_delete h g (f x) =
        (if cmp ?y (elem_at ?a i) then float_up ?h g i ?y else sink_down ?h g i ?y)"
      using False i n fx fill len inv(3)
      by (simp add: isc_heap_delete_def rdp_filled [of "Suc n"] Let_def)
    have inE: "elem_at ?a k \<in> ?E" if "1 \<le> k" "k \<le> Suc n" "k \<noteq> i" for k
    proof -
      have "elem_at ?a k \<noteq> x" using trackedD [OF inv(5), of k] fx that n by auto
      then show ?thesis using elem_in_heap [of k "Suc n" ?a] that n by (simp add: in_diff_count)
    qed
    have "follows ?E g n ?b g i" using gk inE by (auto simp: follows_def tracked_def nth_upd)
    from refill_hole [OF fn ok i(1) i', of ?h, OF _ _ _ _ this] inv(3,4) obtain a' f' i' where
      r: "isc_heap_delete h g (f x) =
          Ret (?h\<lparr>array_h := a'[i' := Some ?y]\<rparr>, call_index record_index ?y i' f')"
        "placed n ?b i ?y (a'[i' := Some ?y])" "follows ?E g n a' f' i'" "1 \<le> i'" "i' \<le> n"
      unfolding run by auto
    have elems_b: "heap_elems n ?b - {#elem_at ?b i#} = heap_elems n ?a - {#x#}"
      using heap_elems_update [OF len i(1) i', of ?y] len i by simp
    have "?y \<notin># heap_elems n ?a"
      using trackedD [OF inv(5), of "Suc n"] trackedD [OF inv(5)] n by (fastforce elim: in_heapE)
    then have "?y \<notin># heap_elems n ?b - {#elem_at ?b i#}"
      unfolding elems_b by (meson in_diffD)
    from placed_rep [OF r(2) _ r(4,5) i(1) i' this, of _ ?h] inv elems_b r(3)
    have rep': "heap_rep cmp (?h\<lparr>array_h := a'[i' := Some ?y]\<rparr>) (call_index record_index ?y i' f')"
      and el': "heap_elems n (a'[i' := Some ?y]) = add_mset ?y (heap_elems n ?a - {#x#})"
      by (auto simp: follows_def)
    have "elems_of h - {#x#} = add_mset ?y (heap_elems n ?a - {#x#})"
      using diff_union_single_conv [of x "heap_elems n ?a" "{#?y#}"] elems
        elem_in_heap [OF i(1) i', of ?a] i(3) by simp
    moreover have "?y \<in> ?E" using inE [of "Suc n"] False by simp
    ultimately show ?thesis
      using rep' el' r(1,3) by (auto simp: follows_def call_index_def)
  qed
qed

lemma delete_rep:
  assumes "heap_rep cmp h f" "x \<in># elems_of h"
  shows "\<exists>h' f'. isc_heap_delete h f (f x) = Ret (h', f') \<and> heap_rep cmp h' f'
    \<and> elems_of h' = elems_of h - {#x#}"
  using delete_at_rep [OF assms, of f] by auto

text \<open>
  After the rank of the element \<open>x\<close> has changed: \<open>old\<close> is the order the heap was built with, it
  agrees with \<open>cmp\<close> on the other elements, and \<open>x\<close> only moved to the front (or to the back) of
  the order.
\<close>

lemma reranked_hole:
  assumes "heap_order old" and rep: "heap_rep old h f" and x: "x \<in># elems_of h"
    and same: "\<And>y z. y \<noteq> x \<Longrightarrow> z \<noteq> x \<Longrightarrow> cmp y z = old y z"
  shows "1 \<le> f x" "f x \<le> last_h h" "rdp (array_h h) (f x) = Ret x"
    and "hole_ok cmp (last_h h) (array_h h) (f x)"
    and "follows (set_mset (elems_of h)) f (last_h h) (array_h h) f (f x)"
proof -
  let ?a = "array_h h" and ?n = "last_h h"
  have tr: "tracked ?n {} ?a f" and ok: "heap_ok old ?n ?a" and fl: "?n = 0 \<or> filled ?n ?a"
    using rep by (auto simp: heap_rep_def heap_inv_def)
  obtain i where i: "1 \<le> i" "i \<le> ?n" "elem_at ?a i = x" using x by (rule in_heapE)
  then have fx: "f x = i" using trackedD [OF tr, of i] by simp
  have fill: "filled ?n ?a" using fl i by auto
  show "1 \<le> f x" "f x \<le> ?n" using i fx by auto
  show "rdp ?a (f x) = Ret x" using rdp_filled [OF fill i(1,2)] i(3) fx by simp
  have other: "elem_at ?a k \<noteq> x" if "1 \<le> k" "k \<le> ?n" "k \<noteq> i" for k
    using trackedD [OF tr, of k] fx that by auto
  have "hole_ok old ?n ?a i"
    using heap_order.heap_ok_hole [OF assms(1) fill ok i(1,2)] .
  moreover have "cmp (elem_at ?a k) (elem_at ?a (heap_parent k)) = old (elem_at ?a k) (elem_at ?a (heap_parent k))"
    if "2 \<le> k" "k \<le> ?n" "k \<noteq> i" "heap_parent k \<noteq> i" for k
    using that by (intro same other) auto
  moreover have "cmp (elem_at ?a k) (elem_at ?a (heap_parent i)) = old (elem_at ?a k) (elem_at ?a (heap_parent i))"
    if "2 \<le> i" "k \<le> ?n" "heap_parent k = i" for k
    using that i by (intro same other) auto
  ultimately show "hole_ok cmp ?n ?a (f x)" unfolding fx by (auto simp: hole_ok_def)
  show "follows (set_mset (elems_of h)) f ?n ?a f (f x)"
    using tr elem_in_heap [of _ ?n ?a] by (auto simp: follows_def tracked_def)
qed

lemma reranked_rep:
  assumes "heap_order old" "heap_rep old h f" "x \<in># elems_of h"
    and "\<And>y z. y \<noteq> x \<Longrightarrow> z \<noteq> x \<Longrightarrow> cmp y z = old y z"
    and "placed (last_h h) (array_h h) (f x) x (a'[i' := Some x])"
    and "follows (set_mset (elems_of h)) f (last_h h) a' f' i'" "1 \<le> i'" "i' \<le> last_h h"
  shows "heap_rep cmp (h\<lparr>compare_h := cmp, array_h := a'[i' := Some x]\<rparr>) (call_index record_index x i' f')"
    and "heap_elems (last_h h) (a'[i' := Some x]) = elems_of h"
    and "y \<notin># elems_of h \<Longrightarrow> call_index record_index x i' f' y = f y"
proof -
  note hole = reranked_hole [OF assms(1-4)]
  let ?a = "array_h h" and ?n = "last_h h"
  have tr: "tracked ?n {} ?a f" and h: "length ?a = size_h h" "2 \<le> size_increment h" "index_h h = record_index"
    using assms(2) by (auto simp: heap_rep_def heap_inv_def)
  have ai: "elem_at ?a (f x) = x" using hole(3) by (auto simp: rdp_Ret)
  have "count (elems_of h) x = 1"
  proof -
    have "inj_on (elem_at ?a) {1..?n}" using tracked_distinct [OF tr] by simp
    then have "elems_of h = mset_set (elem_at ?a ` {1..?n})"
      by (simp add: heap_elems_def image_mset_mset_set)
    then show ?thesis using assms(3) by simp
  qed
  then have new: "x \<notin># elems_of h - {#elem_at ?a (f x)#}" using ai by (simp add: in_diff_count)
  have t: "tracked ?n {i'} a' f'" using assms(6) by (simp add: follows_def)
  from placed_rep [OF assms(5) t assms(7,8) hole(1,2) new, of "h\<lparr>compare_h := cmp\<rparr>"] h
  show "heap_rep cmp (h\<lparr>compare_h := cmp, array_h := a'[i' := Some x]\<rparr>) (call_index record_index x i' f')"
    and "heap_elems ?n (a'[i' := Some x]) = elems_of h"
    using assms(3) ai by simp_all
  show "call_index record_index x i' f' y = f y" if "y \<notin># elems_of h"
    using that assms(3,6) by (auto simp: follows_def call_index_def)
qed

lemma increased_rep:
  assumes old: "heap_order old" "heap_rep old h f" "x \<in># elems_of h"
    and same: "\<And>y z. y \<noteq> x \<Longrightarrow> z \<noteq> x \<Longrightarrow> cmp y z = old y z"
    and up: "\<And>y. \<not> old y x \<Longrightarrow> \<not> cmp y x"
  shows "\<exists>h' f'. isc_heap_increased (h\<lparr>compare_h := cmp\<rparr>) f (f x) = Ret (h', f') \<and> heap_rep cmp h' f'
    \<and> elems_of h' = elems_of h \<and> (\<forall>y. y \<notin># elems_of h \<longrightarrow> f' y = f y)"
proof -
  note hole = reranked_hole [OF old same]
  let ?h = "h\<lparr>compare_h := cmp\<rparr>" and ?n = "last_h h"
  have idx: "index_h h = record_index" and ok: "heap_ok old ?n (array_h h)"
    using old(2) by (auto simp: heap_rep_def heap_inv_def)
  have ai: "elem_at (array_h h) (f x) = x" using hole(3) by (auto simp: rdp_Ret)
  have "below_ok cmp ?n (array_h h) (f x) x"
    unfolding below_ok_def
  proof (intro allI impI)
    fix k assume k: "k \<le> ?n \<and> heap_parent k = f x"
    then have "2 \<le> k" using hole(1) by auto
    then have "\<not> old (elem_at (array_h h) k) (elem_at (array_h h) (heap_parent k))"
      using ok k unfolding heap_ok_def by blast
    with k ai up show "\<not> cmp (elem_at (array_h h) k) x" by simp
  qed
  with float_up_spec [of ?n ?h "follows (set_mset (elems_of h)) f ?n" f "f x" x] hole idx
    kept_by_moves_follows [of ?n "set_mset (elems_of h)" f]
  obtain a' f' i' where r: "float_up ?h f (f x) x =
        Ret (?h\<lparr>array_h := a'[i' := Some x]\<rparr>, call_index record_index x i' f')"
      "placed ?n (array_h h) (f x) x (a'[i' := Some x])"
      "follows (set_mset (elems_of h)) f ?n a' f' i'" "1 \<le> i'" "i' \<le> ?n" by auto
  then show ?thesis
    using reranked_rep [OF old same r(2-5)] hole(1-3) by (simp add: isc_heap_increased_def)
qed

lemma decreased_rep:
  assumes old: "heap_order old" "heap_rep old h f" "x \<in># elems_of h"
    and same: "\<And>y z. y \<noteq> x \<Longrightarrow> z \<noteq> x \<Longrightarrow> cmp y z = old y z"
    and down: "\<And>y. \<not> old x y \<Longrightarrow> \<not> cmp x y"
  shows "\<exists>h' f'. isc_heap_decreased (h\<lparr>compare_h := cmp\<rparr>) f (f x) = Ret (h', f') \<and> heap_rep cmp h' f'
    \<and> elems_of h' = elems_of h \<and> (\<forall>y. y \<notin># elems_of h \<longrightarrow> f' y = f y)"
proof -
  note hole = reranked_hole [OF old same]
  let ?h = "h\<lparr>compare_h := cmp\<rparr>" and ?n = "last_h h"
  have idx: "index_h h = record_index" and ok: "heap_ok old ?n (array_h h)"
    using old(2) by (auto simp: heap_rep_def heap_inv_def)
  have ai: "elem_at (array_h h) (f x) = x" using hole(3) by (auto simp: rdp_Ret)
  have "above_ok cmp (array_h h) (f x) x"
    unfolding above_ok_def
  proof
    assume "2 \<le> f x"
    then have "\<not> old (elem_at (array_h h) (f x)) (elem_at (array_h h) (heap_parent (f x)))"
      using ok hole(2) by (simp add: heap_ok_def)
    with ai down show "\<not> cmp x (elem_at (array_h h) (heap_parent (f x)))" by simp
  qed
  with sink_down_spec [of ?n ?h "follows (set_mset (elems_of h)) f ?n" f "f x" x] hole idx
    kept_by_moves_follows [of ?n "set_mset (elems_of h)" f]
  obtain a' f' i' where r: "sink_down ?h f (f x) x =
        Ret (?h\<lparr>array_h := a'[i' := Some x]\<rparr>, call_index record_index x i' f')"
      "placed ?n (array_h h) (f x) x (a'[i' := Some x])"
      "follows (set_mset (elems_of h)) f ?n a' f' i'" "1 \<le> i'" "i' \<le> ?n" by auto
  then show ?thesis
    using reranked_rep [OF old same r(2-5)] hole(1-3) by (simp add: isc_heap_decreased_def)
qed

lemma first_rep:
  assumes rep: "heap_rep cmp h f" and ne: "elems_of h \<noteq> {#}"
  shows "\<exists>x. isc_heap_element h 1 = Ret (Some x) \<and> x \<in># elems_of h \<and> f x = 1
    \<and> (\<forall>y \<in># elems_of h. \<not> cmp y x)"
proof -
  let ?a = "array_h h"
  have pos: "1 \<le> last_h h" using ne by (cases "last_h h") (auto simp: heap_elems_def)
  then have fill: "filled (last_h h) ?a" and ok: "heap_ok cmp (last_h h) ?a"
      and track: "tracked (last_h h) {} ?a f"
    using rep by (auto simp: heap_rep_def heap_inv_def)
  have "rd ?a 1 = Ret (Some (elem_at ?a 1))"
    using fill pos by (auto simp: filled_def)
  then have "isc_heap_element h 1 = Ret (Some (elem_at ?a 1))"
    using pos by (simp add: isc_heap_element_def)
  moreover have "\<not> cmp y (elem_at ?a 1)" if "y \<in># elems_of h" for y
    using that root_minimal [OF ok] by (auto elim: in_heapE)
  ultimately show ?thesis
    using pos track elem_in_heap [of 1 "last_h h" ?a]
    by (intro exI [of _ "elem_at ?a 1"]) (auto simp: tracked_def)
qed

end

end
