(* ===== verification/Mdb6.thy ===== *)
theory Mdb6
  imports Isc_Heap
begin

text \<open>
  The lease database for DHCPv6, \<open>server/mdb6.c\<close>. Leases (\<open>struct iasubopt\<close>) live in a store
  indexed by their addresses; the field \<open>heap_index\<close>, which the heap maintains through a
  callback, is kept as a map of its own. The heap is the one of \<open>common/heap.c\<close>; the server is linked
  with the heap of \<open>libisc\<close>, which has the same contract.
\<close>

type_synonym sid = nat
type_synonym in6_addr = "byte list"

record iasubopt =
  addr6 :: in6_addr
  plen6 :: nat
  state6 :: byte
  scope6 :: "nat option"
  hard_lifetime_end_time :: int
  soft_lifetime_end_time :: int
  prefer6 :: u32
  valid6 :: u32
  ia6 :: "nat option"
  ipv6_pool6 :: "nat option"
  on_expiry6 :: "nat option"
  on_commit6 :: "nat option"
  on_release6 :: "nat option"

type_synonym store6 = "sid \<Rightarrow> iasubopt"

section \<open>The order of the timeout heaps\<close>

text \<open>\<open>difftime\<close> of two times is negative when the first one is earlier.\<close>

definition lease_older :: "store6 \<Rightarrow> sid \<Rightarrow> sid \<Rightarrow> bool" where
  "lease_older s a b =
     (if hard_lifetime_end_time (s a) = hard_lifetime_end_time (s b)
      then soft_lifetime_end_time (s a) < soft_lifetime_end_time (s b)
      else hard_lifetime_end_time (s a) < hard_lifetime_end_time (s b))"

definition lease_index_changed :: "sid \<Rightarrow> nat \<Rightarrow> (sid \<Rightarrow> nat) \<Rightarrow> sid \<Rightarrow> nat" where
  "lease_index_changed l new_heap_index idx = idx(l := new_heap_index)"

lemma lease_index_changed_record: "Some lease_index_changed = record_index"
  by (simp add: lease_index_changed_def [abs_def])

text \<open>\<open>lease_older\<close> is what the heap relies on: a strict weak order.\<close>

interpretation older: heap_order "lease_older s"
  by unfold_locales (auto simp: lease_older_def split: if_splits)

section \<open>Properties of the timeout heaps\<close>

text \<open>A store and a heap of one lease, for examples.\<close>

definition iasubopt_until :: "int \<Rightarrow> iasubopt" where
  "iasubopt_until t = \<lparr>addr6 = replicate 16 0, plen6 = 0, state6 = 2, scope6 = None,
     hard_lifetime_end_time = t, soft_lifetime_end_time = 0, prefer6 = 0, valid6 = 0, ia6 = None,
     ipv6_pool6 = None, on_expiry6 = None, on_commit6 = None, on_release6 = None\<rparr>"

definition one_heap :: "store6 \<Rightarrow> sid \<Rightarrow> (sid, sid \<Rightarrow> nat) isc_heap" where
  "one_heap s l = \<lparr>size_h = 4, size_increment = 1024, last_h = 1, array_h = [None, Some l, None, None],
     compare_h = lease_older s, index_h = record_index\<rparr>"

lemma one_heap_rep: "idx l = 1 \<Longrightarrow> heap_rep (lease_older s) (one_heap s l) idx"
  by (auto simp: heap_rep_def heap_inv_def one_heap_def filled_def heap_ok_def tracked_def less_Suc_eq
      numeral_eq_Suc le_Suc_eq)

lemma elems_one_heap: "elems_of (one_heap s l) = {#l#}"
  by (simp add: one_heap_def heap_elems_def)

text \<open>C19: inserting a lease into a timeout heap keeps the heap: with memory for the array, the
  call succeeds, the heap order by lifetime holds, the heap has the old leases and the new
  one, and \<open>heap_index\<close> of every lease in it is its position.\<close>

theorem heap_insert_keeps_heap:
  assumes "heap_rep (lease_older s) h idx" "l \<notin># elems_of h" "last_h h + 1 < size_h h \<or> alloc_ok"
  shows "\<exists>h' idx'. isc_heap_insert alloc_ok h idx l = Ret (ISC_R_SUCCESS, h', idx')
    \<and> heap_rep (lease_older s) h' idx' \<and> elems_of h' = add_mset l (elems_of h)"
  using older.insert_rep [OF assms] by blast

theorem heap_insert_keeps_heap_witness:
  "\<exists>h' idx'. isc_heap_insert True (one_heap (\<lambda>k. iasubopt_until (int k)) 7) (\<lambda>_. 1) 3
      = Ret (ISC_R_SUCCESS, h', idx')
    \<and> heap_rep (lease_older (\<lambda>k. iasubopt_until (int k))) h' idx'
    \<and> elems_of h' = add_mset 3 (elems_of (one_heap (\<lambda>k. iasubopt_until (int k)) 7))"
  by (rule heap_insert_keeps_heap) (simp_all add: one_heap_rep elems_one_heap)

text \<open>C11: deleting a lease by its \<open>heap_index\<close> takes out that lease and no other one, and keeps the
  heap and the indices of the remaining leases right.\<close>

theorem heap_delete_removes_lease:
  assumes "heap_rep (lease_older s) h idx" "l \<in># elems_of h"
  shows "\<exists>h' idx'. isc_heap_delete h idx (idx l) = Ret (h', idx')
    \<and> heap_rep (lease_older s) h' idx' \<and> elems_of h' = elems_of h - {#l#}"
  by (rule older.delete_rep [OF assms])

theorem heap_delete_removes_lease_witness:
  "\<exists>h' idx'. isc_heap_delete (one_heap (\<lambda>k. iasubopt_until (int k)) 7) (\<lambda>_. 1) ((\<lambda>_. 1) 7) = Ret (h', idx')
    \<and> heap_rep (lease_older (\<lambda>k. iasubopt_until (int k))) h' idx'
    \<and> elems_of h' = elems_of (one_heap (\<lambda>k. iasubopt_until (int k)) 7) - {#7#}"
  by (rule heap_delete_removes_lease) (simp_all add: one_heap_rep elems_one_heap)

text \<open>element 1 of a timeout heap is a lease that no other lease of the heap is older than,
  so the lease looked at for expiry is always the next one due.\<close>

theorem heap_element_one_is_oldest:
  assumes "heap_rep (lease_older s) h idx" "elems_of h \<noteq> {#}"
  shows "\<exists>l. isc_heap_element h 1 = Ret (Some l) \<and> l \<in># elems_of h \<and> idx l = 1
    \<and> (\<forall>k \<in># elems_of h. \<not> lease_older s k l)"
  by (rule older.first_rep [OF assms])

end
