(* ===== verification/Addr6.thy ===== *)
theory Addr6
  imports Mdb6
begin

text \<open>
  How the DHCPv6 server makes up addresses and prefixes and finds the pool of an address: the
  functions of \<open>server/mdb6.c\<close> on \<open>struct in6_addr\<close>. MD5 is a parameter, a function from the
  digested bytes to the digest; the random numbers are a parameter too. The C code works on
  \<open>char\<close> pointers into the 16 bytes of an address, here the address is a list of bytes that is read
  and written by index.
\<close>

section \<open>Building addresses and prefixes\<close>

text \<open>The loop \<open>for (i = 0; i < net_bytes; i++) str[i] = net_str[i];\<close>\<close>

fun copy_net :: "byte list \<Rightarrow> byte list \<Rightarrow> nat \<Rightarrow> nat \<Rightarrow> byte list cres" where
  "copy_net net_str str i 0 = Ret str"
| "copy_net net_str str i (Suc n) =
     bindC (rd net_str i) (\<lambda>b. bindC (wr str i b) (\<lambda>str. copy_net net_str str (i + 1) n))"

text \<open>One case of the switch on the bits left over.\<close>

definition merge_byte :: "byte list \<Rightarrow> byte list \<Rightarrow> nat \<Rightarrow> byte \<Rightarrow> byte \<Rightarrow> byte list cres" where
  "merge_byte str net_str i low high =
     bindC (rd str i) (\<lambda>s. bindC (rd net_str i) (\<lambda>n. wr str i ((s AND low) OR (n AND high))))"

definition merge_bits :: "nat \<Rightarrow> byte list \<Rightarrow> byte list \<Rightarrow> nat \<Rightarrow> byte list cres" where
  "merge_bits r str net_str i =
     (if r = 1 then merge_byte str net_str i 0x7F 0x80
      else if r = 2 then merge_byte str net_str i 0x3F 0xC0
      else if r = 3 then merge_byte str net_str i 0x1F 0xE0
      else if r = 4 then merge_byte str net_str i 0x0F 0xF0
      else if r = 5 then merge_byte str net_str i 0x07 0xF8
      else if r = 6 then merge_byte str net_str i 0x03 0xFC
      else if r = 7 then merge_byte str net_str i 0x01 0xFE
      else Ret str)"

definition build_address6 ::
  "(byte list \<Rightarrow> byte list) \<Rightarrow> in6_addr \<Rightarrow> nat \<Rightarrow> byte list \<Rightarrow> in6_addr cres" where
  "build_address6 md5 net_start_addr net_bits input =
     bindC (copy_net net_start_addr (md5 input) 0 (net_bits div 8)) (\<lambda>str.
     bindC (merge_bits (net_bits mod 8) str net_start_addr (net_bits div 8)) (\<lambda>str.
     if net_bits = 64 then bindC (rd str 8) (\<lambda>b. wr str 8 (b AND NOT 0x02)) else Ret str))"

definition EUI_64_ID_LEN :: nat where
  "EUI_64_ID_LEN = 12"

definition IAID_LEN :: nat where
  "IAID_LEN = 4"

definition valid_eui_64_duid :: "byte list \<Rightarrow> nat \<Rightarrow> bool" where
  "valid_eui_64_duid uid off =
     (length uid = off + EUI_64_ID_LEN
       \<and> (uid ! off = 0 \<and> uid ! (off + 1) = 0x03) \<and> (uid ! (off + 2) = 0 \<and> uid ! (off + 3) = 0x1b))"

text \<open>\<open>addr\<close> is the address object of the caller, which a failing call leaves as it is.\<close>

definition build_address6_eui_64 ::
  "in6_addr \<Rightarrow> in6_addr \<Rightarrow> nat \<Rightarrow> byte list \<Rightarrow> nat \<Rightarrow> (isc_result \<times> in6_addr) cres" where
  "build_address6_eui_64 addr net_start_addr net_bits iaid_duid duid_beg =
     (if net_bits \<noteq> 64 then Ret (ISC_R_FAILURE, addr)
      else if valid_eui_64_duid iaid_duid duid_beg then
        bindC (rdn net_start_addr 0 8) (\<lambda>net.
        bindC (wrn addr 0 net) (\<lambda>a.
        bindC (rdn iaid_duid (duid_beg + 4) 8) (\<lambda>ll.
        bindC (wrn a 8 ll) (\<lambda>a.
        bindC (rd a 8) (\<lambda>b.
        bindC (wr a 8 (b OR 0x02)) (\<lambda>a. Ret (ISC_R_SUCCESS, a)))))))
      else Ret (ISC_R_FAILURE, addr))"

definition valid_for_eui_64_pool ::
  "bool \<Rightarrow> in6_addr \<Rightarrow> nat \<Rightarrow> byte list \<Rightarrow> nat \<Rightarrow> in6_addr \<Rightarrow> bool cres" where
  "valid_for_eui_64_pool use_eui_64 start_addr bits uid duid_beg ia_addr =
     (if \<not> use_eui_64 then Ret False
      else if \<not> valid_eui_64_duid uid duid_beg then Ret False
      else bindC (build_address6_eui_64 (replicate 16 0) start_addr bits uid duid_beg) (\<lambda>(_, test_addr).
        Ret (ia_addr = test_addr)))"

text \<open>The static variables of \<open>build_temporary6\<close>.\<close>

record temp6 =
  history :: "byte list"
  counter :: u32

definition build_temporary6 :: "(byte list \<Rightarrow> byte list) \<Rightarrow> byte list \<Rightarrow> temp6 \<Rightarrow> in6_addr \<Rightarrow> in6_addr \<Rightarrow> nat
    \<Rightarrow> byte list \<Rightarrow> (in6_addr \<times> temp6) cres" where
  "build_temporary6 md5 random t addr net_start_addr net_bits input =
     (let t = (if counter t = 0 then t\<lparr>history := random\<rparr> else t);
          md = md5 (history t @ input)
      in bindC
           (if net_bits = 64 then
              bindC (rdn net_start_addr 0 8) (\<lambda>net.
              bindC (wrn addr 0 net) (\<lambda>a.
              bindC (rdn md 0 8) (\<lambda>iid.
              bindC (wrn a 8 iid) (\<lambda>a.
              bindC (rd a 8) (\<lambda>b. wr a 8 (b AND NOT 0x02))))))
            else
              bindC (copy_net net_start_addr addr 0 (net_bits div 8)) (\<lambda>str.
              bindC (definedC (net_bits div 8 \<le> 16)) (\<lambda>_.
              bindC (rdn md 0 (16 - net_bits div 8)) (\<lambda>host.
              bindC (wrn str (net_bits div 8) host) (\<lambda>str.
                merge_bits (net_bits mod 8) str net_start_addr (net_bits div 8))))))
           (\<lambda>a. bindC (rdn md 8 8) (\<lambda>h. Ret (a, t\<lparr>history := h, counter := counter t + 1\<rparr>))))"

text \<open>The loop \<open>for (i = net_bytes + 1; i < 16; i++) str[i] = 0;\<close>\<close>

fun zero_from :: "byte list \<Rightarrow> nat \<Rightarrow> nat \<Rightarrow> byte list cres" where
  "zero_from str i 0 = Ret str"
| "zero_from str i (Suc n) = bindC (wr str i 0) (\<lambda>str. zero_from str (i + 1) n)"

definition prefix_mask :: "nat \<Rightarrow> byte" where
  "prefix_mask r =
     (if r = 0 then 0 else if r = 1 then 0x80 else if r = 2 then 0xC0 else if r = 3 then 0xE0
      else if r = 4 then 0xF0 else if r = 5 then 0xF8 else if r = 6 then 0xFC else 0xFE)"

definition build_prefix6 ::
  "(byte list \<Rightarrow> byte list) \<Rightarrow> in6_addr \<Rightarrow> nat \<Rightarrow> nat \<Rightarrow> byte list \<Rightarrow> in6_addr cres" where
  "build_prefix6 md5 net_start_pref pool_bits pref_bits input =
     bindC (copy_net net_start_pref (md5 input) 0 (pool_bits div 8)) (\<lambda>str.
     bindC (merge_bits (pool_bits mod 8) str net_start_pref (pool_bits div 8)) (\<lambda>str.
     bindC (zero_from str (pref_bits div 8 + 1) (16 - (pref_bits div 8 + 1))) (\<lambda>str.
     bindC (rd str (pref_bits div 8)) (\<lambda>b.
       wr str (pref_bits div 8) (b AND prefix_mask (pref_bits mod 8))))))"

section \<open>Networks\<close>

definition bitmasks :: "byte list" where
  "bitmasks = [0x00, 0xFE, 0xFC, 0xF8, 0xF0, 0xE0, 0xC0, 0x80]"

text \<open>The loop that zeroes bytes backwards; \<open>p\<close> is \<open>addrp + 1\<close>.\<close>

fun zero_back :: "byte list \<Rightarrow> nat \<Rightarrow> nat \<Rightarrow> (byte list \<times> nat) cres" where
  "zero_back a p 0 = Ret (a, p)"
| "zero_back a p (Suc n) =
     bindC (definedC (0 < p)) (\<lambda>_. bindC (wr a (p - 1) 0) (\<lambda>a. zero_back a (p - 1) n))"

definition ipv6_network_portion :: "in6_addr \<Rightarrow> nat \<Rightarrow> in6_addr cres" where
  "ipv6_network_portion addr bits =
     bindC (assertC (bits \<le> 128)) (\<lambda>_.
     let mask_bits = 128 - bits; bytes = mask_bits div 8; extra_bits = mask_bits mod 8
     in bindC (zero_back addr 16 bytes) (\<lambda>(a, p).
        if extra_bits \<noteq> 0 then
          bindC (definedC (0 < p)) (\<lambda>_.
          bindC (rd a (p - 1)) (\<lambda>b.
          bindC (rd bitmasks extra_bits) (\<lambda>m. wr a (p - 1) (b AND m))))
        else Ret a))"

text \<open>\<open>start_addr\<close> and \<open>bits\<close> are those of the pool.\<close>

definition ipv6_in_pool :: "in6_addr \<Rightarrow> in6_addr \<Rightarrow> nat \<Rightarrow> bool cres" where
  "ipv6_in_pool addr start_addr bits =
     bindC (ipv6_network_portion addr bits) (\<lambda>tmp. Ret (tmp = start_addr))"

section \<open>Choosing a free address or prefix\<close>

definition D6O_IA_NA :: nat where
  "D6O_IA_NA = 3"

definition D6O_IA_TA :: nat where
  "D6O_IA_TA = 4"

definition D6O_IA_PD :: nat where
  "D6O_IA_PD = 25"

definition rtany :: in6_addr where
  "rtany = replicate 16 0"

definition resany :: in6_addr where
  "resany = replicate 8 0 @ [0xfd] @ replicate 6 0xff @ [0]"

text \<open>\<open>memcmp\<close> of parts of two addresses.\<close>

definition same_part :: "in6_addr \<Rightarrow> in6_addr \<Rightarrow> nat \<Rightarrow> nat \<Rightarrow> bool" where
  "same_part a b i n = (take n (drop i a) = take n (drop i b))"

definition reserved_iid :: "in6_addr \<Rightarrow> bool" where
  "reserved_iid tmp =
     (same_part tmp rtany 8 8 \<or> (same_part tmp resany 8 7 \<and> (tmp ! 15) AND 0x80 = 0x80))"

text \<open>
  The loop of \<open>create_lease6\<close>. \<open>in_use\<close> is the outcome of the lookup in the hash table of leases,
  \<open>alloc k\<close> the outcome of the allocation in the attempt \<open>k\<close>, \<open>random k\<close> the random numbers drawn
  there. The result has the address found, if any, and the number of attempts.
\<close>

definition build_lease6 :: "(byte list \<Rightarrow> byte list) \<Rightarrow> byte list \<Rightarrow> nat \<Rightarrow> in6_addr \<Rightarrow> nat \<Rightarrow> in6_addr \<Rightarrow> temp6
    \<Rightarrow> byte list \<Rightarrow> ((in6_addr \<times> temp6) option) cres" where
  "build_lease6 md5 random pool_type start_addr bits tmp t ds =
     (if pool_type = D6O_IA_NA then
        bindC (build_address6 md5 start_addr bits ds) (\<lambda>a. Ret (Some (a, t)))
      else if pool_type = D6O_IA_TA then
        bindC (build_temporary6 md5 random t tmp start_addr bits ds) (\<lambda>p. Ret (Some p))
      else Ret None)"

function choose_lease6 :: "(byte list \<Rightarrow> byte list) \<Rightarrow> (nat \<Rightarrow> byte list) \<Rightarrow> (nat \<Rightarrow> bool) \<Rightarrow> (in6_addr \<Rightarrow> bool)
    \<Rightarrow> nat \<Rightarrow> in6_addr \<Rightarrow> nat \<Rightarrow> in6_addr \<Rightarrow> temp6 \<Rightarrow> byte list \<Rightarrow> nat
    \<Rightarrow> (isc_result \<times> in6_addr \<times> nat \<times> temp6) cres" where
  "choose_lease6 md5 random alloc in_use pool_type start_addr bits tmp t ds attempts =
     (let attempts = attempts + 1
      in if attempts > 100 then Ret (ISC_R_NORESOURCES, tmp, attempts, t)
         else bindC (build_lease6 md5 (random attempts) pool_type start_addr bits tmp t ds) (\<lambda>r.
           case r of None \<Rightarrow> Ret (DHCP_R_INVALIDARG, tmp, attempts, t)
           | Some (tmp, t) \<Rightarrow>
               if \<not> reserved_iid tmp \<and> \<not> in_use tmp then Ret (ISC_R_SUCCESS, tmp, attempts, t)
               else if \<not> alloc attempts then Ret (ISC_R_NOMEMORY, tmp, attempts, t)
               else choose_lease6 md5 random alloc in_use pool_type start_addr bits tmp t (ds @ tmp) attempts))"
  by pat_completeness auto
termination
  by (relation "measure (\<lambda>(md5, random, alloc, in_use, pool_type, start_addr, bits, tmp, t, ds, attempts).
        100 - attempts)") auto

declare choose_lease6.simps [simp del]

text \<open>The loop of \<open>create_prefix6\<close>.\<close>

function choose_prefix6 :: "(byte list \<Rightarrow> byte list) \<Rightarrow> (nat \<Rightarrow> bool) \<Rightarrow> (in6_addr \<Rightarrow> bool)
    \<Rightarrow> in6_addr \<Rightarrow> nat \<Rightarrow> nat \<Rightarrow> in6_addr \<Rightarrow> byte list \<Rightarrow> nat \<Rightarrow> (isc_result \<times> in6_addr \<times> nat) cres" where
  "choose_prefix6 md5 alloc in_use start_addr bits units tmp ds attempts =
     (let attempts = attempts + 1
      in if attempts > 10 then Ret (ISC_R_NORESOURCES, tmp, attempts)
         else bindC (build_prefix6 md5 start_addr bits units ds) (\<lambda>tmp.
           if \<not> in_use tmp then Ret (ISC_R_SUCCESS, tmp, attempts)
           else if \<not> alloc attempts then Ret (ISC_R_NOMEMORY, tmp, attempts)
           else choose_prefix6 md5 alloc in_use start_addr bits units tmp (ds @ tmp) attempts))"
  by pat_completeness auto
termination
  by (relation "measure (\<lambda>(md5, alloc, in_use, start_addr, bits, units, tmp, ds, attempts). 10 - attempts)") auto

declare choose_prefix6.simps [simp del]

section \<open>Network prefixes\<close>

lemma copy_net_spec:
  "i + n \<le> length net \<Longrightarrow> i + n \<le> length str \<Longrightarrow> copy_net net str i n = Ret (put str i (take n (drop i net)))"
proof (induction n arbitrary: i str)
  case (Suc n)
  then have "copy_net net str i (Suc n) = Ret (put (str[i := net ! i]) (i + 1) (take n (drop (i + 1) net)))"
    by simp
  also have "put (str[i := net ! i]) (i + 1) (take n (drop (i + 1) net)) = put str i (take (Suc n) (drop i net))"
    using Suc.prems Cons_nth_drop_Suc [of i net]
    by (simp add: put_def take_Suc_conv_app_nth upd_conv_take_nth_drop min_def take_Cons' ac_simps flip: Cons_nth_drop_Suc)
  finally show ?case .
qed simp

lemma copy_net_0: "n \<le> length net \<Longrightarrow> n \<le> length str \<Longrightarrow> copy_net net str 0 n = Ret (take n net @ drop n str)"
  using copy_net_spec [of 0 n net str] by (simp add: put_def min_def)

lemma small_cases:
  assumes "r < (8 :: nat)"
  obtains "r = 0" | "r = 1" | "r = 2" | "r = 3" | "r = 4" | "r = 5" | "r = 6" | "r = 7"
  using assms by linarith

lemma merge_byte_spec:
  "i < length str \<Longrightarrow> i < length net
    \<Longrightarrow> merge_byte str net i low high = Ret (str[i := (str ! i AND low) OR (net ! i AND high)])"
  by (simp add: merge_byte_def)

lemma low_masks:
  "- 129 = (0x7F :: byte)" "- 193 = (0x3F :: byte)" "- 225 = (0x1F :: byte)" "- 241 = (0x0F :: byte)"
  "- 249 = (0x07 :: byte)" "- 253 = (0x03 :: byte)" "- 255 = (0x01 :: byte)"
  by code_simp+

lemma merge_bits_spec:
  assumes "r < 8" "r = 0 \<or> i < length str \<and> i < length net"
  shows "merge_bits r str net i = Ret (str[i := (str ! i AND NOT (prefix_mask r)) OR (net ! i AND prefix_mask r)])"
  using assms(1)
  by (rule small_cases) (use assms(2) in \<open>simp_all add: merge_bits_def merge_byte_spec prefix_mask_def low_masks\<close>)

lemma merged_byte:
  "((x AND NOT m) OR (y AND m)) AND m = y AND (m :: byte)"
  by (rule bit_word_eqI) (auto simp: bit_simps)

text \<open>An address has the first \<open>bits\<close> bits of \<open>start\<close>.\<close>

definition on_network :: "in6_addr \<Rightarrow> nat \<Rightarrow> in6_addr \<Rightarrow> bool" where
  "on_network start bits a \<longleftrightarrow> length a = 16 \<and> take (bits div 8) a = take (bits div 8) start
     \<and> (bits < 128 \<longrightarrow> (a ! (bits div 8)) AND prefix_mask (bits mod 8)
          = (start ! (bits div 8)) AND prefix_mask (bits mod 8))"

definition net_part :: "in6_addr \<Rightarrow> nat \<Rightarrow> in6_addr" where
  "net_part a bits = take (bits div 8) a
     @ (if bits < 128 then ((a ! (bits div 8)) AND prefix_mask (bits mod 8)) # replicate (15 - bits div 8) 0 else [])"

lemma length_net_part: "length a = 16 \<Longrightarrow> bits \<le> 128 \<Longrightarrow> length (net_part a bits) = 16"
  by (auto simp: net_part_def)

lemma on_network_net_part: "on_network start bits a \<Longrightarrow> net_part a bits = net_part start bits"
  by (auto simp: on_network_def net_part_def)

lemma zero_back_spec:
  "n \<le> p \<Longrightarrow> p \<le> length a \<Longrightarrow> zero_back a p n = Ret (take (p - n) a @ replicate n 0 @ drop p a, p - n)"
proof (induction n arbitrary: a p)
  case (Suc n)
  obtain q where p: "p = Suc q" using Suc.prems by (cases p) auto
  have "zero_back a p (Suc n) = zero_back (a[q := 0]) q n" using Suc.prems by (simp add: p)
  also have "\<dots> = Ret (take (q - n) (a[q := 0]) @ replicate n 0 @ drop q (a[q := 0]), q - n)"
    using Suc.prems by (intro Suc.IH) (simp_all add: p)
  also have "drop q (a[q := 0]) = 0 # drop p a" using Suc.prems by (simp add: p upd_conv_take_nth_drop)
  finally show ?case using Suc.prems by (simp add: p replicate_append_same)
qed simp

lemma bitmasks_prefix_mask: "0 < r \<Longrightarrow> r < 8 \<Longrightarrow> bitmasks ! (8 - r) = prefix_mask r"
  by (elim small_cases) (simp_all add: bitmasks_def prefix_mask_def)

lemma bits_split:
  fixes bits :: nat
  assumes "bits \<le> 128"
  obtains (whole) q where "bits = 8 * q" "q \<le> 16"
  | (part) q r where "bits = 8 * q + r" "0 < r" "r < 8" "q < 16"
proof -
  define q r where "q = bits div 8" and "r = bits mod 8"
  have b: "bits = 8 * q + r" "r < 8" by (simp_all add: q_def r_def)
  show ?thesis
  proof (cases "r = 0")
    case True
    with b assms have "bits = 8 * q" "q \<le> 16" by linarith+
    then show ?thesis by (rule whole)
  next
    case False
    with b assms have "q < 16" by linarith
    with False b show ?thesis by (intro part) auto
  qed
qed

lemma ipv6_network_portion_spec:
  assumes len: "length a = 16" and b: "bits \<le> 128"
  shows "ipv6_network_portion a bits = Ret (net_part a bits)"
  using b
proof (cases rule: bits_split)
  case (whole q)
  have m: "128 - 8 * q = 8 * (16 - q)" by simp
  have "ipv6_network_portion a bits = Ret (take q a @ replicate (16 - q) 0)"
    using zero_back_spec [of "16 - q" 16 a] whole len by (simp add: ipv6_network_portion_def m)
  also have "\<dots> = Ret (net_part a bits)"
    using whole len by (cases "q = 16") (auto simp: net_part_def prefix_mask_def Suc_diff_le simp flip: replicate_Suc)
  finally show ?thesis .
next
  case (part q r)
  have m: "128 - (8 * q + r) = 8 * (15 - q) + (8 - r)" using part by linarith
  have split8: "(8 * p + s) div 8 = p" "(8 * p + s) mod 8 = s" if "s < 8" for p s :: nat
    using that by simp_all
  have d: "(8 * (15 - q) + (8 - r)) div 8 = 15 - q" "(8 * (15 - q) + (8 - r)) mod 8 = 8 - r" "16 - (15 - q) = Suc q"
    using split8 [of "8 - r" "15 - q"] part by auto
  have br: "(8 * q + r) div 8 = q" "(8 * q + r) mod 8 = r" using part by simp_all
  have l: "8 - r < length bitmasks" using part by (simp add: bitmasks_def)
  show ?thesis
    using zero_back_spec [of "15 - q" 16 a] part len bitmasks_prefix_mask [of r] l
    unfolding part(1) ipv6_network_portion_def net_part_def m d br Let_def
    by (simp add: d(3) take_Suc_conv_app_nth list_update_append nth_append)
qed

lemma in_pool_spec:
  assumes "length a = 16" "bits \<le> 128"
  shows "ipv6_in_pool a start bits = Ret (net_part a bits = start)"
  using assms by (simp add: ipv6_in_pool_def ipv6_network_portion_spec)

section \<open>Built addresses are in the network\<close>

text \<open>The network bits are copied over: byte by byte, then the bits of the byte that is split.\<close>

lemma network_bits_copied:
  assumes len: "length str = 16" "length start = 16" and b: "bits \<le> 128"
  shows "\<exists>a. bindC (copy_net start str 0 (bits div 8)) (\<lambda>s. merge_bits (bits mod 8) s start (bits div 8)) = Ret a
    \<and> on_network start bits a"
proof -
  let ?q = "bits div 8" and ?r = "bits mod 8"
  let ?s = "take ?q start @ drop ?q str"
  let ?a = "?s[?q := (?s ! ?q AND NOT (prefix_mask ?r)) OR (start ! ?q AND prefix_mask ?r)]"
  have q: "?q \<le> 16" using div_le_mono [OF b, of 8] by simp
  have lt: "?q < 16" if "bits < 128" using that less_mult_imp_div_less [of bits 16 8] by simp
  have r: "?r = 0 \<or> ?q < 16"
  proof (cases "bits < 128")
    case True
    with lt show ?thesis by blast
  next
    case False
    with b have "bits = 128" by simp
    then show ?thesis by simp
  qed
  have c: "copy_net start str 0 ?q = Ret ?s" using copy_net_0 q len by simp
  have "merge_bits ?r ?s start ?q = Ret ?a"
    using r len q by (intro merge_bits_spec) auto
  moreover have "on_network start bits ?a"
    unfolding on_network_def
  proof (intro conjI impI)
    show "length ?a = 16" "take ?q ?a = take ?q start" using len q by simp_all
    assume "bits < 128"
    then have "?q < length ?s" using len lt by simp
    then show "?a ! ?q AND prefix_mask ?r = start ! ?q AND prefix_mask ?r"
      by (simp only: nth_list_update_eq merged_byte)
  qed
  ultimately show ?thesis unfolding c bindC.simps by blast
qed

lemma on_network_host_byte: "on_network start 64 a \<Longrightarrow> on_network start 64 (a[8 := x])"
  by (simp add: on_network_def prefix_mask_def)

lemma build_address6_network:
  assumes "length (md5 input) = 16" "length start = 16" "bits \<le> 128"
  shows "\<exists>a. build_address6 md5 start bits input = Ret a \<and> on_network start bits a"
proof -
  obtain a where "bindC (copy_net start (md5 input) 0 (bits div 8))
      (\<lambda>s. merge_bits (bits mod 8) s start (bits div 8)) = Ret a" "on_network start bits a"
    using network_bits_copied [OF assms] by blast
  then have "build_address6 md5 start bits input =
      (if bits = 64 then bindC (rd a 8) (\<lambda>b. wr a 8 (b AND NOT 0x02)) else Ret a)"
    unfolding build_address6_def bindC_assoc [symmetric] by simp
  moreover have "length a = 16" using \<open>on_network start bits a\<close> by (simp add: on_network_def)
  ultimately show ?thesis
    using \<open>on_network start bits a\<close> on_network_host_byte by auto
qed

text \<open>Here the host part is written over the buffer between the two steps.\<close>

lemma temporary_bits_copied:
  assumes len: "length addr = 16" "length start = 16" "length md = 16" and b: "bits \<le> 128"
  shows "\<exists>a. bindC (copy_net start addr 0 (bits div 8)) (\<lambda>str.
              bindC (definedC (bits div 8 \<le> 16)) (\<lambda>_.
              bindC (rdn md 0 (16 - bits div 8)) (\<lambda>host.
              bindC (wrn str (bits div 8) host) (\<lambda>str.
                merge_bits (bits mod 8) str start (bits div 8))))) = Ret a \<and> on_network start bits a"
proof -
  let ?q = "bits div 8"
  let ?md = "replicate ?q 0 @ take (16 - ?q) md"
  have q: "?q \<le> 16" using div_le_mono [OF b, of 8] by simp
  then have md: "length ?md = 16" using len by simp
  have "copy_net start ?md 0 ?q = Ret (take ?q start @ take (16 - ?q) md)"
    using copy_net_0 [of ?q start ?md] q len by simp
  with network_bits_copied [OF md len(2) b] show ?thesis
    using copy_net_0 [of ?q start addr] q len by (simp add: rdn_def wrn_def)
qed

lemma build_temporary6_network:
  assumes md5: "\<And>x. length (md5 x) = 16" and "length addr = 16" "length start = 16" "bits \<le> 128"
  shows "\<exists>a t'. build_temporary6 md5 random t addr start bits input = Ret (a, t') \<and> on_network start bits a"
proof (cases "bits = 64")
  case True
  define h where "h = (if counter t = 0 then t\<lparr>history := random\<rparr> else t)"
  let ?md = "md5 (history h @ input)"
  let ?a = "take 8 start @ take 8 ?md"
  have "build_temporary6 md5 random t addr start bits input =
      Ret (?a[8 := (?a ! 8) AND NOT 0x02], h\<lparr>history := drop 8 ?md, counter := counter h + 1\<rparr>)"
    using assms True unfolding build_temporary6_def h_def [symmetric] Let_def
    by (simp add: rdn_def wrn_def)
  moreover have "on_network start 64 ?a" using assms by (simp add: on_network_def prefix_mask_def)
  ultimately show ?thesis using on_network_host_byte True by auto
next
  case False
  define h where "h = (if counter t = 0 then t\<lparr>history := random\<rparr> else t)"
  let ?md = "md5 (history h @ input)"
  obtain a where a: "bindC (copy_net start addr 0 (bits div 8)) (\<lambda>str.
              bindC (definedC (bits div 8 \<le> 16)) (\<lambda>_.
              bindC (rdn ?md 0 (16 - bits div 8)) (\<lambda>host.
              bindC (wrn str (bits div 8) host) (\<lambda>str.
                merge_bits (bits mod 8) str start (bits div 8))))) = Ret a" "on_network start bits a"
    using temporary_bits_copied [OF assms(2,3) md5 assms(4)] by blast
  then have "build_temporary6 md5 random t addr start bits input =
      Ret (a, h\<lparr>history := take 8 (drop 8 ?md), counter := counter h + 1\<rparr>)"
    using False md5 unfolding build_temporary6_def h_def [symmetric] Let_def by (simp add: rdn_def)
  with a(2) show ?thesis by blast
qed

lemma build_lease6_network:
  assumes "\<And>x. length (md5 x) = 16" "length tmp = 16" "length start = 16" "bits \<le> 128"
    and "pool_type = D6O_IA_NA \<or> pool_type = D6O_IA_TA"
  shows "\<exists>a t'. build_lease6 md5 rnd pool_type start bits tmp t ds = Ret (Some (a, t')) \<and> on_network start bits a"
proof (cases "pool_type = D6O_IA_NA")
  case True
  obtain a where "build_address6 md5 start bits ds = Ret a" "on_network start bits a"
    using build_address6_network [of md5 ds, OF assms(1) [of ds] assms(3,4)] by blast
  with True show ?thesis by (simp add: build_lease6_def)
next
  case False
  obtain a t' where "build_temporary6 md5 rnd t tmp start bits ds = Ret (a, t')" "on_network start bits a"
    using build_temporary6_network [of md5 tmp start bits rnd t ds] assms by blast
  with False assms(5) show ?thesis by (simp add: build_lease6_def)
qed

text \<open>The outcomes of the search for an address.\<close>

lemma choose_lease6_spec:
  assumes "\<And>x. length (md5 x) = 16" "length tmp = 16" "length start = 16" "bits \<le> 128"
    and "pool_type = D6O_IA_NA \<or> pool_type = D6O_IA_TA" "attempts \<le> 100"
  shows "\<exists>res a n t'. choose_lease6 md5 rnd alloc in_use pool_type start bits tmp t ds attempts = Ret (res, a, n, t')
    \<and> (res = ISC_R_SUCCESS \<and> n \<le> 100 \<and> on_network start bits a \<and> \<not> reserved_iid a \<and> \<not> in_use a
      \<or> res = ISC_R_NORESOURCES \<and> n = 101
      \<or> res = ISC_R_NOMEMORY \<and> n \<le> 100 \<and> \<not> alloc n)"
  using assms(2,6)
proof (induction "100 - attempts" arbitrary: tmp t ds attempts rule: less_induct)
  case less
  show ?case
  proof (cases "attempts < 100")
    case True
    obtain a t' where a: "build_lease6 md5 (rnd (Suc attempts)) pool_type start bits tmp t ds = Ret (Some (a, t'))"
        "on_network start bits a"
      using build_lease6_network [of md5 tmp start bits pool_type] assms less.prems(1) by blast
    then have run: "choose_lease6 md5 rnd alloc in_use pool_type start bits tmp t ds attempts =
        (if \<not> reserved_iid a \<and> \<not> in_use a then Ret (ISC_R_SUCCESS, a, Suc attempts, t')
         else if \<not> alloc (Suc attempts) then Ret (ISC_R_NOMEMORY, a, Suc attempts, t')
         else choose_lease6 md5 rnd alloc in_use pool_type start bits a t' (ds @ a) (Suc attempts))"
      using True by (subst choose_lease6.simps) (simp add: Let_def)
    have "length a = 16" using a(2) by (simp add: on_network_def)
    with less.hyps [of "Suc attempts" a t' "ds @ a"] True a(2) show ?thesis
      unfolding run by (cases "\<not> reserved_iid a \<and> \<not> in_use a"; cases "alloc (Suc attempts)") auto
  next
    case False
    then show ?thesis using less.prems by (subst choose_lease6.simps) simp
  qed
qed

section \<open>Prefixes\<close>

lemma zero_from_spec:
  "i + n = length a \<Longrightarrow> zero_from a i n = Ret (take i a @ replicate n 0)"
proof (induction n arbitrary: i a)
  case (Suc n)
  then have "zero_from a i (Suc n) = Ret (take (i + 1) (a[i := 0]) @ replicate n 0)" by simp
  with Suc.prems show ?case by (simp add: take_Suc_conv_app_nth)
qed simp

lemma and_and_self: "(x AND m) AND m = x AND (m :: byte)"
  by (simp add: ac_simps)

lemma build_prefix6_spec:
  assumes "length (md5 input) = 16" "length start = 16" "bits \<le> units" "units < 128"
  shows "\<exists>a. build_prefix6 md5 start bits units input = Ret (net_part a units) \<and> on_network start bits a"
proof -
  have b: "bits \<le> 128" and u: "units div 8 < 16" using assms less_mult_imp_div_less [of units 16 8] by simp_all
  obtain a where a: "bindC (copy_net start (md5 input) 0 (bits div 8))
      (\<lambda>s. merge_bits (bits mod 8) s start (bits div 8)) = Ret a" "on_network start bits a"
    using network_bits_copied [OF assms(1,2) b] by blast
  have len: "length a = 16" using a(2) by (simp add: on_network_def)
  have "build_prefix6 md5 start bits units input = bindC (zero_from a (units div 8 + 1) (16 - (units div 8 + 1))) (\<lambda>str.
     bindC (rd str (units div 8)) (\<lambda>b.
       wr str (units div 8) (b AND prefix_mask (units mod 8))))"
    using a(1) unfolding build_prefix6_def bindC_assoc [symmetric] by simp
  also have "\<dots> = Ret (net_part a units)"
    using zero_from_spec [of "units div 8 + 1" "16 - (units div 8 + 1)" a] len u assms(4)
    by (simp add: net_part_def take_Suc_conv_app_nth nth_append list_update_append)
  finally show ?thesis using a(2) by blast
qed

section \<open>Networks as numbers\<close>

lemma prefix_mask_eq: "r < 8 \<Longrightarrow> prefix_mask r = push_bit (8 - r) (mask r)"
  by (elim small_cases) (simp_all add: prefix_mask_def mask_eq_exp_minus_1 push_bit_eq_mult)

lemma mask_high_bits:
  assumes "r < 8"
  shows "x AND prefix_mask r = push_bit (8 - r) (drop_bit (8 - r) x)"
  unfolding prefix_mask_eq [OF assms]
  by (rule bit_word_eqI) (auto simp: bit_simps)

lemma unat_mask_high:
  assumes "r < 8"
  shows "unat (x AND prefix_mask r) = unat x div 2 ^ (8 - r) * 2 ^ (8 - r)"
proof -
  have "unat x div 2 ^ (8 - r) * 2 ^ (8 - r) \<le> unat x" by simp
  then have "unat x div 2 ^ (8 - r) * 2 ^ (8 - r) < 256" using unat_byte_lt [of x] by (rule le_less_trans)
  then show ?thesis
    unfolding mask_high_bits [OF assms] unsigned_push_bit_eq unsigned_drop_bit_eq
    by (simp add: push_bit_eq_mult drop_bit_eq_div take_bit_eq_mod)
qed

lemma be_val_zeros: "be_val (replicate n 0) = 0"
  by (induction n) simp_all

lemma be_val_net_part:
  assumes len: "length a = 16" and b: "bits \<le> 128"
  shows "be_val (net_part a bits) = be_val a div 2 ^ (128 - bits) * 2 ^ (128 - bits)"
proof (cases "bits = 128")
  case True
  then show ?thesis using len by (simp add: net_part_def)
next
  case False
  define q r where "q = bits div 8" and "r = bits mod 8"
  have r: "bits = 8 * q + r" "r < 8" by (simp_all add: q_def r_def)
  then have q: "q < 16" using b False by linarith
  define B where "B = (256 :: nat) ^ (15 - q)"
  define K where "K = (2 :: nat) ^ (8 - r)"
  define A where "A = be_val (take q a)"
  have pow: "(2 :: nat) ^ (128 - bits) = B * K"
  proof -
    have "128 - bits = 8 * (15 - q) + (8 - r)" using r q by linarith
    then show ?thesis by (simp add: B_def K_def power_add power_mult)
  qed
  have "a = take q a @ a ! q # drop (Suc q) a" using q len by (simp add: id_take_nth_drop)
  then have "be_val a = A * 256 ^ Suc (15 - q) + (unat (a ! q) * B + be_val (drop (Suc q) a))"
    using be_val_append [of "take q a" "a ! q # drop (Suc q) a"] len q by (simp add: A_def B_def Suc_diff_le)
  then have val: "be_val a = (A * 256 + unat (a ! q)) * B + be_val (drop (Suc q) a)"
    by (simp add: B_def algebra_simps)
  have low: "be_val (drop (Suc q) a) < B" using be_val_lt [of "drop (Suc q) a"] len by (simp add: B_def)
  have K: "(256 :: nat) = 2 ^ r * K" using r(2) by (simp add: K_def flip: power_add)
  have "K \<noteq> 0" "A * 256 = A * 2 ^ r * K" using K by (simp_all add: K_def)
  then have "(A * 256 + unat (a ! q)) div K * K = A * 256 + unat (a ! q) div K * K"
    using div_mult_self3 [of K "A * 2 ^ r" "unat (a ! q)"] by (simp only: distrib_right not_False_eq_True)
  moreover have "be_val a div (B * K) = (A * 256 + unat (a ! q)) div K"
    using low by (simp add: val div_mult2_eq)
  ultimately have "be_val a div (B * K) * (B * K) = (A * 256 + unat (a ! q) div K * K) * B"
    by (simp add: ac_simps)
  moreover have "net_part a bits = take q a @ (a ! q AND prefix_mask r) # replicate (15 - q) 0"
    using r q unfolding net_part_def q_def r_def by simp
  then have "be_val (net_part a bits) = (A * 256 + unat (a ! q) div K * K) * B"
    using unat_mask_high [OF r(2), of "a ! q"] len q
    by (simp add: be_val_append be_val_zeros A_def B_def K_def algebra_simps)
  ultimately show ?thesis unfolding pow by (simp only:)
qed

lemma floor_in_block:
  fixes s v m :: nat
  assumes "0 < m" "m dvd s"
  shows "v div m * m = s \<longleftrightarrow> s \<le> v \<and> v < s + m"
proof
  assume *: "v div m * m = s"
  then have "v = s + v mod m" using div_mult_mod_eq [of v m] by simp
  with assms(1) mod_less_divisor [of m v] show "s \<le> v \<and> v < s + m" by linarith
next
  assume *: "s \<le> v \<and> v < s + m"
  obtain k where s: "s = k * m" using assms(2) by (metis dvd_def mult.commute)
  from * have "m * k \<le> v" "v < m * Suc k" by (simp_all add: s ac_simps)
  then have "v div m = k" by (rule div_nat_eqI)
  then show "v div m * m = s" by (simp add: s)
qed

lemma in_pool_block:
  assumes "length a = 16" "length start = 16" "bits \<le> 128" "2 ^ (128 - bits) dvd be_val start"
  shows "ipv6_in_pool a start bits = Ret (be_val start \<le> be_val a \<and> be_val a < be_val start + 2 ^ (128 - bits))"
proof -
  have "net_part a bits = start \<longleftrightarrow> be_val (net_part a bits) = be_val start"
    using be_val_inj [of "net_part a bits" start] length_net_part assms by auto
  also have "\<dots> \<longleftrightarrow> be_val start \<le> be_val a \<and> be_val a < be_val start + 2 ^ (128 - bits)"
    unfolding be_val_net_part [OF assms(1,3)] by (rule floor_in_block) (simp_all add: assms(4))
  finally show ?thesis using in_pool_spec assms by simp
qed

text \<open>The start of a pool is a network: its host bits are zero.\<close>

lemma net_part_aligned:
  assumes "length start = 16" "bits \<le> 128"
  shows "net_part start bits = start \<longleftrightarrow> 2 ^ (128 - bits) dvd be_val start"
proof -
  have "net_part start bits = start \<longleftrightarrow> be_val (net_part start bits) = be_val start"
    using be_val_inj [of "net_part start bits" start] length_net_part assms by auto
  also have "\<dots> \<longleftrightarrow> be_val start div 2 ^ (128 - bits) * 2 ^ (128 - bits) = be_val start"
    by (simp only: be_val_net_part [OF assms])
  also have "\<dots> \<longleftrightarrow> 2 ^ (128 - bits) dvd be_val start" by (metis dvd_div_mult_self dvd_triv_right)
  finally show ?thesis .
qed

lemma on_network_in_pool:
  assumes "on_network start bits a" "length start = 16" "bits \<le> 128" "2 ^ (128 - bits) dvd be_val start"
  shows "ipv6_in_pool a start bits = Ret True"
  using assms in_pool_spec [of a bits start] on_network_net_part [OF assms(1)] net_part_aligned [OF assms(2,3)]
  by (simp add: on_network_def)

text \<open>C33: An address is in a pool exactly if, read as a 128-bit number, it lies in the block of
  \<open>2 ^ (128 - bits)\<close> addresses from the start address of the pool on.\<close>

theorem ipv6_in_pool_is_range:
  assumes "length addr = 16" "length start_addr = 16" "bits \<le> 128" "2 ^ (128 - bits) dvd be_val start_addr"
  shows "ipv6_in_pool addr start_addr bits =
    Ret (be_val start_addr \<le> be_val addr \<and> be_val addr < be_val start_addr + 2 ^ (128 - bits))"
  by (rule in_pool_block [OF assms])

theorem ipv6_in_pool_is_range_witness:
  "ipv6_in_pool (replicate 13 0 @ [1, 47, 9]) (replicate 13 0 @ [1, 32, 0]) 116 =
    Ret (be_val (replicate 13 0 @ [1, 32, 0]) \<le> be_val (replicate 13 0 @ [1, 47, 9])
      \<and> be_val (replicate 13 0 @ [1, 47, 9]) < be_val (replicate 13 0 @ [1, 32, 0]) + 2 ^ (128 - 116))"
  by (rule ipv6_in_pool_is_range) (simp_all add: be_val_append be_val_zeros)

text \<open>C34: \<open>build_prefix6\<close> makes a prefix of the pool, whatever the digest is: it lies in the pool
  and its bits behind the prefix length are zero, so two prefixes of a pool never overlap unless
  they are equal.\<close>

theorem build_prefix6_makes_prefix:
  assumes "length (md5 input) = 16" "length start = 16" "bits \<le> units" "units < 128"
    and "2 ^ (128 - bits) dvd be_val start"
  shows "\<exists>p. build_prefix6 md5 start bits units input = Ret p \<and> length p = 16
    \<and> ipv6_in_pool p start bits = Ret True \<and> 2 ^ (128 - units) dvd be_val p"
proof -
  obtain a where a: "build_prefix6 md5 start bits units input = Ret (net_part a units)" "on_network start bits a"
    using build_prefix6_spec [of md5 input, OF assms(1-4)] by blast
  have len: "length a = 16" "length (net_part a units) = 16" "bits \<le> 128"
    using a(2) assms(3,4) length_net_part [of a units] by (simp_all add: on_network_def)
  have pow: "(2 :: nat) ^ (128 - bits) = 2 ^ (128 - units) * 2 ^ (units - bits)"
    using assms(3,4) by (simp flip: power_add)
  have "be_val (net_part a units) div 2 ^ (128 - bits) = be_val a div 2 ^ (128 - bits)"
    using assms(4) len by (simp add: be_val_net_part pow div_mult2_eq)
  then have "net_part (net_part a units) bits = net_part a bits"
    using len be_val_net_part length_net_part by (intro be_val_inj) simp_all
  also have "\<dots> = start"
    using on_network_net_part [OF a(2)] net_part_aligned [of start bits] assms len by simp
  finally have "ipv6_in_pool (net_part a units) start bits = Ret True" using in_pool_spec len by simp
  moreover have "2 ^ (128 - units) dvd be_val (net_part a units)"
    using be_val_net_part [of a units] len assms(4) by simp
  ultimately show ?thesis using a(1) len by auto
qed

theorem build_prefix6_makes_prefix_witness:
  "\<exists>p. build_prefix6 (\<lambda>x. take 16 (x @ replicate 16 0xAB)) (replicate 16 0) 40 60 [1, 2, 3] = Ret p \<and> length p = 16
    \<and> ipv6_in_pool p (replicate 16 0) 40 = Ret True \<and> 2 ^ (128 - 60) dvd be_val p"
  by (rule build_prefix6_makes_prefix) (simp_all add: be_val_zeros)

end
