(* ===== verification/Pool6.thy ===== *)
theory Pool6
  imports Addr6
begin

text \<open>
  The pools of IPv6 leases and the identity associations of \<open>server/mdb6.c\<close>. The state has the
  objects of the C program in stores indexed by their addresses. Three conventions:

  \<^item> The hash tables map a key to the stack of values added for it, which is what the theory of
    \<open>omapip/hash.c\<close> proves of them.
  \<^item> Reference counts are kept in the trace: every reference taken or dropped is an event, as are
    the calls that leave the lease database (statements of the configuration, dynamic DNS, the
    lease file, timers).
  \<^item> The heaps compare leases with \<open>lease_older\<close>, which reads the leases as they are at the time of
    the call. A heap is therefore given the order of the current store before each operation. The
    heap is the one of \<open>common/heap.c\<close>, which stands for the heap of \<open>libisc\<close> that the server is
    linked with.

  The counters are 64-bit words, as in the source. The server is built with dynamic DNS.
\<close>

section \<open>Objects\<close>

record ia_xx =
  iaid_duid :: "byte list"
  ia_type :: nat
  num_iasubopt :: nat
  max_iasubopt :: nat
  iasubopt_arr :: "sid option list"

type_synonym timeouts6 = "(sid, sid \<Rightarrow> nat) isc_heap"

record ipv6_pool =
  pool_type :: nat
  start_addr :: in6_addr
  bits :: nat
  units :: nat
  leases :: "in6_addr \<Rightarrow> sid list"
  num_active :: "64 word"
  num_abandoned :: "64 word"
  active_timeouts :: timeouts6
  num_inactive :: int
  inactive_timeouts :: timeouts6
  ipv6_pond :: "nat option"

record ipv6_pond_t =
  pond_active :: "64 word"
  pond_abandoned :: "64 word"
  use_eui_64 :: bool

datatype event6 = Ref_sub sid | Drop_sub sid | Ref_ia nat | Drop_ia nat | Ref_pool nat | Drop_pool nat
  | Drop_scope nat | Execute6 nat | Drop_stmt nat | Ddns_removals6 sid | Write_ia "nat option"
  | Commit_leases | Add_timeout int nat

record db6 =
  subs :: store6
  heap_index :: "sid \<Rightarrow> nat"
  ias :: "nat \<Rightarrow> ia_xx"
  ia_active :: "nat \<Rightarrow> byte list \<Rightarrow> nat list"
  pools6 :: "nat \<Rightarrow> ipv6_pool"
  pool_list :: "nat list"
  ponds :: "nat \<Rightarrow> ipv6_pond_t"
  trace6 :: "event6 list"

definition emit6 :: "event6 list \<Rightarrow> db6 \<Rightarrow> db6" where
  "emit6 es db = db\<lparr>trace6 := trace6 db @ es\<rparr>"

definition upd_sub :: "sid \<Rightarrow> (iasubopt \<Rightarrow> iasubopt) \<Rightarrow> db6 \<Rightarrow> db6" where
  "upd_sub l f db = db\<lparr>subs := (subs db)(l := f (subs db l))\<rparr>"

definition upd_pool :: "nat \<Rightarrow> (ipv6_pool \<Rightarrow> ipv6_pool) \<Rightarrow> db6 \<Rightarrow> db6" where
  "upd_pool p f db = db\<lparr>pools6 := (pools6 db)(p := f (pools6 db p))\<rparr>"

text \<open>Counting in a pool, and in its pond if it has one.\<close>

definition count_active :: "nat \<Rightarrow> 64 word \<Rightarrow> db6 \<Rightarrow> db6" where
  "count_active p d db =
     (let db = upd_pool p (\<lambda>q. q\<lparr>num_active := num_active q + d\<rparr>) db
      in case ipv6_pond (pools6 db p) of None \<Rightarrow> db
         | Some k \<Rightarrow> db\<lparr>ponds := (ponds db)(k := (ponds db k)\<lparr>pond_active := pond_active (ponds db k) + d\<rparr>)\<rparr>)"

definition count_abandoned :: "nat \<Rightarrow> 64 word \<Rightarrow> db6 \<Rightarrow> db6" where
  "count_abandoned p d db =
     (let db = upd_pool p (\<lambda>q. q\<lparr>num_abandoned := num_abandoned q + d\<rparr>) db
      in case ipv6_pond (pools6 db p) of None \<Rightarrow> db
         | Some k \<Rightarrow> db\<lparr>ponds := (ponds db)(k := (ponds db k)\<lparr>pond_abandoned := pond_abandoned (ponds db k) + d\<rparr>)\<rparr>)"

definition count_inactive :: "nat \<Rightarrow> int \<Rightarrow> db6 \<Rightarrow> db6" where
  "count_inactive p d = upd_pool p (\<lambda>q. q\<lparr>num_inactive := num_inactive q + d\<rparr>)"

text \<open>The two heaps of a pool, \<open>active_timeouts\<close> for \<open>True\<close>.\<close>

definition timeouts :: "bool \<Rightarrow> nat \<Rightarrow> db6 \<Rightarrow> timeouts6" where
  "timeouts act p db =
     (if act then active_timeouts (pools6 db p) else inactive_timeouts (pools6 db p))
       \<lparr>compare_h := lease_older (subs db)\<rparr>"

definition set_timeouts :: "bool \<Rightarrow> nat \<Rightarrow> timeouts6 \<Rightarrow> (sid \<Rightarrow> nat) \<Rightarrow> db6 \<Rightarrow> db6" where
  "set_timeouts act p h idx db =
     upd_pool p (\<lambda>q. if act then q\<lparr>active_timeouts := h\<rparr> else q\<lparr>inactive_timeouts := h\<rparr>)
       (db\<lparr>heap_index := idx\<rparr>)"

definition timeouts_insert :: "bool \<Rightarrow> bool \<Rightarrow> nat \<Rightarrow> sid \<Rightarrow> db6 \<Rightarrow> (isc_result \<times> db6) cres" where
  "timeouts_insert alloc act p l db =
     bindC (isc_heap_insert alloc (timeouts act p db) (heap_index db) l) (\<lambda>(res, h, idx).
       Ret (res, set_timeouts act p h idx db))"

definition timeouts_op :: "(timeouts6 \<Rightarrow> (sid \<Rightarrow> nat) \<Rightarrow> nat \<Rightarrow> (timeouts6 \<times> (sid \<Rightarrow> nat)) cres)
    \<Rightarrow> bool \<Rightarrow> nat \<Rightarrow> nat \<Rightarrow> db6 \<Rightarrow> db6 cres" where
  "timeouts_op f act p i db =
     bindC (f (timeouts act p db) (heap_index db) i) (\<lambda>(h, idx). Ret (set_timeouts act p h idx db))"

text \<open>The hash table of the leases of a pool.\<close>

definition iasubopt_hash_lookup :: "nat \<Rightarrow> in6_addr \<Rightarrow> db6 \<Rightarrow> sid option \<times> db6" where
  "iasubopt_hash_lookup p a db =
     (case leases (pools6 db p) a of [] \<Rightarrow> (None, db) | l # _ \<Rightarrow> (Some l, emit6 [Ref_sub l] db))"

text \<open>\<open>bucket\<close> says whether there is a bucket for the entry; without one \<open>add_hash\<close> drops it.\<close>

definition iasubopt_hash_add :: "bool \<Rightarrow> nat \<Rightarrow> in6_addr \<Rightarrow> sid \<Rightarrow> db6 \<Rightarrow> db6" where
  "iasubopt_hash_add bucket p a l db =
     (if \<not> bucket then db
      else emit6 [Ref_sub l] (upd_pool p (\<lambda>q. q\<lparr>leases := (leases q)(a := l # leases q a)\<rparr>) db))"

definition iasubopt_hash_delete :: "nat \<Rightarrow> in6_addr \<Rightarrow> db6 \<Rightarrow> db6" where
  "iasubopt_hash_delete p a db =
     (case leases (pools6 db p) a of [] \<Rightarrow> db
      | l # ls \<Rightarrow> emit6 [Drop_sub l] (upd_pool p (\<lambda>q. q\<lparr>leases := (leases q)(a := ls)\<rparr>) db))"

section \<open>Leases and identity associations\<close>

text \<open>\<open>(unsigned int)-1\<close>\<close>

definition NO_INDEX :: nat where
  "NO_INDEX = 2 ^ 32 - 1"

text \<open>
  \<open>l\<close> is the address of the fresh object, which \<open>dmalloc\<close> has filled with zeros; the caller's
  pointer is NULL before the call.
\<close>

definition iasubopt_allocate :: "bool \<Rightarrow> sid \<Rightarrow> db6 \<Rightarrow> isc_result \<times> db6" where
  "iasubopt_allocate alloc l db =
     (if \<not> alloc then (ISC_R_NOMEMORY, db)
      else (ISC_R_SUCCESS, emit6 [Ref_sub l]
        (db\<lparr>subs := (subs db)(l := \<lparr>addr6 = replicate 16 0, plen6 = 255, state6 = FTS_FREE, scope6 = None,
             hard_lifetime_end_time = 0, soft_lifetime_end_time = 0, prefer6 = 0, valid6 = 0, ia6 = None,
             ipv6_pool6 = None, on_expiry6 = None, on_commit6 = None, on_release6 = None\<rparr>),
           heap_index := (heap_index db)(l := NO_INDEX)\<rparr>)))"

text \<open>The IAID comes in host byte order; \<open>iaid\<close> is the list of its four bytes.\<close>

definition ia_make_key :: "bool \<Rightarrow> byte list \<Rightarrow> byte list \<Rightarrow> nat \<Rightarrow> (isc_result \<times> byte list) cres" where
  "ia_make_key alloc iaid duid duid_len =
     (if \<not> alloc then Ret (ISC_R_NOMEMORY, [])
      else bindC (rdn duid 0 duid_len) (\<lambda>d. Ret (ISC_R_SUCCESS, iaid @ d)))"

definition ia_allocate :: "bool \<Rightarrow> bool \<Rightarrow> nat \<Rightarrow> byte list \<Rightarrow> byte list \<Rightarrow> nat \<Rightarrow> db6 \<Rightarrow> (isc_result \<times> db6) cres" where
  "ia_allocate alloc alloc_key i iaid duid duid_len db =
     (if \<not> alloc then Ret (ISC_R_NOMEMORY, db)
      else bindC (ia_make_key alloc_key iaid duid duid_len) (\<lambda>(res, key).
        if res \<noteq> ISC_R_SUCCESS then Ret (ISC_R_NOMEMORY, db)
        else Ret (ISC_R_SUCCESS, emit6 [Ref_ia i]
          (db\<lparr>ias := (ias db)(i := \<lparr>iaid_duid = key, ia_type = 0, num_iasubopt = 0, max_iasubopt = 0,
            iasubopt_arr = []\<rparr>)\<rparr>))))"

text \<open>
  The pointer in the slot that is filled must be NULL, or \<open>iasubopt_reference\<close> refuses to store
  the new one; its result is not looked at.
\<close>

definition ia_add_iasubopt :: "bool \<Rightarrow> nat \<Rightarrow> sid \<Rightarrow> db6 \<Rightarrow> (isc_result \<times> db6) cres" where
  "ia_add_iasubopt alloc i l db =
     (let ia = ias db i; full = (max_iasubopt ia \<le> num_iasubopt ia)
      in if full \<and> \<not> alloc then Ret (ISC_R_NOMEMORY, db)
         else
           bindC (if full then
                    bindC (rdn (iasubopt_arr ia) 0 (num_iasubopt ia)) (\<lambda>old.
                      Ret (ia\<lparr>iasubopt_arr := old @ replicate (max_iasubopt ia + 4 - num_iasubopt ia) None,
                        max_iasubopt := max_iasubopt ia + 4\<rparr>))
                  else Ret ia) (\<lambda>ia.
           bindC (rd (iasubopt_arr ia) (num_iasubopt ia)) (\<lambda>slot.
             let stored = (slot = None);
                 arr = (if stored then (iasubopt_arr ia)[num_iasubopt ia := Some l] else iasubopt_arr ia)
             in Ret (ISC_R_SUCCESS, emit6 (if stored then [Ref_sub l] else [])
                  (db\<lparr>ias := (ias db)(i := ia\<lparr>iasubopt_arr := arr, num_iasubopt := num_iasubopt ia + 1\<rparr>)\<rparr>)))))"

fun find_sub :: "sid option list \<Rightarrow> sid \<Rightarrow> nat \<Rightarrow> nat \<Rightarrow> nat option cres" where
  "find_sub arr l i 0 = Ret None"
| "find_sub arr l i (Suc n) =
     bindC (rd arr i) (\<lambda>q. if q = Some l then Ret (Some i) else find_sub arr l (i + 1) n)"

text \<open>The loop \<open>for (j = i + 1; j < num; j++) arr[j - 1] = arr[j];\<close>\<close>

fun shift_down :: "'a list \<Rightarrow> nat \<Rightarrow> nat \<Rightarrow> 'a list cres" where
  "shift_down arr j 0 = Ret arr"
| "shift_down arr j (Suc n) =
     bindC (rd arr j) (\<lambda>x. bindC (wr arr (j - 1) x) (\<lambda>arr. shift_down arr (j + 1) n))"

text \<open>\<open>ia_dereference (&iasubopt->ia)\<close>: a NULL pointer is only logged.\<close>

definition drop_back_reference :: "sid \<Rightarrow> db6 \<Rightarrow> db6" where
  "drop_back_reference l db =
     (case ia6 (subs db l) of None \<Rightarrow> db
      | Some k \<Rightarrow> emit6 [Drop_ia k] (upd_sub l (\<lambda>s. s\<lparr>ia6 := None\<rparr>) db))"

definition ia_remove_iasubopt :: "nat \<Rightarrow> sid \<Rightarrow> db6 \<Rightarrow> db6 cres" where
  "ia_remove_iasubopt i l db =
     (let ia = ias db i
      in bindC (find_sub (iasubopt_arr ia) l 0 (num_iasubopt ia)) (\<lambda>found.
         case found of None \<Rightarrow> Ret db
         | Some k \<Rightarrow>
             bindC (shift_down ((iasubopt_arr ia)[k := None]) (k + 1) (num_iasubopt ia - (k + 1))) (\<lambda>arr.
               Ret (drop_back_reference l (emit6 [Drop_sub l]
                 (db\<lparr>ias := (ias db)(i := ia\<lparr>iasubopt_arr := arr, num_iasubopt := num_iasubopt ia - 1\<rparr>)\<rparr>))))))"

fun remove_all_loop :: "nat \<Rightarrow> nat \<Rightarrow> nat \<Rightarrow> db6 \<Rightarrow> db6 cres" where
  "remove_all_loop i k 0 db = Ret db"
| "remove_all_loop i k (Suc n) db =
     bindC (rdp (iasubopt_arr (ias db i)) k) (\<lambda>l.
     let db = emit6 [Drop_sub l] (drop_back_reference l db); ia = ias db i
     in remove_all_loop i (k + 1) n (db\<lparr>ias := (ias db)(i := ia\<lparr>iasubopt_arr := (iasubopt_arr ia)[k := None]\<rparr>)\<rparr>))"

definition ia_remove_all_lease :: "nat \<Rightarrow> db6 \<Rightarrow> db6 cres" where
  "ia_remove_all_lease i db =
     bindC (remove_all_loop i 0 (num_iasubopt (ias db i)) db) (\<lambda>db.
       Ret (db\<lparr>ias := (ias db)(i := (ias db i)\<lparr>num_iasubopt := 0\<rparr>)\<rparr>))"

text \<open>The loops of \<open>ia_equal\<close>; the length of the prefix is compared at the index \<open>i\<close> in both arrays.\<close>

fun equal_inner :: "store6 \<Rightarrow> sid option list \<Rightarrow> sid option list \<Rightarrow> nat \<Rightarrow> nat \<Rightarrow> nat \<Rightarrow> bool cres" where
  "equal_inner s a b i j 0 = Ret False"
| "equal_inner s a b i j (Suc n) =
     bindC (rdp a i) (\<lambda>la. bindC (rdp b i) (\<lambda>lb.
     if plen6 (s la) \<noteq> plen6 (s lb) then equal_inner s a b i (j + 1) n
     else bindC (rdp b j) (\<lambda>lj.
       if addr6 (s la) = addr6 (s lj) then Ret True else equal_inner s a b i (j + 1) n)))"

fun equal_outer :: "store6 \<Rightarrow> sid option list \<Rightarrow> sid option list \<Rightarrow> nat \<Rightarrow> nat \<Rightarrow> nat \<Rightarrow> bool cres" where
  "equal_outer s a b num i 0 = Ret True"
| "equal_outer s a b num i (Suc n) =
     bindC (equal_inner s a b i 0 num) (\<lambda>found. if \<not> found then Ret False else equal_outer s a b num (i + 1) n)"

definition ia_equal :: "store6 \<Rightarrow> ia_xx option \<Rightarrow> ia_xx option \<Rightarrow> bool cres" where
  "ia_equal s a b =
     (case a of None \<Rightarrow> Ret (b = None)
      | Some a \<Rightarrow> (case b of None \<Rightarrow> Undef
        | Some b \<Rightarrow>
            if ia_type a \<noteq> ia_type b then Ret False
            else if length (iaid_duid a) \<noteq> length (iaid_duid b) then Ret False
            else if iaid_duid a \<noteq> iaid_duid b then Ret False
            else if num_iasubopt a \<noteq> num_iasubopt b then Ret False
            else equal_outer s (iasubopt_arr a) (iasubopt_arr b) (num_iasubopt a) 0 (num_iasubopt a)))"

section \<open>Pools\<close>

text \<open>
  \<open>alloc_h\<close>, \<open>alloc_a\<close>, \<open>alloc_i\<close> are the outcomes of the allocations for the hash table and the two
  heaps; \<open>p\<close> is the address of the new pool.
\<close>

definition ipv6_pool_allocate :: "bool \<Rightarrow> bool \<Rightarrow> bool \<Rightarrow> bool \<Rightarrow> nat \<Rightarrow> nat \<Rightarrow> in6_addr \<Rightarrow> nat \<Rightarrow> nat \<Rightarrow> db6
    \<Rightarrow> isc_result \<times> db6" where
  "ipv6_pool_allocate alloc alloc_h alloc_a alloc_i p type start b u db =
     (let cmp = lease_older (subs db)
      in if \<not> alloc \<or> \<not> alloc_h then (ISC_R_NOMEMORY, db)
         else case isc_heap_create cmp (Some lease_index_changed) 0 alloc_a of
           (_, None) \<Rightarrow> (ISC_R_NOMEMORY, db)
         | (_, Some ha) \<Rightarrow>
             (case isc_heap_create cmp (Some lease_index_changed) 0 alloc_i of
                (_, None) \<Rightarrow> (ISC_R_NOMEMORY, db)
              | (_, Some hi) \<Rightarrow>
                  (ISC_R_SUCCESS, emit6 [Ref_pool p]
                    (db\<lparr>pools6 := (pools6 db)(p := \<lparr>pool_type = type, start_addr = start, bits = b, units = u,
                       leases = (\<lambda>_. []), num_active = 0, num_abandoned = 0, active_timeouts = ha,
                       num_inactive = 0, inactive_timeouts = hi, ipv6_pond = None\<rparr>)\<rparr>))))"

definition on_active_heap :: "byte \<Rightarrow> bool" where
  "on_active_heap s = (s = FTS_ACTIVE \<or> s = FTS_ABANDONED)"

text \<open>Taking the lease found for an address out of the structures of the pool.\<close>

definition remove_old_lease :: "nat \<Rightarrow> sid \<Rightarrow> db6 \<Rightarrow> db6 cres" where
  "remove_old_lease p old db =
     bindC (if on_active_heap (state6 (subs db old)) then
              bindC (timeouts_op isc_heap_delete True p (heap_index db old) db) (\<lambda>db.
              let db = count_active p (- 1) db
              in Ret (if state6 (subs db old) = FTS_ABANDONED then count_abandoned p (- 1) db else db))
            else
              bindC (timeouts_op isc_heap_delete False p (heap_index db old) db) (\<lambda>db.
              Ret (count_inactive p (- 1) db))) (\<lambda>db.
       Ret (emit6 [Drop_sub old, Drop_sub old] (iasubopt_hash_delete p (addr6 (subs db old)) db)))"

text \<open>In what follows \<open>alloc\<close> is the outcome of growing a heap, if that is needed, and \<open>bucket\<close> that of
  finding a bucket for an entry of the hash table.\<close>

text \<open>\<open>ipv6_pool_reference (&lease->ipv6_pool, pool)\<close>, which refuses to overwrite a pointer.\<close>

definition reference_lease_pool :: "sid \<Rightarrow> nat \<Rightarrow> db6 \<Rightarrow> db6" where
  "reference_lease_pool l p db =
     (if ipv6_pool6 (subs db l) \<noteq> None then db
      else emit6 [Ref_pool p] (upd_sub l (\<lambda>s. s\<lparr>ipv6_pool6 := Some p\<rparr>) db))"

definition put_lease :: "bool \<Rightarrow> bool \<Rightarrow> nat \<Rightarrow> sid \<Rightarrow> int \<Rightarrow> db6 \<Rightarrow> (isc_result \<times> db6) cres" where
  "put_lease alloc bucket p l valid_lifetime_end_time db =
     (if on_active_heap (state6 (subs db l)) then
        let db = upd_sub l (\<lambda>s. s\<lparr>hard_lifetime_end_time := valid_lifetime_end_time\<rparr>) db;
            db = iasubopt_hash_add bucket p (addr6 (subs db l)) l db
        in bindC (timeouts_insert alloc True p l db) (\<lambda>(res, db).
           if res = ISC_R_SUCCESS then
             let db = count_active p 1 db
             in Ret (res, if state6 (subs db l) = FTS_ABANDONED then count_abandoned p 1 db else db)
           else Ret (res, db))
      else
        let db = upd_sub l (\<lambda>s. s\<lparr>soft_lifetime_end_time := valid_lifetime_end_time\<rparr>) db
        in bindC (timeouts_insert alloc False p l db) (\<lambda>(res, db).
           Ret (res, if res = ISC_R_SUCCESS then count_inactive p 1 db else db)))"

definition add_lease6 :: "bool \<Rightarrow> bool \<Rightarrow> nat \<Rightarrow> sid \<Rightarrow> int \<Rightarrow> db6 \<Rightarrow> (isc_result \<times> db6) cres" where
  "add_lease6 alloc bucket p l valid_lifetime_end_time db =
     (let db = (if state6 (subs db l) = 0 then upd_sub l (\<lambda>s. s\<lparr>state6 := FTS_ACTIVE\<rparr>) db else db);
          db = reference_lease_pool l p db;
          (test, db) = iasubopt_hash_lookup p (addr6 (subs db l)) db
      in bindC (case test of None \<Rightarrow> Ret db | Some old \<Rightarrow> remove_old_lease p old db) (\<lambda>db.
         bindC (put_lease alloc bucket p l valid_lifetime_end_time (emit6 [Ref_sub l] db)) (\<lambda>(res, db).
           Ret (res, if res = ISC_R_SUCCESS then db
             else emit6 [Drop_sub l] (iasubopt_hash_delete p (addr6 (subs db l)) db)))))"

definition lease6_exists :: "nat \<Rightarrow> in6_addr \<Rightarrow> db6 \<Rightarrow> bool \<times> db6" where
  "lease6_exists p a db =
     (case iasubopt_hash_lookup p a db of (None, db) \<Rightarrow> (False, db)
      | (Some l, db) \<Rightarrow> (True, emit6 [Drop_sub l] db))"

definition lease6_usable :: "sid \<Rightarrow> db6 \<Rightarrow> (bool \<times> db6) cres" where
  "lease6_usable l db =
     (case ipv6_pool6 (subs db l) of None \<Rightarrow> Undef
      | Some p \<Rightarrow>
          (case iasubopt_hash_lookup p (addr6 (subs db l)) db of (None, db) \<Rightarrow> Ret (True, db)
           | (Some t, db) \<Rightarrow> Ret (t = l, emit6 [Drop_sub t] db)))"

definition prefix6_exists :: "nat \<Rightarrow> in6_addr \<Rightarrow> nat \<Rightarrow> db6 \<Rightarrow> bool \<times> db6" where
  "prefix6_exists p pref plen db =
     (if plen \<noteq> units (pools6 db p) then (False, db) else lease6_exists p pref db)"

definition move_lease_to_active :: "bool \<Rightarrow> bool \<Rightarrow> nat \<Rightarrow> sid \<Rightarrow> db6 \<Rightarrow> (isc_result \<times> db6) cres" where
  "move_lease_to_active alloc bucket p l db =
     (let old_heap_index = heap_index db l
      in bindC (timeouts_insert alloc True p l db) (\<lambda>(res, db).
         if res = ISC_R_SUCCESS then
           bindC (timeouts_op isc_heap_delete False p old_heap_index
               (iasubopt_hash_add bucket p (addr6 (subs db l)) l db)) (\<lambda>db.
           Ret (res, count_active p 1 (upd_sub l (\<lambda>s. s\<lparr>state6 := FTS_ACTIVE\<rparr>) (count_inactive p (- 1) db))))
         else Ret (res, db)))"

definition renew_lease6 :: "bool \<Rightarrow> bool \<Rightarrow> nat \<Rightarrow> sid \<Rightarrow> db6 \<Rightarrow> (isc_result \<times> db6) cres" where
  "renew_lease6 alloc bucket p l db =
     (let old_end_time = hard_lifetime_end_time (subs db l);
          db = upd_sub l (\<lambda>s. s\<lparr>hard_lifetime_end_time := soft_lifetime_end_time s, soft_lifetime_end_time := 0\<rparr>) db
      in if state6 (subs db l) = FTS_ACTIVE then
           bindC (if old_end_time \<le> hard_lifetime_end_time (subs db l)
                  then timeouts_op isc_heap_decreased True p (heap_index db l) db
                  else timeouts_op isc_heap_increased True p (heap_index db l) db) (\<lambda>db.
             Ret (ISC_R_SUCCESS, db))
         else if state6 (subs db l) = FTS_ABANDONED then
           bindC (timeouts_op isc_heap_increased True p (heap_index db l)
               (upd_sub l (\<lambda>s. s\<lparr>state6 := FTS_ACTIVE\<rparr>) db)) (\<lambda>db.
             Ret (ISC_R_SUCCESS, count_abandoned p (- 1) db))
         else move_lease_to_active alloc bucket p l db)"

text \<open>The statements for an event: they are executed for the state they belong to, and dropped.\<close>

definition run_statement :: "nat option \<Rightarrow> bool \<Rightarrow> event6 list" where
  "run_statement stmt now = (case stmt of None \<Rightarrow> [] | Some k \<Rightarrow> (if now then [Execute6 k] else []) @ [Drop_stmt k])"

definition leave_active :: "nat \<Rightarrow> sid \<Rightarrow> byte \<Rightarrow> db6 \<Rightarrow> db6" where
  "leave_active p l state db =
     (let r = subs db l
      in upd_sub l (\<lambda>s. s\<lparr>on_expiry6 := None, on_release6 := None, scope6 := None\<rparr>)
           (emit6 (run_statement (on_expiry6 r) (state = FTS_EXPIRED) @ run_statement (on_release6 r) (state = FTS_RELEASED)
             @ (if pool_type (pools6 db p) \<noteq> D6O_IA_PD then [Ddns_removals6 l] else [])
             @ (case scope6 r of None \<Rightarrow> [] | Some k \<Rightarrow> [Drop_scope k])) db))"

definition move_lease_to_inactive :: "bool \<Rightarrow> nat \<Rightarrow> sid \<Rightarrow> byte \<Rightarrow> db6 \<Rightarrow> (isc_result \<times> db6) cres" where
  "move_lease_to_inactive alloc p l state db =
     (let old_heap_index = heap_index db l
      in bindC (timeouts_insert alloc False p l db) (\<lambda>(res, db).
         if res = ISC_R_SUCCESS then
           let db = iasubopt_hash_delete p (addr6 (subs db l)) (leave_active p l state db)
           in bindC (timeouts_op isc_heap_delete True p old_heap_index db) (\<lambda>db.
              let db = count_inactive p 1 (count_active p (- 1) (upd_sub l (\<lambda>s. s\<lparr>state6 := state\<rparr>) db))
              in Ret (res, if state6 (subs db l) = FTS_ABANDONED then count_abandoned p (- 1) db else db))
         else Ret (res, db)))"

definition element6 :: "bool \<Rightarrow> nat \<Rightarrow> db6 \<Rightarrow> sid cres" where
  "element6 act p db =
     bindC (isc_heap_element (timeouts act p db) 1) (\<lambda>q. case q of None \<Rightarrow> Undef | Some l \<Rightarrow> Ret l)"

text \<open>\<open>leasep\<close> is what the pointer of the caller points to.\<close>

definition expire_lease6 :: "bool \<Rightarrow> sid option \<Rightarrow> nat \<Rightarrow> int \<Rightarrow> db6 \<Rightarrow> (isc_result \<times> sid option \<times> db6) cres" where
  "expire_lease6 alloc leasep p now db =
     (if leasep \<noteq> None then Ret (DHCP_R_INVALIDARG, leasep, db)
      else if num_active (pools6 db p) > 0 then
        bindC (element6 True p db) (\<lambda>tmp.
        if now > hard_lifetime_end_time (subs db tmp) then
          bindC (move_lease_to_inactive alloc p tmp FTS_EXPIRED db) (\<lambda>(res, db).
            if res = ISC_R_SUCCESS then Ret (res, Some tmp, emit6 [Ref_sub tmp] db) else Ret (res, None, db))
        else Ret (ISC_R_SUCCESS, None, db))
      else Ret (ISC_R_SUCCESS, None, db))"

definition MAX_TIME :: int where
  "MAX_TIME = 0x7fffffff"

definition decline_lease6 :: "bool \<Rightarrow> bool \<Rightarrow> nat \<Rightarrow> sid \<Rightarrow> db6 \<Rightarrow> (isc_result \<times> db6) cres" where
  "decline_lease6 alloc bucket p l db =
     bindC (if on_active_heap (state6 (subs db l)) then Ret (ISC_R_SUCCESS, db)
            else move_lease_to_active alloc bucket p l db) (\<lambda>(res, db).
     if res \<noteq> ISC_R_SUCCESS then Ret (res, db)
     else
       let db = count_abandoned p 1 (upd_sub l (\<lambda>s. s\<lparr>state6 := FTS_ABANDONED\<rparr>) db);
           db = upd_sub l (\<lambda>s. s\<lparr>hard_lifetime_end_time := MAX_TIME\<rparr>) db
       in bindC (timeouts_op isc_heap_decreased True p (heap_index db l) db) (\<lambda>db. Ret (ISC_R_SUCCESS, db)))"

definition release_lease6 :: "bool \<Rightarrow> nat \<Rightarrow> sid \<Rightarrow> db6 \<Rightarrow> (isc_result \<times> db6) cres" where
  "release_lease6 alloc p l db =
     (if state6 (subs db l) = FTS_ACTIVE then move_lease_to_inactive alloc p l FTS_RELEASED db
      else Ret (ISC_R_SUCCESS, db))"

text \<open>The hash tables of identity associations, one for each type.\<close>

definition ia_hash_lookup :: "nat \<Rightarrow> byte list \<Rightarrow> db6 \<Rightarrow> nat option \<times> db6" where
  "ia_hash_lookup t key db =
     (case ia_active db t key of [] \<Rightarrow> (None, db) | i # _ \<Rightarrow> (Some i, emit6 [Ref_ia i] db))"

definition ia_hash_delete :: "nat \<Rightarrow> byte list \<Rightarrow> db6 \<Rightarrow> db6" where
  "ia_hash_delete t key db =
     (case ia_active db t key of [] \<Rightarrow> db
      | i # is \<Rightarrow> emit6 [Drop_ia i] (db\<lparr>ia_active := (ia_active db)(t := (ia_active db t)(key := is))\<rparr>))"

text \<open>
  The old lease \<open>test\<close> goes from the active heap, the hash table of the pool and its association;
  \<open>l\<close> is the new lease. \<open>ia_table\<close> is given by the type of its associations.
\<close>

definition remove_for_file :: "nat \<Rightarrow> nat \<Rightarrow> sid \<Rightarrow> sid \<Rightarrow> nat \<Rightarrow> db6 \<Rightarrow> db6 cres" where
  "remove_for_file ia_table p l test old_ia db =
     bindC (timeouts_op isc_heap_delete True p (heap_index db test) db) (\<lambda>db.
     let db = count_active p (- 1) db;
         db = (if state6 (subs db l) = FTS_ABANDONED then count_abandoned p (- 1) db else db);
         db = iasubopt_hash_delete p (addr6 (subs db test)) db
     in bindC (ia_remove_iasubopt old_ia test db) (\<lambda>db.
        let db = (if num_iasubopt (ias db old_ia) = 0
                  then ia_hash_delete ia_table (iaid_duid (ias db old_ia)) db else db)
        in Ret (emit6 [Drop_sub test] db)))"

definition cleanup_lease6 :: "nat \<Rightarrow> nat \<Rightarrow> sid \<Rightarrow> nat \<Rightarrow> db6 \<Rightarrow> (isc_result \<times> db6) cres" where
  "cleanup_lease6 ia_table p l i db =
     (case iasubopt_hash_lookup p (addr6 (subs db l)) db of (None, db) \<Rightarrow> Ret (ISC_R_SUCCESS, db)
      | (Some test, db) \<Rightarrow>
        (case ia6 (subs db test) of None \<Rightarrow> Ret (ISC_R_SUCCESS, emit6 [Drop_sub test] db)
         | Some old_ia \<Rightarrow>
           let db = emit6 [Ref_ia old_ia] db;
               act = on_active_heap (state6 (subs db l))
           in bindC (if iaid_duid (ias db old_ia) = iaid_duid (ias db i) then
                       if act then Ret (ISC_R_SUCCESS, db)
                       else bindC (remove_for_file ia_table p l test old_ia db) (\<lambda>db. Ret (ISC_R_SUCCESS, db))
                     else
                       if \<not> act then Ret (ISC_R_SUCCESS, db)
                       else bindC (remove_for_file ia_table p l test old_ia db) (\<lambda>db. Ret (ISC_R_FAILURE, db)))
                (\<lambda>(status, db). Ret (status, emit6 [Drop_ia old_ia, Drop_sub test] db))))"

section \<open>Creating leases\<close>

definition is_leased :: "nat \<Rightarrow> db6 \<Rightarrow> in6_addr \<Rightarrow> bool" where
  "is_leased p db a = (leases (pools6 db p) a \<noteq> [])"

text \<open>
  The last part of the \<open>create\<close> functions: a fresh lease \<open>l\<close> for the address that was found.
  \<open>addr\<close> is set to it if it could be added to the pool.
\<close>

definition new_lease6 :: "bool \<Rightarrow> bool \<Rightarrow> bool \<Rightarrow> nat \<Rightarrow> sid \<Rightarrow> in6_addr \<Rightarrow> nat \<Rightarrow> int \<Rightarrow> db6
    \<Rightarrow> (isc_result \<times> sid option \<times> db6) cres" where
  "new_lease6 alloc alloc_heap bucket p l a plen soft_end db =
     (let (res, db) = iasubopt_allocate alloc l db
      in if res \<noteq> ISC_R_SUCCESS then Ret (res, None, db)
         else bindC (add_lease6 alloc_heap bucket p l soft_end
                (upd_sub l (\<lambda>s. s\<lparr>plen6 := plen, addr6 := a\<rparr>) db)) (\<lambda>(res, db).
           if res = ISC_R_SUCCESS then Ret (res, Some l, emit6 [Ref_sub l, Drop_sub l] db)
           else Ret (res, None, emit6 [Drop_sub l] db)))"

text \<open>
  References to leases found by the lookups of the loop are dropped at once and left out of the
  trace. \<open>tmp\<close> is the uninitialised local variable.
\<close>

definition create_lease6 :: "(byte list \<Rightarrow> byte list) \<Rightarrow> (nat \<Rightarrow> byte list) \<Rightarrow> (nat \<Rightarrow> bool) \<Rightarrow> bool \<Rightarrow> bool \<Rightarrow> bool
    \<Rightarrow> in6_addr \<Rightarrow> nat \<Rightarrow> sid \<Rightarrow> byte list \<Rightarrow> int \<Rightarrow> temp6 \<Rightarrow> db6
    \<Rightarrow> (isc_result \<times> sid option \<times> nat \<times> temp6 \<times> db6) cres" where
  "create_lease6 md5 random allocs alloc alloc_heap bucket tmp p l uid soft_end t db =
     (let q = pools6 db p
      in bindC (choose_lease6 md5 random allocs (is_leased p db) (pool_type q) (start_addr q) (bits q) tmp t uid 0)
           (\<lambda>(res, a, attempts, t).
         if res \<noteq> ISC_R_SUCCESS then Ret (res, None, attempts, t, db)
         else bindC (new_lease6 alloc alloc_heap bucket p l a 0 soft_end db) (\<lambda>(res, addr, db).
           Ret (res, addr, attempts, t, db))))"

definition create_lease6_eui_64 :: "bool \<Rightarrow> bool \<Rightarrow> bool \<Rightarrow> in6_addr \<Rightarrow> nat \<Rightarrow> sid \<Rightarrow> byte list \<Rightarrow> int \<Rightarrow> db6
    \<Rightarrow> (isc_result \<times> sid option \<times> db6) cres" where
  "create_lease6_eui_64 alloc alloc_heap bucket tmp p l uid soft_end db =
     (let q = pools6 db p
      in if pool_type q \<noteq> D6O_IA_NA then Ret (DHCP_R_INVALIDARG, None, db)
         else bindC (build_address6_eui_64 tmp (start_addr q) (bits q) uid IAID_LEN) (\<lambda>(res, a).
           if res \<noteq> ISC_R_SUCCESS then Ret (ISC_R_FAILURE, None, db)
           else if reserved_iid a then Ret (ISC_R_FAILURE, None, db)
           else
             let (ours, db) = (case iasubopt_hash_lookup p a db of (None, db) \<Rightarrow> (True, db)
                 | (Some test, db) \<Rightarrow>
                     ((case ia6 (subs db test) of None \<Rightarrow> False | Some i \<Rightarrow> iaid_duid (ias db i) = uid),
                      emit6 [Drop_sub test] db))
             in if \<not> ours then Ret (ISC_R_FAILURE, None, db)
                else new_lease6 alloc alloc_heap bucket p l a 0 soft_end db))"

definition create_prefix6 :: "(byte list \<Rightarrow> byte list) \<Rightarrow> (nat \<Rightarrow> bool) \<Rightarrow> bool \<Rightarrow> bool \<Rightarrow> bool
    \<Rightarrow> in6_addr \<Rightarrow> nat \<Rightarrow> sid \<Rightarrow> byte list \<Rightarrow> int \<Rightarrow> db6 \<Rightarrow> (isc_result \<times> sid option \<times> nat \<times> db6) cres" where
  "create_prefix6 md5 allocs alloc alloc_heap bucket tmp p l uid soft_end db =
     (let q = pools6 db p
      in bindC (choose_prefix6 md5 allocs (is_leased p db) (start_addr q) (bits q) (units q) tmp uid 0)
           (\<lambda>(res, a, attempts).
         if res \<noteq> ISC_R_SUCCESS then Ret (res, None, attempts, db)
         else bindC (new_lease6 alloc alloc_heap bucket p l a (units q mod 256) soft_end db) (\<lambda>(res, pref, db).
           Ret (res, pref, attempts, db))))"

text \<open>The reference the allocation returned stays with the dummy lease.\<close>

definition mark_lease_unavailable :: "bool \<Rightarrow> bool \<Rightarrow> nat \<Rightarrow> sid \<Rightarrow> in6_addr \<Rightarrow> db6 \<Rightarrow> isc_result \<times> db6" where
  "mark_lease_unavailable alloc bucket p l a db =
     (let (res, db) = iasubopt_allocate alloc l db
      in (res, if res = ISC_R_SUCCESS then iasubopt_hash_add bucket p a l (upd_sub l (\<lambda>s. s\<lparr>addr6 := a\<rparr>) db) else db))"

section \<open>All pools\<close>

definition add_ipv6_pool :: "bool \<Rightarrow> nat \<Rightarrow> db6 \<Rightarrow> isc_result \<times> db6" where
  "add_ipv6_pool alloc p db =
     (if \<not> alloc then (ISC_R_NOMEMORY, db)
      else (ISC_R_SUCCESS, emit6 [Ref_pool p] (db\<lparr>pool_list := pool_list db @ [p]\<rparr>)))"

fun find_pool_loop :: "(nat \<Rightarrow> ipv6_pool) \<Rightarrow> nat list \<Rightarrow> nat \<Rightarrow> in6_addr \<Rightarrow> nat option cres" where
  "find_pool_loop pools [] type a = Ret None"
| "find_pool_loop pools (p # ps) type a =
     (if pool_type (pools p) \<noteq> type then find_pool_loop pools ps type a
      else bindC (ipv6_in_pool a (start_addr (pools p)) (bits (pools p))) (\<lambda>b.
        if b then Ret (Some p) else find_pool_loop pools ps type a))"

text \<open>\<open>pool\<close> is what the pointer of the caller points to.\<close>

definition find_ipv6_pool :: "nat option \<Rightarrow> nat \<Rightarrow> in6_addr \<Rightarrow> db6 \<Rightarrow> (isc_result \<times> nat option \<times> db6) cres" where
  "find_ipv6_pool pool type a db =
     (if pool \<noteq> None then Ret (DHCP_R_INVALIDARG, pool, db)
      else bindC (find_pool_loop (pools6 db) (pool_list db) type a) (\<lambda>r.
        case r of None \<Rightarrow> Ret (ISC_R_NOTFOUND, None, db)
        | Some p \<Rightarrow> Ret (ISC_R_SUCCESS, Some p, emit6 [Ref_pool p] db)))"

text \<open>\<open>change_func\<close> is also given the number of the round, which selects the allocation outcomes of
  that round.\<close>

fun change_loop :: "(nat \<Rightarrow> nat \<Rightarrow> sid \<Rightarrow> db6 \<Rightarrow> (isc_result \<times> db6) cres) \<Rightarrow> nat \<Rightarrow> nat \<Rightarrow> nat \<Rightarrow> isc_result \<Rightarrow> db6
    \<Rightarrow> (isc_result \<times> db6) cres" where
  "change_loop change_func i k 0 retval db = Ret (retval, db)"
| "change_loop change_func i k (Suc n) retval db =
     bindC (rdp (iasubopt_arr (ias db i)) k) (\<lambda>l.
     bindC (find_ipv6_pool None (ia_type (ias db i)) (addr6 (subs db l)) db) (\<lambda>(res, pool, db).
     case pool of None \<Rightarrow> change_loop change_func i (k + 1) n retval db
     | Some p \<Rightarrow>
         bindC (change_func k p l db) (\<lambda>(renew_retval, db).
           change_loop change_func i (k + 1) n
             (if renew_retval \<noteq> ISC_R_SUCCESS then renew_retval else retval) db)))"

definition change_leases :: "(nat \<Rightarrow> nat \<Rightarrow> sid \<Rightarrow> db6 \<Rightarrow> (isc_result \<times> db6) cres) \<Rightarrow> nat \<Rightarrow> db6
    \<Rightarrow> (isc_result \<times> db6) cres" where
  "change_leases change_func i db = change_loop change_func i 0 (num_iasubopt (ias db i)) ISC_R_SUCCESS db"

definition renew_leases :: "(nat \<Rightarrow> bool) \<Rightarrow> (nat \<Rightarrow> bool) \<Rightarrow> nat \<Rightarrow> db6 \<Rightarrow> (isc_result \<times> db6) cres" where
  "renew_leases allocs buckets = change_leases (\<lambda>k. renew_lease6 (allocs k) (buckets k))"

definition release_leases :: "(nat \<Rightarrow> bool) \<Rightarrow> nat \<Rightarrow> db6 \<Rightarrow> (isc_result \<times> db6) cres" where
  "release_leases allocs = change_leases (\<lambda>k. release_lease6 (allocs k))"

definition decline_leases :: "(nat \<Rightarrow> bool) \<Rightarrow> (nat \<Rightarrow> bool) \<Rightarrow> nat \<Rightarrow> db6 \<Rightarrow> (isc_result \<times> db6) cres" where
  "decline_leases allocs buckets = change_leases (\<lambda>k. decline_lease6 (allocs k) (buckets k))"

section \<open>Timeouts\<close>

definition EXPIRED_IPV6_CLEANUP_TIME :: int where
  "EXPIRED_IPV6_CLEANUP_TIME = 60 * 60"

text \<open>
  One of the three tests at the end of \<open>cleanup_old_expired\<close>. The lookup sets \<open>ia_active\<close> only if
  it finds something, and then does not return 0.
\<close>

definition drop_inactive_ia :: "nat \<Rightarrow> nat \<Rightarrow> db6 \<Rightarrow> db6" where
  "drop_inactive_ia t i db =
     (if ia_type (ias db i) = t \<and> num_iasubopt (ias db i) = 0 then
        (case ia_hash_lookup t (iaid_duid (ias db i)) db of
           (None, db) \<Rightarrow> (if None = Some i then ia_hash_delete t (iaid_duid (ias db i)) db else db)
         | (Some _, db) \<Rightarrow> db)
      else db)"

definition cleanup_timeout :: "iasubopt \<Rightarrow> int" where
  "cleanup_timeout r =
     (if hard_lifetime_end_time r \<noteq> 0 then hard_lifetime_end_time r + EXPIRED_IPV6_CLEANUP_TIME
      else soft_lifetime_end_time r)"

definition cleanup_one :: "nat \<Rightarrow> sid \<Rightarrow> db6 \<Rightarrow> db6 cres" where
  "cleanup_one p tmp db =
     bindC (timeouts_op isc_heap_delete False p (heap_index db tmp) db) (\<lambda>db.
     let db = count_inactive p (- 1) db
     in bindC (case ia6 (subs db tmp) of None \<Rightarrow> Ret db
          | Some i \<Rightarrow> bindC (ia_remove_iasubopt i tmp (emit6 [Ref_ia i] db)) (\<lambda>db.
              Ret (emit6 [Drop_ia i] (drop_inactive_ia D6O_IA_PD i
                (drop_inactive_ia D6O_IA_TA i (drop_inactive_ia D6O_IA_NA i db))))))
          (\<lambda>db. Ret (emit6 [Drop_sub tmp] db)))"

text \<open>A loop that does not end has the value \<open>None\<close>.\<close>

partial_function (option) cleanup_old_expired :: "nat \<Rightarrow> int \<Rightarrow> db6 \<Rightarrow> db6 cres option" where
  "cleanup_old_expired p cur_time db =
     (if num_inactive (pools6 db p) > 0 then
        (case element6 False p db of Fatal \<Rightarrow> Some Fatal | Undef \<Rightarrow> Some Undef
         | Ret tmp \<Rightarrow>
             if cur_time < cleanup_timeout (subs db tmp) then Some (Ret db)
             else (case cleanup_one p tmp db of Fatal \<Rightarrow> Some Fatal | Undef \<Rightarrow> Some Undef
                   | Ret db \<Rightarrow> cleanup_old_expired p cur_time db))
      else Some (Ret db))"

definition schedule_lease_timeout :: "nat \<Rightarrow> db6 \<Rightarrow> db6 cres" where
  "schedule_lease_timeout p db =
     bindC (if num_active (pools6 db p) > 0 then
              bindC (element6 True p db) (\<lambda>tmp.
                Ret (if hard_lifetime_end_time (subs db tmp) < MAX_TIME
                     then hard_lifetime_end_time (subs db tmp) + 1 else MAX_TIME))
            else Ret MAX_TIME) (\<lambda>next_timeout.
     bindC (if num_inactive (pools6 db p) > 0 then
              bindC (element6 False p db) (\<lambda>tmp.
                let r = subs db tmp;
                    timeout = (if hard_lifetime_end_time r \<noteq> 0
                      then hard_lifetime_end_time r + EXPIRED_IPV6_CLEANUP_TIME
                      else soft_lifetime_end_time r + 1)
                in Ret (if timeout < next_timeout then timeout else next_timeout))
            else Ret next_timeout) (\<lambda>next_timeout.
     Ret (if next_timeout < MAX_TIME then emit6 [Add_timeout next_timeout p] db else db)))"

fun schedule_pools :: "nat list \<Rightarrow> db6 \<Rightarrow> db6 cres" where
  "schedule_pools [] db = Ret db"
| "schedule_pools (p # ps) db = bindC (schedule_lease_timeout p db) (schedule_pools ps)"

definition schedule_all_ipv6_lease_timeouts :: "db6 \<Rightarrow> db6 cres" where
  "schedule_all_ipv6_lease_timeouts db = schedule_pools (pool_list db) db"

text \<open>The loop of \<open>lease_timeout_support\<close>; \<open>allocs k\<close> is the outcome of the allocation in round \<open>k\<close>.\<close>

partial_function (option) expire_loop :: "nat \<Rightarrow> int \<Rightarrow> (nat \<Rightarrow> bool) \<Rightarrow> nat \<Rightarrow> db6 \<Rightarrow> db6 cres option" where
  "expire_loop p cur_time allocs k db =
     (case expire_lease6 (allocs k) None p cur_time db of Fatal \<Rightarrow> Some Fatal | Undef \<Rightarrow> Some Undef
      | Ret (res, lease, db) \<Rightarrow>
          if res \<noteq> ISC_R_SUCCESS then Some (Ret db)
          else (case lease of None \<Rightarrow> Some (Ret db)
                | Some l \<Rightarrow> expire_loop p cur_time allocs (k + 1)
                    (emit6 [Write_ia (ia6 (subs db l)), Drop_sub l] db)))"

definition lease_timeout_support :: "nat \<Rightarrow> int \<Rightarrow> (nat \<Rightarrow> bool) \<Rightarrow> db6 \<Rightarrow> db6 cres option" where
  "lease_timeout_support p cur_time allocs db =
     (case expire_loop p cur_time allocs 0 db of None \<Rightarrow> None | Some Fatal \<Rightarrow> Some Fatal | Some Undef \<Rightarrow> Some Undef
      | Some (Ret db) \<Rightarrow>
          (case cleanup_old_expired p cur_time (emit6 [Commit_leases] db) of None \<Rightarrow> None
           | Some Fatal \<Rightarrow> Some Fatal | Some Undef \<Rightarrow> Some Undef
           | Some (Ret db) \<Rightarrow> Some (schedule_lease_timeout p db)))"

section \<open>Reading the state after an update\<close>

named_theorems db6_simps \<open>fields of the lease database after an update\<close>

lemma emit6_fields [db6_simps]:
  "subs (emit6 es db) = subs db" "heap_index (emit6 es db) = heap_index db" "ias (emit6 es db) = ias db"
  "pools6 (emit6 es db) = pools6 db" "trace6 (emit6 es db) = trace6 db @ es" "pool_list (emit6 es db) = pool_list db"
  by (simp_all add: emit6_def)

lemma upd_sub_fields [db6_simps]:
  "subs (upd_sub l f db) = (subs db)(l := f (subs db l))" "heap_index (upd_sub l f db) = heap_index db"
  "ias (upd_sub l f db) = ias db" "pools6 (upd_sub l f db) = pools6 db" "trace6 (upd_sub l f db) = trace6 db"
  by (simp_all add: upd_sub_def)

lemma upd_pool_fields [db6_simps]:
  "subs (upd_pool p f db) = subs db" "heap_index (upd_pool p f db) = heap_index db" "ias (upd_pool p f db) = ias db"
  "pools6 (upd_pool p f db) = (pools6 db)(p := f (pools6 db p))" "trace6 (upd_pool p f db) = trace6 db"
  by (simp_all add: upd_pool_def)

lemma count_active_fields [db6_simps]:
  "subs (count_active p d db) = subs db" "heap_index (count_active p d db) = heap_index db"
  "ias (count_active p d db) = ias db" "trace6 (count_active p d db) = trace6 db"
  "pools6 (count_active p d db) = (pools6 db)(p := (pools6 db p)\<lparr>num_active := num_active (pools6 db p) + d\<rparr>)"
  by (auto simp: count_active_def Let_def db6_simps split: option.split)

lemma count_abandoned_fields [db6_simps]:
  "subs (count_abandoned p d db) = subs db" "heap_index (count_abandoned p d db) = heap_index db"
  "ias (count_abandoned p d db) = ias db" "trace6 (count_abandoned p d db) = trace6 db"
  "pools6 (count_abandoned p d db) = (pools6 db)(p := (pools6 db p)\<lparr>num_abandoned := num_abandoned (pools6 db p) + d\<rparr>)"
  by (auto simp: count_abandoned_def Let_def db6_simps split: option.split)

lemma count_inactive_fields [db6_simps]:
  "subs (count_inactive p k db) = subs db" "heap_index (count_inactive p k db) = heap_index db"
  "ias (count_inactive p k db) = ias db" "trace6 (count_inactive p k db) = trace6 db"
  "pools6 (count_inactive p k db) = (pools6 db)(p := (pools6 db p)\<lparr>num_inactive := num_inactive (pools6 db p) + k\<rparr>)"
  by (simp_all add: count_inactive_def db6_simps)

lemma set_timeouts_fields [db6_simps]:
  "subs (set_timeouts act p h idx db) = subs db" "heap_index (set_timeouts act p h idx db) = idx"
  "ias (set_timeouts act p h idx db) = ias db" "trace6 (set_timeouts act p h idx db) = trace6 db"
  "pools6 (set_timeouts act p h idx db) = (pools6 db)(p :=
     if act then (pools6 db p)\<lparr>active_timeouts := h\<rparr> else (pools6 db p)\<lparr>inactive_timeouts := h\<rparr>)"
  by (simp_all add: set_timeouts_def db6_simps)

lemma hash_add_fields [db6_simps]:
  "subs (iasubopt_hash_add b p a l db) = subs db" "heap_index (iasubopt_hash_add b p a l db) = heap_index db"
  "ias (iasubopt_hash_add b p a l db) = ias db"
  "b \<Longrightarrow> pools6 (iasubopt_hash_add b p a l db) = (pools6 db)(p := (pools6 db p)\<lparr>leases :=
     (leases (pools6 db p))(a := l # leases (pools6 db p) a)\<rparr>)"
  by (simp_all add: iasubopt_hash_add_def db6_simps)

lemma hash_delete_fields [db6_simps]:
  "subs (iasubopt_hash_delete p a db) = subs db" "heap_index (iasubopt_hash_delete p a db) = heap_index db"
  "ias (iasubopt_hash_delete p a db) = ias db"
  "pools6 (iasubopt_hash_delete p a db) = (pools6 db)(p := (pools6 db p)\<lparr>leases :=
     (leases (pools6 db p))(a := tl (leases (pools6 db p) a))\<rparr>)"
  by (auto simp: iasubopt_hash_delete_def db6_simps fun_upd_idem split: list.split)

text \<open>The members of a heap of a pool, and that the heap is one for the current order of leases.\<close>

definition members :: "bool \<Rightarrow> nat \<Rightarrow> db6 \<Rightarrow> sid multiset" where
  "members act p db = elems_of (timeouts act p db)"

definition rep :: "bool \<Rightarrow> nat \<Rightarrow> db6 \<Rightarrow> bool" where
  "rep act p db \<longleftrightarrow> heap_rep (lease_older (subs db)) (timeouts act p db) (heap_index db)"

text \<open>What a heap depends on: its own record, the lifetimes and the indices of its members.\<close>

definition raw_heap :: "bool \<Rightarrow> nat \<Rightarrow> db6 \<Rightarrow> timeouts6" where
  "raw_heap act p db = (if act then active_timeouts (pools6 db p) else inactive_timeouts (pools6 db p))"

lemma members_raw: "members act p db = elems_of (raw_heap act p db)"
  by (simp add: members_def timeouts_def raw_heap_def)

lemma members_cong: "raw_heap act p db' = raw_heap act p db \<Longrightarrow> members act p db' = members act p db"
  by (simp add: members_raw)

lemma heap_rep_cong:
  assumes "\<And>x y. x \<in># elems_of h \<Longrightarrow> y \<in># elems_of h \<Longrightarrow> cmp' x y = cmp x y" "\<And>x. x \<in># elems_of h \<Longrightarrow> f' x = f x"
    and "heap_rep cmp (h\<lparr>compare_h := cmp\<rparr>) f"
  shows "heap_rep cmp' (h\<lparr>compare_h := cmp'\<rparr>) f'"
proof -
  have in_h: "elem_at (array_h h) k \<in># elems_of h" if "1 \<le> k" "k \<le> last_h h" for k
    using that by (simp add: heap_elems_def)
  have "heap_ok cmp (last_h h) (array_h h)" "tracked (last_h h) {} (array_h h) f"
    using assms(3) by (auto simp: heap_rep_def heap_inv_def)
  then have "heap_ok cmp' (last_h h) (array_h h)" "tracked (last_h h) {} (array_h h) f'"
    using assms(1,2) in_h by (auto simp: heap_ok_def tracked_def)
  with assms(3) show ?thesis by (auto simp: heap_rep_def heap_inv_def)
qed

lemma rep_cong:
  assumes "rep act p db" "raw_heap act p db' = raw_heap act p db"
    and "\<And>x. x \<in># members act p db \<Longrightarrow> heap_index db' x = heap_index db x
      \<and> hard_lifetime_end_time (subs db' x) = hard_lifetime_end_time (subs db x)
      \<and> soft_lifetime_end_time (subs db' x) = soft_lifetime_end_time (subs db x)"
  shows "rep act p db'"
proof -
  have t: "timeouts act p d = (raw_heap act p d)\<lparr>compare_h := lease_older (subs d)\<rparr>" for d
    by (simp add: timeouts_def raw_heap_def)
  show ?thesis
    using assms heap_rep_cong [of "raw_heap act p db" "lease_older (subs db')" "lease_older (subs db)"
        "heap_index db'" "heap_index db"]
    unfolding rep_def t members_raw by (simp add: lease_older_def)
qed

text \<open>The heap operations on a pool.\<close>

lemma raw_set_timeouts [simp]:
  "raw_heap act p (set_timeouts act p h idx db) = h"
  "act \<noteq> act' \<Longrightarrow> raw_heap act' p (set_timeouts act p h idx db) = raw_heap act' p db"
  by (auto simp: raw_heap_def db6_simps)

lemma rep_set_timeouts:
  assumes "heap_rep (lease_older (subs db)) h idx"
  shows "rep act p (set_timeouts act p h idx db)"
proof -
  have "timeouts act p (set_timeouts act p h idx db) = h\<lparr>compare_h := lease_older (subs db)\<rparr>"
    by (cases act) (simp_all add: timeouts_def db6_simps)
  moreover have "h\<lparr>compare_h := lease_older (subs db)\<rparr> = h" using assms by (simp add: heap_rep_def)
  ultimately show ?thesis using assms by (simp add: rep_def db6_simps)
qed

lemma members_set_timeouts [simp]:
  "members act p (set_timeouts act p h idx db) = elems_of h"
  "act \<noteq> act' \<Longrightarrow> members act' p (set_timeouts act p h idx db) = members act' p db"
  by (simp_all add: members_raw)

text \<open>
  \<open>n\<close> insertions into a heap find room: each one has a free place in the array as it is now, or the
  allocation that grows the array succeeds.
\<close>

definition room :: "(nat \<Rightarrow> bool) \<Rightarrow> nat \<Rightarrow> bool \<Rightarrow> nat \<Rightarrow> db6 \<Rightarrow> bool" where
  "room allocs n act p db \<longleftrightarrow>
     (\<forall>i < n. allocs i \<or> size (members act p db) + i + 1 < size_h (raw_heap act p db))"

lemma room_one: "room (\<lambda>_. alloc) (Suc 0) act p db \<longleftrightarrow> alloc \<or> size (members act p db) + 1 < size_h (raw_heap act p db)"
  by (auto simp: room_def)

lemma size_elems_of: "size (elems_of h) = last_h h"
  by (simp add: heap_elems_def)

lemma room_shrink:
  assumes "room allocs n act p db" "members act p db' \<subseteq># members act p db"
    "size_h (raw_heap act p db) \<le> size_h (raw_heap act p db')"
  shows "room allocs n act p db'"
proof -
  have "size (members act p db') \<le> size (members act p db)" using assms(2) by (rule size_mset_mono)
  then show ?thesis using assms(1,3) by (force simp: room_def)
qed

lemma room_cong: "raw_heap act p db' = raw_heap act p db \<Longrightarrow> room allocs n act p db' = room allocs n act p db"
  by (simp add: room_def members_raw)

lemma timeouts_insert_spec:
  assumes "rep act p db" "l \<notin># members act p db" "room (\<lambda>_. alloc) (Suc 0) act p db"
  obtains h idx where "timeouts_insert alloc act p l db = Ret (ISC_R_SUCCESS, set_timeouts act p h idx db)"
    and "heap_rep (lease_older (subs db)) h idx" "elems_of h = add_mset l (members act p db)"
    and "size_h (raw_heap act p db) \<le> size_h h"
    and "\<And>y. y \<noteq> l \<Longrightarrow> y \<notin># members act p db \<Longrightarrow> idx y = heap_index db y"
proof -
  have "last_h (timeouts act p db) + 1 < size_h (timeouts act p db) \<or> alloc"
    using assms(3) by (auto simp: room_one members_raw size_elems_of timeouts_def raw_heap_def split: if_splits)
  moreover have "size_h (timeouts act p db) = size_h (raw_heap act p db)" by (simp add: timeouts_def raw_heap_def)
  ultimately show thesis
    using older.insert_rep [of "subs db" "timeouts act p db" "heap_index db" l alloc] assms(1,2) that
    by (auto simp: timeouts_insert_def rep_def members_def)
qed

text \<open>Deletion at the index that \<open>idx0\<close> has for the lease, while its index is already another one.\<close>

lemma timeouts_delete_spec:
  assumes "heap_rep (lease_older (subs db)) (timeouts act p db) idx0" "l \<in># members act p db"
    and "\<And>y. y \<in># members act p db \<Longrightarrow> y \<noteq> l \<Longrightarrow> heap_index db y = idx0 y"
  obtains h idx where "timeouts_op isc_heap_delete act p (idx0 l) db = Ret (set_timeouts act p h idx db)"
    and "heap_rep (lease_older (subs db)) h idx" "elems_of h = members act p db - {#l#}"
    and "size_h h = size_h (raw_heap act p db)"
    and "\<And>y. y \<notin># members act p db - {#l#} \<Longrightarrow> idx y = heap_index db y"
proof -
  have "size_h (timeouts act p db) = size_h (raw_heap act p db)" by (simp add: timeouts_def raw_heap_def)
  then show thesis
    using older.delete_at_rep [of "subs db" "timeouts act p db" idx0 l "heap_index db"] assms that
    by (auto simp: timeouts_op_def members_def)
qed

lemma element6_spec:
  assumes "rep act p db" "members act p db \<noteq> {#}"
  obtains l where "element6 act p db = Ret l" "l \<in># members act p db"
    "\<And>k. k \<in># members act p db \<Longrightarrow> hard_lifetime_end_time (subs db l) \<le> hard_lifetime_end_time (subs db k)"
proof -
  obtain l where l: "isc_heap_element (timeouts act p db) 1 = Ret (Some l)" "l \<in># members act p db"
      "\<forall>k \<in># members act p db. \<not> lease_older (subs db) k l"
    using older.first_rep assms unfolding rep_def members_def by blast
  have "hard_lifetime_end_time (subs db l) \<le> hard_lifetime_end_time (subs db k)" if "k \<in># members act p db" for k
    using l(3) that by (auto simp: lease_older_def split: if_splits)
  with l that show thesis by (simp add: element6_def)
qed

end
