(* ===== verification/Pool6_Inv.thy ===== *)
theory Pool6_Inv
  imports Pool6
begin

text \<open>
  The invariant of an IPv6 pool and what the operations of \<open>server/mdb6.c\<close> do to it: the two heaps
  hold the active and the inactive leases, the hash table finds exactly the active leases (and the
  addresses marked unavailable), and the counters count.
\<close>

section \<open>The invariant\<close>

definition abandoned_count :: "nat \<Rightarrow> db6 \<Rightarrow> nat" where
  "abandoned_count p db = size (filter_mset (\<lambda>l. state6 (subs db l) = FTS_ABANDONED) (members True p db))"

definition hash_ok :: "nat \<Rightarrow> db6 \<Rightarrow> bool" where
  "hash_ok p db \<longleftrightarrow> (\<forall>a. length (leases (pools6 db p) a) \<le> 1)
     \<and> (\<forall>a. \<forall>l \<in> set (leases (pools6 db p) a). addr6 (subs db l) = a \<and> l \<notin># members False p db
          \<and> (on_active_heap (state6 (subs db l)) \<longrightarrow> l \<in># members True p db))
     \<and> (\<forall>l \<in># members True p db. leases (pools6 db p) (addr6 (subs db l)) = [l])"

definition states_ok :: "nat \<Rightarrow> db6 \<Rightarrow> bool" where
  "states_ok p db \<longleftrightarrow> (\<forall>l \<in># members True p db. on_active_heap (state6 (subs db l)))
     \<and> (\<forall>l \<in># members False p db. \<not> on_active_heap (state6 (subs db l)))"

definition counts_ok :: "nat \<Rightarrow> db6 \<Rightarrow> bool" where
  "counts_ok p db \<longleftrightarrow> num_active (pools6 db p) = of_nat (size (members True p db))
     \<and> num_inactive (pools6 db p) = int (size (members False p db))
     \<and> num_abandoned (pools6 db p) = of_nat (abandoned_count p db)"

definition pool_inv :: "nat \<Rightarrow> db6 \<Rightarrow> bool" where
  "pool_inv p db \<longleftrightarrow> rep True p db \<and> rep False p db \<and> hash_ok p db \<and> states_ok p db \<and> counts_ok p db"

lemma heap_rep_count: "heap_rep cmp h f \<Longrightarrow> count (elems_of h) x \<le> 1"
proof -
  assume "heap_rep cmp h f"
  then have "inj_on (elem_at (array_h h)) {1..last_h h}"
    using tracked_distinct [of "last_h h" "{}" "array_h h" f] by (simp add: heap_rep_def)
  then have "elems_of h = mset_set (elem_at (array_h h) ` {1..last_h h})"
    by (simp add: heap_elems_def image_mset_mset_set)
  then show ?thesis by (simp add: count_mset_set')
qed

lemma rep_count: "rep act p db \<Longrightarrow> count (members act p db) x \<le> 1"
  unfolding rep_def members_def by (rule heap_rep_count)

lemma not_in_rest: "rep act p db \<Longrightarrow> l \<notin># members act p db - {#l#}"
  using rep_count [of act p db l] by (simp add: in_diff_count)

lemma in_rest: "rep act p db \<Longrightarrow> y \<in># members act p db - {#l#} \<longleftrightarrow> y \<in># members act p db \<and> y \<noteq> l"
  using not_in_rest [of act p db l] by (auto dest: in_diffD simp: insert_DiffM2 in_diff_count)

lemma heaps_disjoint: "states_ok p db \<Longrightarrow> l \<in># members True p db \<Longrightarrow> l \<notin># members False p db"
  by (auto simp: states_ok_def)

lemma abandoned_count_cong:
  assumes "members True p db' = members True p db"
    and "\<And>l. l \<in># members True p db \<Longrightarrow> state6 (subs db' l) = FTS_ABANDONED \<longleftrightarrow> state6 (subs db l) = FTS_ABANDONED"
  shows "abandoned_count p db' = abandoned_count p db"
  unfolding abandoned_count_def assms(1) using assms(2) by (simp cong: filter_mset_cong)

section \<open>Leaving the active heap\<close>

lemma leave_active_fields [db6_simps]:
  "subs (leave_active p l st db) = (subs db)(l := (subs db l)\<lparr>on_expiry6 := None, on_release6 := None, scope6 := None\<rparr>)"
  "heap_index (leave_active p l st db) = heap_index db" "pools6 (leave_active p l st db) = pools6 db"
  "ias (leave_active p l st db) = ias db"
  by (simp_all add: leave_active_def Let_def db6_simps)

text \<open>The two heap operations of \<open>move_lease_to_inactive\<close>.\<close>

lemma swap_to_inactive:
  assumes rep: "rep True p db" "rep False p db" and l: "l \<in># members True p db" "l \<notin># members False p db"
    and dis: "\<And>y. y \<in># members True p db \<Longrightarrow> y \<notin># members False p db"
    and mem: "room (\<lambda>_. alloc) (Suc 0) False p db"
  obtains h1 i1 h2 i2 where
    "timeouts_insert alloc False p l db = Ret (ISC_R_SUCCESS, set_timeouts False p h1 i1 db)"
    "timeouts_op isc_heap_delete True p (heap_index db l)
       (iasubopt_hash_delete p a (leave_active p l st (set_timeouts False p h1 i1 db)))
     = Ret (set_timeouts True p h2 i2
         (iasubopt_hash_delete p a (leave_active p l st (set_timeouts False p h1 i1 db))))"
    "rep True p (set_timeouts True p h2 i2
         (iasubopt_hash_delete p a (leave_active p l st (set_timeouts False p h1 i1 db))))"
    "rep False p (set_timeouts True p h2 i2
         (iasubopt_hash_delete p a (leave_active p l st (set_timeouts False p h1 i1 db))))"
    "elems_of h1 = add_mset l (members False p db)" "elems_of h2 = members True p db - {#l#}"
    "size_h (raw_heap False p db) \<le> size_h h1"
proof -
  obtain h1 i1 where ins: "timeouts_insert alloc False p l db = Ret (ISC_R_SUCCESS, set_timeouts False p h1 i1 db)"
      "heap_rep (lease_older (subs db)) h1 i1" "elems_of h1 = add_mset l (members False p db)"
      "\<And>y. y \<noteq> l \<Longrightarrow> y \<notin># members False p db \<Longrightarrow> i1 y = heap_index db y"
      "size_h (raw_heap False p db) \<le> size_h h1"
    using timeouts_insert_spec [OF rep(2) l(2) mem] by blast
  define db1 where "db1 = set_timeouts False p h1 i1 db"
  define db2 where "db2 = iasubopt_hash_delete p a (leave_active p l st db1)"
  have raw: "raw_heap act p db2 = raw_heap act p db1" for act
    by (simp add: db2_def raw_heap_def db6_simps)
  have mem2: "members True p db2 = members True p db" "members False p db2 = add_mset l (members False p db)"
    using members_cong [OF raw] ins(3) by (simp_all add: db1_def)
  have "rep True p (db2\<lparr>heap_index := heap_index db\<rparr>)"
  proof (rule rep_cong [OF rep(1)])
    show "raw_heap True p (db2\<lparr>heap_index := heap_index db\<rparr>) = raw_heap True p db"
      using raw [of True] by (simp add: raw_heap_def db1_def db6_simps)
  qed (auto simp: db2_def db1_def db6_simps)
  then have "heap_rep (lease_older (subs db2)) (timeouts True p db2) (heap_index db)"
    by (simp add: rep_def timeouts_def)
  moreover have "heap_index db2 y = heap_index db y" if "y \<in># members True p db2" "y \<noteq> l" for y
    using ins(4) [of y] dis [of y] that mem2 by (simp add: db2_def db1_def db6_simps)
  moreover have "l \<in># members True p db2" using mem2 l by simp
  ultimately obtain h2 i2 where
    del: "timeouts_op isc_heap_delete True p (heap_index db l) db2 = Ret (set_timeouts True p h2 i2 db2)"
      "heap_rep (lease_older (subs db2)) h2 i2" "elems_of h2 = members True p db2 - {#l#}"
      "\<And>y. y \<notin># members True p db2 - {#l#} \<Longrightarrow> i2 y = heap_index db2 y"
    using timeouts_delete_spec [of db2 True p "heap_index db" l] by blast
  have "rep False p db1" unfolding db1_def by (rule rep_set_timeouts [OF ins(2)])
  then have r: "rep False p (set_timeouts True p h2 i2 db2)"
  proof (rule rep_cong)
    show "raw_heap False p (set_timeouts True p h2 i2 db2) = raw_heap False p db1" using raw by simp
    fix y assume "y \<in># members False p db1"
    then have "y \<notin># members True p db2 - {#l#}"
      using ins(3) dis not_in_rest [OF rep(1)] mem2 by (auto simp: db1_def dest: in_diffD)
    then show "heap_index (set_timeouts True p h2 i2 db2) y = heap_index db1 y
        \<and> hard_lifetime_end_time (subs (set_timeouts True p h2 i2 db2) y) = hard_lifetime_end_time (subs db1 y)
        \<and> soft_lifetime_end_time (subs (set_timeouts True p h2 i2 db2) y) = soft_lifetime_end_time (subs db1 y)"
      using del(4) by (simp add: db6_simps db2_def)
  qed
  show thesis
    using that [of h1 i1 h2 i2] ins(1,3,5) del(1,3) mem2 r rep_set_timeouts [OF del(2)]
    unfolding db1_def db2_def by simp
qed

text \<open>A lease that is no longer a member is out of the hash table, the others are still found.\<close>

lemma hash_ok_leave:
  assumes "hash_ok p db" "rep True p db" "l \<in># members True p db"
    and "members True p db' = members True p db - {#l#}" "members False p db' = add_mset l (members False p db)"
    and "leases (pools6 db' p) = (leases (pools6 db p))(addr6 (subs db l) := tl (leases (pools6 db p) (addr6 (subs db l))))"
    and "\<And>k. addr6 (subs db' k) = addr6 (subs db k)" "\<And>k. k \<noteq> l \<Longrightarrow> state6 (subs db' k) = state6 (subs db k)"
  shows "hash_ok p db'"
proof -
  let ?a = "addr6 (subs db l)"
  have at: "leases (pools6 db p) ?a = [l]" using assms(1,3) by (simp add: hash_ok_def)
  then have ls: "leases (pools6 db' p) = (leases (pools6 db p))(?a := [])" using assms(6) by simp
  have other: "addr6 (subs db k) \<noteq> ?a" if "k \<in># members True p db" "k \<noteq> l" for k
    using assms(1) that at by (auto simp: hash_ok_def)
  have rest: "k \<in># members True p db - {#l#} \<longleftrightarrow> k \<in># members True p db \<and> k \<noteq> l" for k
    by (rule in_rest [OF assms(2)])
  show ?thesis
    unfolding hash_ok_def assms(4,5) rest ls
  proof (intro conjI allI ballI)
    fix k assume "k \<in># members True p db - {#l#}"
    then show "((leases (pools6 db p))(?a := [])) (addr6 (subs db' k)) = [k]"
      using other assms(1,7) rest by (auto simp: hash_ok_def)
  next
    fix a k assume k: "k \<in> set (((leases (pools6 db p))(?a := [])) a)"
    then have a: "a \<noteq> ?a" "k \<in> set (leases (pools6 db p) a)" by (auto split: if_splits)
    then have kl: "addr6 (subs db k) = a" "k \<noteq> l" using assms(1) by (auto simp: hash_ok_def)
    show "addr6 (subs db' k) = a" using kl assms(7) by simp
    show "k \<notin># add_mset l (members False p db)" using a kl assms(1) by (auto simp: hash_ok_def)
    show "on_active_heap (state6 (subs db' k)) \<longrightarrow> k \<in># members True p db \<and> k \<noteq> l"
      using a kl assms(1,8) by (auto simp: hash_ok_def)
  qed (use assms(1) in \<open>auto simp: hash_ok_def\<close>)
qed

lemma abandoned_count_leave:
  assumes "rep True p db" "state6 (subs db l) \<noteq> FTS_ABANDONED" "members True p db' = members True p db - {#l#}"
    and "\<And>k. k \<noteq> l \<Longrightarrow> state6 (subs db' k) = state6 (subs db k)"
  shows "abandoned_count p db' = abandoned_count p db"
proof -
  have "filter_mset (\<lambda>k. state6 (subs db' k) = FTS_ABANDONED) (members True p db - {#l#})
      = filter_mset (\<lambda>k. state6 (subs db k) = FTS_ABANDONED) (members True p db - {#l#})"
    using in_rest [OF assms(1)] assms(4) by (intro filter_mset_cong) auto
  also have "\<dots> = filter_mset (\<lambda>k. state6 (subs db k) = FTS_ABANDONED) (members True p db)"
    using assms(2) by simp
  finally show ?thesis unfolding abandoned_count_def assms(3) by (rule arg_cong)
qed

text \<open>What leaving the active heap does: the lease is a member of the inactive heap afterwards.\<close>

definition moved_to_inactive :: "nat \<Rightarrow> sid \<Rightarrow> byte \<Rightarrow> db6 \<Rightarrow> db6 \<Rightarrow> bool" where
  "moved_to_inactive p l st db db' \<longleftrightarrow>
     members True p db' = members True p db - {#l#} \<and> members False p db' = add_mset l (members False p db)
     \<and> size_h (raw_heap False p db) \<le> size_h (raw_heap False p db') \<and> leases (pools6 db' p) (addr6 (subs db l)) = []
     \<and> subs db' = (subs db)(l := (subs db l)\<lparr>on_expiry6 := None, on_release6 := None, scope6 := None, state6 := st\<rparr>)
     \<and> ias db' = ias db"

lemma move_lease_to_inactive_spec:
  assumes inv: "pool_inv p db" and l: "l \<in># members True p db" "state6 (subs db l) \<noteq> FTS_ABANDONED"
    and st: "\<not> on_active_heap st" and room: "room (\<lambda>_. alloc) (Suc 0) False p db"
  shows "\<exists>db'. move_lease_to_inactive alloc p l st db = Ret (ISC_R_SUCCESS, db') \<and> pool_inv p db'
    \<and> moved_to_inactive p l st db db'"
proof -
  note inv' = inv [unfolded pool_inv_def]
  let ?a = "addr6 (subs db l)"
  obtain h1 i1 h2 i2 where
    r: "timeouts_insert alloc False p l db = Ret (ISC_R_SUCCESS, set_timeouts False p h1 i1 db)"
      "timeouts_op isc_heap_delete True p (heap_index db l)
         (iasubopt_hash_delete p ?a (leave_active p l st (set_timeouts False p h1 i1 db)))
       = Ret (set_timeouts True p h2 i2
           (iasubopt_hash_delete p ?a (leave_active p l st (set_timeouts False p h1 i1 db))))"
      "rep True p (set_timeouts True p h2 i2
           (iasubopt_hash_delete p ?a (leave_active p l st (set_timeouts False p h1 i1 db))))"
      "rep False p (set_timeouts True p h2 i2
           (iasubopt_hash_delete p ?a (leave_active p l st (set_timeouts False p h1 i1 db))))"
      "elems_of h1 = add_mset l (members False p db)" "elems_of h2 = members True p db - {#l#}"
      "size_h (raw_heap False p db) \<le> size_h h1"
    using swap_to_inactive [of p db l alloc ?a st] inv' l heaps_disjoint [of p db] room by metis
  define db2 where "db2 = iasubopt_hash_delete p ?a (leave_active p l st (set_timeouts False p h1 i1 db))"
  define db3 where "db3 = set_timeouts True p h2 i2 db2"
  define db4 where "db4 = count_inactive p 1 (count_active p (- 1) (upd_sub l (\<lambda>s. s\<lparr>state6 := st\<rparr>) db3))"
  have run: "move_lease_to_inactive alloc p l st db = Ret (ISC_R_SUCCESS, db4)"
    using r(1,2) st unfolding move_lease_to_inactive_def db4_def db3_def db2_def
    by (simp add: Let_def db6_simps on_active_heap_def)
  have raw: "raw_heap act p db4 = raw_heap act p db3" for act by (simp add: db4_def raw_heap_def db6_simps)
  have mem: "members True p db4 = members True p db - {#l#}" "members False p db4 = add_mset l (members False p db)"
    using r(5,6) by (simp_all add: db4_def db3_def db2_def members_raw raw_heap_def db6_simps)
  have sz: "size_h (raw_heap False p db) \<le> size_h (raw_heap False p db4)"
    using r(7) by (simp add: db4_def db3_def db2_def raw_heap_def db6_simps)
  have "leases (pools6 db p) ?a = [l]" using inv' l by (simp add: hash_ok_def)
  then have gone: "leases (pools6 db4 p) ?a = []" by (simp add: db4_def db3_def db2_def db6_simps)
  have ias: "ias db4 = ias db" by (simp add: db4_def db3_def db2_def db6_simps)
  have subs: "subs db4 = (subs db)(l := (subs db l)\<lparr>on_expiry6 := None, on_release6 := None, scope6 := None, state6 := st\<rparr>)"
    by (simp add: db4_def db3_def db2_def db6_simps)
  have "rep act p db4" for act
    by (rule rep_cong [of act p db3]) (cases act, use r(3,4) raw in \<open>auto simp: db4_def db3_def db2_def db6_simps\<close>)
  moreover have "hash_ok p db4"
    by (rule hash_ok_leave [of p db l]) (use inv' l mem in \<open>simp_all add: subs db4_def db3_def db2_def db6_simps\<close>)
  moreover have "states_ok p db4"
    using inv' mem st in_rest [of True p db] heaps_disjoint [of p db]
    by (auto simp: states_ok_def subs)
  moreover have "abandoned_count p db4 = abandoned_count p db"
    using inv' l mem by (intro abandoned_count_leave [of p db l]) (simp_all add: subs)
  then have "counts_ok p db4"
    using inv' l mem by (auto simp: counts_ok_def db4_def db3_def db2_def db6_simps size_Diff_singleton of_nat_diff
        Suc_le_eq dest!: multi_member_split)
  ultimately show ?thesis using run mem subs ias sz gone by (auto simp: pool_inv_def moved_to_inactive_def)
qed

section \<open>Expiry\<close>

lemma emit6_members [simp]: "members act p (emit6 es db) = members act p db"
  by (simp add: members_raw raw_heap_def db6_simps)

lemma emit6_inv [simp]: "pool_inv p (emit6 es db) = pool_inv p db"
  by (simp add: pool_inv_def rep_def timeouts_def hash_ok_def states_ok_def counts_ok_def abandoned_count_def db6_simps)

lemma emit6_moved [simp]: "moved_to_inactive p l st db (emit6 es db') = moved_to_inactive p l st db db'"
  by (simp add: moved_to_inactive_def raw_heap_def db6_simps)











section \<open>Cleaning up inactive leases\<close>

text \<open>What the invariant of a pool reads of a lease.\<close>

definition same_leases :: "db6 \<Rightarrow> db6 \<Rightarrow> bool" where
  "same_leases db db' \<longleftrightarrow> pools6 db' = pools6 db \<and> heap_index db' = heap_index db
     \<and> (\<forall>l. addr6 (subs db' l) = addr6 (subs db l) \<and> state6 (subs db' l) = state6 (subs db l)
        \<and> hard_lifetime_end_time (subs db' l) = hard_lifetime_end_time (subs db l)
        \<and> soft_lifetime_end_time (subs db' l) = soft_lifetime_end_time (subs db l))"

lemma same_leases_refl [simp]: "same_leases db db"
  and same_leases_trans: "same_leases db db' \<Longrightarrow> same_leases db' db'' \<Longrightarrow> same_leases db db''"
  and same_leases_emit [simp]: "same_leases db (emit6 es db') = same_leases db db'"
  by (auto simp: same_leases_def db6_simps)















section \<open>Adding a lease\<close>

text \<open>Whether a lease is known to a pool at all.\<close>

definition known :: "nat \<Rightarrow> sid \<Rightarrow> db6 \<Rightarrow> bool" where
  "known p l db \<longleftrightarrow> l \<in># members True p db \<or> l \<in># members False p db \<or> (\<exists>a. l \<in> set (leases (pools6 db p) a))"

lemma change_unknown:
  assumes "pool_inv p db" "\<not> known p l db" "pools6 db' = pools6 db" "\<And>k. k \<noteq> l \<Longrightarrow> heap_index db' k = heap_index db k"
    and "\<And>k. k \<noteq> l \<Longrightarrow> subs db' k = subs db k"
  shows "pool_inv p db'" "members act p db' = members act p db"
proof -
  have raw: "raw_heap act p db' = raw_heap act p db" for act by (simp add: raw_heap_def assms(3))
  then show m: "members act p db' = members act p db" for act by (rule members_cong)
  have "rep act p db'" if "rep act p db" "l \<notin># members act p db" for act
  proof (rule rep_cong [OF that(1) raw])
    fix x assume "x \<in># members act p db"
    with that(2) have "subs db' x = subs db x" "heap_index db' x = heap_index db x" using assms(4,5) by metis+
    then show "heap_index db' x = heap_index db x
        \<and> hard_lifetime_end_time (subs db' x) = hard_lifetime_end_time (subs db x)
        \<and> soft_lifetime_end_time (subs db' x) = soft_lifetime_end_time (subs db x)"
      by simp
  qed
  moreover have mem: "subs db' k = subs db k" if "k \<in># members act p db" for k act
    using that assms(2) assms(5) [of k] unfolding known_def by (cases act) auto
  moreover have "subs db' k = subs db k" if "k \<in> set (leases (pools6 db p) a)" for k a
    using that assms(2) assms(5) [of k] unfolding known_def by auto
  moreover have "abandoned_count p db' = abandoned_count p db"
    using m mem [of _ True] by (intro abandoned_count_cong) auto
  ultimately show "pool_inv p db'"
    using assms(1,2) unfolding pool_inv_def hash_ok_def states_ok_def counts_ok_def m assms(3)
    by (auto simp: known_def)
qed

lemma hash_ok_remove:
  assumes "hash_ok p db" "rep True p db" "l \<in># members True p db"
    and "members True p db' = members True p db - {#l#}" "members False p db' = members False p db"
    and "leases (pools6 db' p) = (leases (pools6 db p))(addr6 (subs db l) := tl (leases (pools6 db p) (addr6 (subs db l))))"
    and "subs db' = subs db"
  shows "hash_ok p db'"
proof -
  let ?a = "addr6 (subs db l)"
  have at: "leases (pools6 db p) ?a = [l]" using assms(1,3) by (simp add: hash_ok_def)
  have other: "addr6 (subs db k) \<noteq> ?a" if "k \<in># members True p db" "k \<noteq> l" for k
    using assms(1) that at by (auto simp: hash_ok_def)
  have rest: "k \<in># members True p db - {#l#} \<longleftrightarrow> k \<in># members True p db \<and> k \<noteq> l" for k
    by (rule in_rest [OF assms(2)])
  have ls: "leases (pools6 db' p) = (leases (pools6 db p))(?a := [])" using assms(6) at by simp
  show ?thesis
    unfolding hash_ok_def assms(4,5,7) rest ls
  proof (intro conjI allI ballI)
    fix k assume "k \<in># members True p db - {#l#}"
    then show "((leases (pools6 db p))(?a := [])) (addr6 (subs db k)) = [k]"
      using other assms(1) rest by (auto simp: hash_ok_def)
  next
    fix a k assume k: "k \<in> set (((leases (pools6 db p))(?a := [])) a)"
    then have a: "a \<noteq> ?a" "k \<in> set (leases (pools6 db p) a)" by (auto split: if_splits)
    show "addr6 (subs db k) = a" "k \<notin># members False p db" using a assms(1) by (auto simp: hash_ok_def)
    show "on_active_heap (state6 (subs db k)) \<longrightarrow> k \<in># members True p db \<and> k \<noteq> l"
      using a assms(1) by (auto simp: hash_ok_def)
  qed (use assms(1) in \<open>auto simp: hash_ok_def\<close>)
qed

lemma remove_old_lease_spec:
  assumes inv: "pool_inv p db" and k: "k \<in># members True p db"
  shows "\<exists>db'. remove_old_lease p k db = Ret db' \<and> pool_inv p db' \<and> members True p db' = members True p db - {#k#}
    \<and> members False p db' = members False p db \<and> subs db' = subs db
    \<and> (\<forall>act. size_h (raw_heap act p db') = size_h (raw_heap act p db))
    \<and> leases (pools6 db' p) = (leases (pools6 db p))(addr6 (subs db k) := [])"
proof -
  note inv' = inv [unfolded pool_inv_def]
  let ?a = "addr6 (subs db k)"
  have act: "on_active_heap (state6 (subs db k))" using inv' k by (simp add: states_ok_def)
  have hr: "heap_rep (lease_older (subs db)) (timeouts True p db) (heap_index db)" using inv' by (simp add: rep_def)
  obtain h idx where del: "timeouts_op isc_heap_delete True p (heap_index db k) db = Ret (set_timeouts True p h idx db)"
      "heap_rep (lease_older (subs db)) h idx" "elems_of h = members True p db - {#k#}"
      "\<And>y. y \<notin># members True p db - {#k#} \<Longrightarrow> idx y = heap_index db y" "size_h h = size_h (raw_heap True p db)"
    using timeouts_delete_spec [OF hr k] by metis
  define db1 where "db1 = set_timeouts True p h idx db"
  define db2 where "db2 = count_active p (- 1) db1"
  define db3 where "db3 = (if state6 (subs db k) = FTS_ABANDONED then count_abandoned p (- 1) db2 else db2)"
  define db4 where "db4 = emit6 [Drop_sub k, Drop_sub k] (iasubopt_hash_delete p ?a db3)"
  have fields: "subs db4 = subs db" "heap_index db4 = heap_index db1" "raw_heap act p db4 = raw_heap act p db1" for act
    by (simp_all add: db4_def db3_def db2_def db1_def raw_heap_def db6_simps)
  have run: "remove_old_lease p k db = Ret db4"
    using act del(1) by (simp add: remove_old_lease_def db4_def db3_def db2_def db1_def Let_def db6_simps)
  have mem: "members True p db4 = members True p db - {#k#}" "members False p db4 = members False p db"
    using members_cong [OF fields(3)] del(3) by (simp_all add: db1_def)
  have ls: "leases (pools6 db4 p) = (leases (pools6 db p))(?a := tl (leases (pools6 db p) ?a))"
    by (simp add: db4_def db3_def db2_def db1_def db6_simps)
  have "rep True p db4"
    using rep_set_timeouts [OF del(2), of True p]
    by (rule rep_cong) (use fields in \<open>auto simp: db1_def db6_simps\<close>)
  moreover have "rep False p db4"
  proof (rule rep_cong [of False p db])
    fix y assume "y \<in># members False p db"
    then have "y \<notin># members True p db - {#k#}" using inv' heaps_disjoint [of p db y] by (auto dest: in_diffD)
    then show "heap_index db4 y = heap_index db y
        \<and> hard_lifetime_end_time (subs db4 y) = hard_lifetime_end_time (subs db y)
        \<and> soft_lifetime_end_time (subs db4 y) = soft_lifetime_end_time (subs db y)"
      using del(4) fields by (simp add: db1_def db6_simps)
  qed (use inv' fields in \<open>simp_all add: db1_def\<close>)
  moreover have "hash_ok p db4"
    by (rule hash_ok_remove [of p db k]) (use inv' k mem ls fields in simp_all)
  moreover have "states_ok p db4"
    using inv' mem fields by (auto simp: states_ok_def dest: in_diffD)
  moreover have "counts_ok p db4"
  proof -
    obtain M where M: "members True p db = add_mset k M" using k by (metis multi_member_split)
    have "abandoned_count p db = abandoned_count p db4 + (if state6 (subs db k) = FTS_ABANDONED then 1 else 0)"
      unfolding abandoned_count_def mem fields M by simp
    then show ?thesis
      using inv' M mem by (auto simp: counts_ok_def db4_def db3_def db2_def db1_def db6_simps)
  qed
  moreover have "leases (pools6 db p) ?a = [k]" using inv' k by (simp add: hash_ok_def)
  moreover have "size_h (raw_heap act p db4) = size_h (raw_heap act p db)" for act
    using fields(3) del(5) by (cases act) (simp_all add: db1_def)
  ultimately show ?thesis using run mem fields(1) ls by (simp add: pool_inv_def)
qed

text \<open>A lease that was not known before enters the active or the inactive heap.\<close>

lemma put_lease_active:
  assumes inv: "pool_inv p db" and new: "\<not> known p l db" "leases (pools6 db p) (addr6 (subs db l)) = []"
    and act: "on_active_heap (state6 (subs db l))" and memory: "bucket" "room (\<lambda>_. alloc) (Suc 0) True p db"
  shows "\<exists>db'. put_lease alloc bucket p l t db = Ret (ISC_R_SUCCESS, db') \<and> pool_inv p db'
    \<and> members True p db' = add_mset l (members True p db) \<and> members False p db' = members False p db
    \<and> subs db' = (subs db)(l := (subs db l)\<lparr>hard_lifetime_end_time := t\<rparr>)"
proof -
  let ?a = "addr6 (subs db l)"
  define db0 where "db0 = upd_sub l (\<lambda>s. s\<lparr>hard_lifetime_end_time := t\<rparr>) db"
  define db1 where "db1 = iasubopt_hash_add bucket p ?a l db0"
  have "pool_inv p db0" and m0: "members act p db0 = members act p db" for act
    using change_unknown [OF inv new(1), of db0] by (auto simp: db0_def db6_simps)
  note inv0 = this(1) [unfolded pool_inv_def]
  have raw1: "raw_heap act p db1 = raw_heap act p db0" for act by (simp add: db1_def raw_heap_def db6_simps memory(1))
  have "raw_heap True p db1 = raw_heap True p db" by (simp add: db1_def db0_def raw_heap_def db6_simps memory(1))
  from room_cong [OF this] have room1: "room (\<lambda>_. alloc) (Suc 0) True p db1" using memory(2) by simp
  have m1: "members act p db1 = members act p db" for act using members_cong [OF raw1] m0 by simp
  have rep1: "rep act p db1" for act
    by (rule rep_cong [OF _ raw1]) (cases act, use inv0 in \<open>auto simp: db1_def db6_simps\<close>)
  have nl: "l \<notin># members act p db1" for act using new(1) by (cases act) (auto simp: m1 known_def)
  obtain h idx where ins: "timeouts_insert alloc True p l db1 = Ret (ISC_R_SUCCESS, set_timeouts True p h idx db1)"
      "heap_rep (lease_older (subs db1)) h idx" "elems_of h = add_mset l (members True p db1)"
      "\<And>y. y \<noteq> l \<Longrightarrow> y \<notin># members True p db1 \<Longrightarrow> idx y = heap_index db1 y"
    using timeouts_insert_spec [OF rep1 nl room1] by metis
  define db2 where "db2 = set_timeouts True p h idx db1"
  define db3 where "db3 = count_active p 1 db2"
  define db4 where "db4 = (if state6 (subs db l) = FTS_ABANDONED then count_abandoned p 1 db3 else db3)"
  have s: "subs db4 = (subs db)(l := (subs db l)\<lparr>hard_lifetime_end_time := t\<rparr>)" "heap_index db4 = idx"
    "raw_heap act p db4 = raw_heap act p db2" for act
    by (simp_all add: db4_def db3_def db2_def db1_def db0_def raw_heap_def db6_simps memory(1))
  have run: "put_lease alloc bucket p l t db = Ret (ISC_R_SUCCESS, db4)"
    using act ins(1) by (simp add: put_lease_def db4_def db3_def db2_def db1_def db0_def Let_def db6_simps)
  have m: "members True p db4 = add_mset l (members True p db)" "members False p db4 = members False p db"
    using members_cong [OF s(3)] ins(3) m1 by (simp_all add: db2_def)
  have "rep True p db4"
    using rep_set_timeouts [OF ins(2), of True p]
    by (rule rep_cong) (use s in \<open>auto simp: db2_def db1_def db0_def db6_simps\<close>)
  moreover have "rep False p db4"
  proof (rule rep_cong [OF rep1])
    show "raw_heap False p db4 = raw_heap False p db1" using s(3) by (simp add: db2_def)
    fix y assume y: "y \<in># members False p db1"
    then have "y \<noteq> l" "y \<notin># members True p db1" using nl inv0 heaps_disjoint [of p db0 y] by (auto simp: m1 m0)
    then show "heap_index db4 y = heap_index db1 y
        \<and> hard_lifetime_end_time (subs db4 y) = hard_lifetime_end_time (subs db1 y)
        \<and> soft_lifetime_end_time (subs db4 y) = soft_lifetime_end_time (subs db1 y)"
      using ins(4) s by (simp add: db1_def db0_def db6_simps)
  qed
  moreover have "hash_ok p db4"
  proof -
    have ls: "leases (pools6 db4 p) = (leases (pools6 db p))(?a := [l])"
      using new(2) by (simp add: db4_def db3_def db2_def db1_def db0_def db6_simps memory(1))
    have "hash_ok p db" using inv by (simp add: pool_inv_def)
    then show ?thesis using new nl unfolding hash_ok_def ls m s(1) m1 known_def by (auto split: if_splits)
  qed
  moreover have "states_ok p db4"
    using inv new(1) act by (auto simp: states_ok_def pool_inv_def m s known_def)
  moreover have "counts_ok p db4"
  proof -
    have "filter_mset (\<lambda>k. state6 (subs db4 k) = FTS_ABANDONED) (members True p db)
        = filter_mset (\<lambda>k. state6 (subs db k) = FTS_ABANDONED) (members True p db)"
      by (rule filter_mset_cong) (auto simp: s)
    then have "abandoned_count p db4 = abandoned_count p db + (if state6 (subs db l) = FTS_ABANDONED then 1 else 0)"
      unfolding abandoned_count_def m by (simp add: s)
    then show ?thesis
      using inv m by (auto simp: pool_inv_def counts_ok_def db4_def db3_def db2_def db1_def db0_def db6_simps memory(1))
  qed
  ultimately show ?thesis using run m s by (simp add: pool_inv_def)
qed

lemma put_lease_inactive:
  assumes inv: "pool_inv p db" and new: "\<not> known p l db" and act: "\<not> on_active_heap (state6 (subs db l))"
    and room: "room (\<lambda>_. alloc) (Suc 0) False p db"
  shows "\<exists>db'. put_lease alloc bucket p l t db = Ret (ISC_R_SUCCESS, db') \<and> pool_inv p db'
    \<and> members True p db' = members True p db \<and> members False p db' = add_mset l (members False p db)
    \<and> subs db' = (subs db)(l := (subs db l)\<lparr>soft_lifetime_end_time := t\<rparr>)"
proof -
  define db0 where "db0 = upd_sub l (\<lambda>s. s\<lparr>soft_lifetime_end_time := t\<rparr>) db"
  have "pool_inv p db0" and m0: "members act p db0 = members act p db" for act
    using change_unknown [OF inv new, of db0] by (auto simp: db0_def db6_simps)
  note inv0 = this(1) [unfolded pool_inv_def]
  have nl: "l \<notin># members act p db0" for act using new by (cases act) (auto simp: m0 known_def)
  have "room (\<lambda>_. alloc) (Suc 0) False p db0"
    using room room_cong [of False p db0 db] by (simp add: db0_def raw_heap_def db6_simps)
  then obtain h idx where ins: "timeouts_insert alloc False p l db0 = Ret (ISC_R_SUCCESS, set_timeouts False p h idx db0)"
      "heap_rep (lease_older (subs db0)) h idx" "elems_of h = add_mset l (members False p db0)"
      "\<And>y. y \<noteq> l \<Longrightarrow> y \<notin># members False p db0 \<Longrightarrow> idx y = heap_index db0 y"
    using timeouts_insert_spec [of False p db0 l alloc] inv0 nl by metis
  define db2 where "db2 = set_timeouts False p h idx db0"
  define db3 where "db3 = count_inactive p 1 db2"
  have s: "subs db3 = (subs db)(l := (subs db l)\<lparr>soft_lifetime_end_time := t\<rparr>)" "heap_index db3 = idx"
    "raw_heap act p db3 = raw_heap act p db2" "leases (pools6 db3 p) = leases (pools6 db p)" for act
    by (simp_all add: db3_def db2_def db0_def raw_heap_def db6_simps)
  have run: "put_lease alloc bucket p l t db = Ret (ISC_R_SUCCESS, db3)"
    using act ins(1) by (simp add: put_lease_def db3_def db2_def db0_def Let_def)
  have m: "members True p db3 = members True p db" "members False p db3 = add_mset l (members False p db)"
    using members_cong [OF s(3)] ins(3) m0 by (simp_all add: db2_def)
  have "rep False p db3"
    using rep_set_timeouts [OF ins(2), of False p]
    by (rule rep_cong) (use s in \<open>auto simp: db2_def db0_def db6_simps\<close>)
  moreover have "rep True p db3"
  proof (rule rep_cong [of True p db0])
    fix y assume y: "y \<in># members True p db0"
    then have "y \<noteq> l" "y \<notin># members False p db0" using nl inv0 heaps_disjoint [of p db0 y] by auto
    then show "heap_index db3 y = heap_index db0 y
        \<and> hard_lifetime_end_time (subs db3 y) = hard_lifetime_end_time (subs db0 y)
        \<and> soft_lifetime_end_time (subs db3 y) = soft_lifetime_end_time (subs db0 y)"
      using ins(4) s by (simp add: db0_def db6_simps)
  qed (use inv0 s(3) in \<open>simp_all add: db2_def\<close>)
  moreover have "hash_ok p db3"
    using inv new unfolding pool_inv_def hash_ok_def m s(1,4) by (auto simp: known_def)
  moreover have "states_ok p db3"
    using inv new act by (auto simp: states_ok_def pool_inv_def m s known_def)
  moreover have "counts_ok p db3"
    using inv m abandoned_count_cong [of p db3 db]
    by (auto simp: pool_inv_def counts_ok_def db3_def db2_def db0_def db6_simps)
  ultimately show ?thesis using run m s by (simp add: pool_inv_def)
qed

text \<open>The state a lease is added in.\<close>

definition added_state :: "byte \<Rightarrow> byte" where
  "added_state st = (if st = 0 then FTS_ACTIVE else st)"

text \<open>The old lease for the address, if there is one, leaves the pool.\<close>

lemma add_lease6_removes_old:
  assumes inv: "pool_inv p db" and new: "\<not> known p l db"
    and old: "\<forall>k \<in> set (leases (pools6 db p) (addr6 (subs db l))). k \<in># members True p db"
  shows "\<exists>db1. (let (test, db) = iasubopt_hash_lookup p (addr6 (subs db l)) db
      in case test of None \<Rightarrow> Ret db | Some old \<Rightarrow> remove_old_lease p old db) = Ret db1
    \<and> pool_inv p db1 \<and> \<not> known p l db1 \<and> leases (pools6 db1 p) (addr6 (subs db l)) = [] \<and> subs db1 = subs db
    \<and> (\<forall>act. size_h (raw_heap act p db1) = size_h (raw_heap act p db))
    \<and> members True p db1 = members True p db - mset (leases (pools6 db p) (addr6 (subs db l)))
    \<and> members False p db1 = members False p db"
proof (cases "leases (pools6 db p) (addr6 (subs db l))")
  case Nil
  then show ?thesis using inv new by (simp add: iasubopt_hash_lookup_def)
next
  case (Cons k ks)
  then have k: "k \<in># members True p db" using old by simp
  have h: "hash_ok p db" using inv by (simp add: pool_inv_def)
  then have "length (leases (pools6 db p) (addr6 (subs db l))) \<le> 1" unfolding hash_ok_def by blast
  then have a: "addr6 (subs db k) = addr6 (subs db l)" "leases (pools6 db p) (addr6 (subs db l)) = [k]"
    using h Cons by (auto simp: hash_ok_def)
  define db0 where "db0 = emit6 [Ref_sub k] db"
  have "pool_inv p db0" "k \<in># members True p db0" using inv k by (simp_all add: db0_def)
  then obtain db1 where r: "remove_old_lease p k db0 = Ret db1" "pool_inv p db1"
      "members True p db1 = members True p db0 - {#k#}" "members False p db1 = members False p db0" "subs db1 = subs db0"
      "\<forall>act. size_h (raw_heap act p db1) = size_h (raw_heap act p db0)"
      "leases (pools6 db1 p) = (leases (pools6 db0 p))(addr6 (subs db0 k) := [])"
    using remove_old_lease_spec by blast
  have "\<not> known p l db1" using new r(3,4,7) by (auto simp: known_def db0_def db6_simps dest: in_diffD split: if_splits)
  moreover have "raw_heap act p db0 = raw_heap act p db" for act by (simp add: db0_def raw_heap_def db6_simps)
  ultimately show ?thesis using r a by (simp add: iasubopt_hash_lookup_def db0_def db6_simps)
qed

text \<open>C7: \<open>add_lease6\<close> keeps a pool in good order. The lease is new to the pool, the address is not
  one that was marked unavailable (what the hash table has for it is an active lease), the heap that
  the lease goes to has room or can grow, and an active lease finds a bucket for its hash entry.
  Then the new lease is in the active heap and the hash table finds it under its address if it is
  active or abandoned, else it is in the inactive heap; the active lease that had the address before
  is out of the pool. Heap order, recorded indices, hash table, states and the three counters agree
  again.
\<close>

theorem add_lease6_keeps_pool:
  assumes "pool_inv p db" "\<not> known p l db"
    and "\<forall>k \<in> set (leases (pools6 db p) (addr6 (subs db l))). k \<in># members True p db"
    and "room (\<lambda>_. alloc) 1 (on_active_heap (added_state (state6 (subs db l)))) p db"
    and "on_active_heap (added_state (state6 (subs db l))) \<longrightarrow> bucket"
  shows "\<exists>db'. add_lease6 alloc bucket p l t db = Ret (ISC_R_SUCCESS, db') \<and> pool_inv p db'
    \<and> members True p db' = members True p db - mset (leases (pools6 db p) (addr6 (subs db l)))
        + (if on_active_heap (added_state (state6 (subs db l))) then {#l#} else {#})
    \<and> members False p db' = members False p db
        + (if on_active_heap (added_state (state6 (subs db l))) then {#} else {#l#})
    \<and> (on_active_heap (added_state (state6 (subs db l))) \<longrightarrow> leases (pools6 db' p) (addr6 (subs db l)) = [l])"
proof -
  define db0 where "db0 = reference_lease_pool l p
    (if state6 (subs db l) = 0 then upd_sub l (\<lambda>s. s\<lparr>state6 := FTS_ACTIVE\<rparr>) db else db)"
  have f: "pools6 db0 = pools6 db" "heap_index db0 = heap_index db" "addr6 (subs db0 l) = addr6 (subs db l)"
      "state6 (subs db0 l) = added_state (state6 (subs db l))"
    by (auto simp: db0_def reference_lease_pool_def added_state_def db6_simps)
  have "subs db0 k = subs db k" if "k \<noteq> l" for k using that by (simp add: db0_def reference_lease_pool_def db6_simps)
  note u = change_unknown [OF assms(1,2) f(1) _ this, simplified f(2), OF refl]
  have new: "\<not> known p l db0" using assms(2) u(2) f(1) by (simp add: known_def)
  obtain db1 where d: "(let (test, db) = iasubopt_hash_lookup p (addr6 (subs db0 l)) db0
      in case test of None \<Rightarrow> Ret db | Some old \<Rightarrow> remove_old_lease p old db) = Ret db1"
      "pool_inv p db1" "\<not> known p l db1" "leases (pools6 db1 p) (addr6 (subs db0 l)) = []" "subs db1 = subs db0"
      "\<forall>act. size_h (raw_heap act p db1) = size_h (raw_heap act p db0)"
      "members True p db1 = members True p db0 - mset (leases (pools6 db0 p) (addr6 (subs db0 l)))"
      "members False p db1 = members False p db0"
    using add_lease6_removes_old [OF u(1) new] assms(3) u(2) f by auto
  define db2 where "db2 = emit6 [Ref_sub l] db1"
  have run: "add_lease6 alloc bucket p l t db = bindC (put_lease alloc bucket p l t db2) (\<lambda>(res, db).
           Ret (res, if res = ISC_R_SUCCESS then db
             else emit6 [Drop_sub l] (iasubopt_hash_delete p (addr6 (subs db l)) db)))"
    using d(1) unfolding add_lease6_def Let_def db0_def [unfolded Let_def, symmetric] db2_def
    by (simp split: prod.splits)
  have d2: "pool_inv p db2" "\<not> known p l db2" "leases (pools6 db2 p) (addr6 (subs db2 l)) = []"
      "state6 (subs db2 l) = added_state (state6 (subs db l))" "members act p db2 = members act p db1" for act
    using d(2-5) f by (simp_all add: db2_def known_def db6_simps)
  let ?act = "on_active_heap (added_state (state6 (subs db l)))"
  have room: "room (\<lambda>_. alloc) (Suc 0) ?act p db2"
  proof (rule room_shrink)
    show "room (\<lambda>_. alloc) (Suc 0) ?act p db" using assms(4) by simp
    show "members ?act p db2 \<subseteq># members ?act p db"
      using d2(5) d(7,8) u(2) by (cases ?act) simp_all
    show "size_h (raw_heap ?act p db) \<le> size_h (raw_heap ?act p db2)"
      using d(6) f(1) by (cases ?act) (auto simp: db2_def raw_heap_def db6_simps dest: spec [of _ True] spec [of _ False])
  qed
  have found: "leases (pools6 db' p) (addr6 (subs db l)) = [l]"
    if "pool_inv p db'" "members True p db' = add_mset l M" "addr6 (subs db' l) = addr6 (subs db l)" for db' M
    using that by (simp add: pool_inv_def hash_ok_def)
  have a2: "addr6 (subs db2 l) = addr6 (subs db l)" using d(5) f(3) by (simp add: db2_def db6_simps)
  show ?thesis
  proof (cases "on_active_heap (state6 (subs db2 l))")
    case True
    then obtain db' where db': "put_lease alloc bucket p l t db2 = Ret (ISC_R_SUCCESS, db')" "pool_inv p db'"
        "members True p db' = add_mset l (members True p db2)" "members False p db' = members False p db2"
        "subs db' = (subs db2)(l := (subs db2 l)\<lparr>hard_lifetime_end_time := t\<rparr>)"
      using put_lease_active [OF d2(1-3), of bucket alloc t] d2(4) room assms(5) by auto
    then show ?thesis using True d2(4,5) d(7,8) u(2) f a2 found [OF db'(2,3)] unfolding run by simp
  next
    case False
    then show ?thesis
      using put_lease_inactive [OF d2(1,2), of alloc bucket t] d2(4,5) d(7,8) u(2) f room unfolding run by auto
  qed
qed

section \<open>Renewing a lease\<close>

text \<open>A heap after the lifetime of its member \<open>l\<close> has changed and the heap was told so.\<close>

lemma timeouts_rerank:
  assumes "rep act p db" "l \<in># members act p db"
    and db1: "raw_heap act p db1 = raw_heap act p db" "heap_index db1 = heap_index db" "\<And>k. k \<noteq> l \<Longrightarrow> subs db1 k = subs db k"
    and f: "f = isc_heap_increased \<and> (\<forall>y. \<not> lease_older (subs db) y l \<longrightarrow> \<not> lease_older (subs db1) y l)
      \<or> f = isc_heap_decreased \<and> (\<forall>y. \<not> lease_older (subs db) l y \<longrightarrow> \<not> lease_older (subs db1) l y)"
  obtains h idx where "timeouts_op f act p (heap_index db l) db1 = Ret (set_timeouts act p h idx db1)"
    and "heap_rep (lease_older (subs db1)) h idx" "elems_of h = members act p db"
    and "\<And>y. y \<notin># members act p db \<Longrightarrow> idx y = heap_index db y"
proof -
  have t: "timeouts act p db1 = (timeouts act p db)\<lparr>compare_h := lease_older (subs db1)\<rparr>"
    using db1(1) by (simp add: timeouts_def raw_heap_def)
  have "heap_order (lease_older (subs db))" by (rule older.heap_order_axioms)
  moreover have "lease_older (subs db1) y z = lease_older (subs db) y z" if "y \<noteq> l" "z \<noteq> l" for y z
    using db1(3) [OF that(1)] db1(3) [OF that(2)] by (simp add: lease_older_def)
  moreover note assms(1,2) [unfolded rep_def members_def] f
  ultimately have "\<exists>h idx. f ((timeouts act p db)\<lparr>compare_h := lease_older (subs db1)\<rparr>) (heap_index db) (heap_index db l)
      = Ret (h, idx) \<and> heap_rep (lease_older (subs db1)) h idx \<and> elems_of h = members act p db
      \<and> (\<forall>y. y \<notin># members act p db \<longrightarrow> idx y = heap_index db y)"
    using older.increased_rep [of "lease_older (subs db)" "timeouts act p db" "heap_index db" l "subs db1"]
      older.decreased_rep [of "lease_older (subs db)" "timeouts act p db" "heap_index db" l "subs db1"]
    unfolding members_def by (elim disjE conjE) blast+
  then show thesis using that db1(2) by (auto simp: timeouts_op_def t)
qed

text \<open>What the change of lifetime and state of an active lease leaves of the invariant.\<close>

lemma reranked_inv:
  assumes inv: "pool_inv p db" and l: "l \<in># members True p db"
    and db1: "pools6 db1 = pools6 db" "heap_index db1 = heap_index db" "\<And>k. k \<noteq> l \<Longrightarrow> subs db1 k = subs db k"
      "addr6 (subs db1 l) = addr6 (subs db l)" "on_active_heap (state6 (subs db1 l))"
    and h: "heap_rep (lease_older (subs db1)) h idx" "elems_of h = members True p db"
      "\<And>y. y \<notin># members True p db \<Longrightarrow> idx y = heap_index db y"
  defines "db2 \<equiv> set_timeouts True p h idx db1"
  shows "rep True p db2" "rep False p db2" "hash_ok p db2" "states_ok p db2"
    "members True p db2 = members True p db" "members False p db2 = members False p db"
proof -
  have raw: "raw_heap False p db2 = raw_heap False p db" using db1(1) by (simp add: db2_def raw_heap_def db6_simps)
  show m: "members True p db2 = members True p db" "members False p db2 = members False p db"
    using h(2) members_cong [OF raw] by (simp_all add: db2_def)
  have s: "subs db2 = subs db1" "pools6 db2 p = (pools6 db p)\<lparr>active_timeouts := h\<rparr>"
    by (simp_all add: db2_def db6_simps db1(1))
  have addr: "addr6 (subs db1 k) = addr6 (subs db k)" for k using db1(3,4) by (cases "k = l") auto
  have dis: "y \<notin># members False p db" if "y \<in># members True p db" for y
    using inv heaps_disjoint that by (auto simp: pool_inv_def)
  show "rep True p db2" unfolding db2_def by (rule rep_set_timeouts [OF h(1)])
  show "rep False p db2"
  proof (rule rep_cong [OF _ raw])
    fix y assume "y \<in># members False p db"
    then have "y \<notin># members True p db" "y \<noteq> l" using dis l by auto
    then show "heap_index db2 y = heap_index db y
        \<and> hard_lifetime_end_time (subs db2 y) = hard_lifetime_end_time (subs db y)
        \<and> soft_lifetime_end_time (subs db2 y) = soft_lifetime_end_time (subs db y)"
      using h(3) db1(3) by (simp add: s db2_def db6_simps)
  qed (use inv in \<open>simp add: pool_inv_def\<close>)
  have act: "on_active_heap (state6 (subs db1 k)) \<longrightarrow> k \<in># members True p db"
    if "k \<in> set (leases (pools6 db p) a)" for k a
    using that inv l db1(3) [of k] by (cases "k = l") (auto simp: pool_inv_def hash_ok_def)
  then show "hash_ok p db2" using inv unfolding pool_inv_def hash_ok_def m s(1) by (auto simp: s(2) addr)
  show "states_ok p db2"
    unfolding states_ok_def m s(1)
  proof (intro conjI ballI)
    fix k assume "k \<in># members True p db"
    then show "on_active_heap (state6 (subs db1 k))"
      using inv db1(3) [of k] db1(5) by (cases "k = l") (auto simp: pool_inv_def states_ok_def)
  next
    fix k assume "k \<in># members False p db"
    then show "\<not> on_active_heap (state6 (subs db1 k))"
      using inv db1(3) [of k] dis [OF l] by (cases "k = l") (auto simp: pool_inv_def states_ok_def)
  qed
qed

lemma abandoned_count_change:
  assumes "rep True p db" "l \<in># members True p db" "members True p db' = members True p db"
    and "\<And>k. k \<noteq> l \<Longrightarrow> state6 (subs db' k) = state6 (subs db k)"
  shows "abandoned_count p db' + (if state6 (subs db l) = FTS_ABANDONED then 1 else 0)
    = abandoned_count p db + (if state6 (subs db' l) = FTS_ABANDONED then 1 else 0)"
proof -
  obtain M where M: "members True p db = add_mset l M" using assms(2) by (metis multi_member_split)
  have "l \<notin># M" using not_in_rest [OF assms(1), of l] M by simp
  then have "filter_mset (\<lambda>k. state6 (subs db' k) = FTS_ABANDONED) M = filter_mset (\<lambda>k. state6 (subs db k) = FTS_ABANDONED) M"
    using assms(4) by (intro filter_mset_cong refl) metis
  then show ?thesis unfolding abandoned_count_def assms(3) M by simp
qed

text \<open>The same with the count of abandoned leases brought up to date.\<close>

definition is_abandoned :: "iasubopt \<Rightarrow> nat" where
  "is_abandoned r = (if state6 r = FTS_ABANDONED then 1 else 0)"

lemma reranked_pool_inv:
  fixes db1 :: db6
  assumes inv: "pool_inv p db" and l: "l \<in># members True p db"
    and db1: "pools6 db1 = pools6 db" "heap_index db1 = heap_index db" "\<And>k. k \<noteq> l \<Longrightarrow> subs db1 k = subs db k"
      "addr6 (subs db1 l) = addr6 (subs db l)" "on_active_heap (state6 (subs db1 l))"
    and h: "heap_rep (lease_older (subs db1)) h idx" "elems_of h = members True p db"
      "\<And>y. y \<notin># members True p db \<Longrightarrow> idx y = heap_index db y"
    and db3: "subs db3 = subs db1" "heap_index db3 = idx"
      "pools6 db3 p = (pools6 db p)\<lparr>active_timeouts := h, num_abandoned := num_abandoned (pools6 db p)
         + of_nat (is_abandoned (subs db1 l)) - of_nat (is_abandoned (subs db l))\<rparr>"
  shows "pool_inv p db3" "members True p db3 = members True p db" "members False p db3 = members False p db"
proof -
  define db2 where "db2 = set_timeouts True p h idx db1"
  note i2 = reranked_inv [OF inv l db1 h, folded db2_def]
  have raw: "raw_heap act p db3 = raw_heap act p db2" for act
    using db3(3) db1(1) by (simp add: raw_heap_def db2_def db6_simps)
  have s3: "subs db3 = subs db2" "heap_index db3 = heap_index db2" "leases (pools6 db3 p) = leases (pools6 db2 p)"
    using db3 db1(1) by (simp_all add: db2_def db6_simps)
  have m3: "members act p db3 = members act p db2" for act by (rule members_cong [OF raw])
  show m: "members True p db3 = members True p db" "members False p db3 = members False p db"
    using m3 i2(5,6) by simp_all
  have "rep act p db3" for act
    by (rule rep_cong [OF _ raw]) (cases act, use i2(1,2) s3 in auto)
  moreover have "hash_ok p db3" "states_ok p db3"
    using i2(3,4) m3 s3 by (simp_all add: hash_ok_def states_ok_def)
  moreover have "abandoned_count p db3 + is_abandoned (subs db l) = abandoned_count p db + is_abandoned (subs db1 l)"
    using abandoned_count_change [of p db l db3] inv l m db1(3) db3(1)
    by (simp add: pool_inv_def is_abandoned_def)
  then have "(of_nat (abandoned_count p db) + of_nat (is_abandoned (subs db1 l)) :: 64 word)
      = of_nat (abandoned_count p db3) + of_nat (is_abandoned (subs db l))"
    by (metis of_nat_add)
  then have "counts_ok p db3"
    using inv unfolding pool_inv_def counts_ok_def m by (simp add: db3(3))
  ultimately show "pool_inv p db3" by (simp add: pool_inv_def)
qed

text \<open>C13: Renewing an active or abandoned lease: with the new end time \<open>t\<close> stored as its soft lifetime,
  \<open>renew_lease6\<close> succeeds, no heap assertion fails, the lease is active until \<open>t\<close>, and the pool is
  in good order. The other leases have no pending renewal, and an abandoned lease gets an end
  time not later than the one it has.
\<close>

theorem renew_lease6_keeps_pool:
  assumes "pool_inv p db" "l \<in># members True p db" "soft_lifetime_end_time (subs db l) = 0"
    and "state6 (subs db l) = FTS_ABANDONED \<longrightarrow> t \<le> hard_lifetime_end_time (subs db l)"
  shows "\<exists>db'. renew_lease6 alloc bucket p l (upd_sub l (\<lambda>s. s\<lparr>soft_lifetime_end_time := t\<rparr>) db) = Ret (ISC_R_SUCCESS, db')
    \<and> pool_inv p db' \<and> members True p db' = members True p db
    \<and> state6 (subs db' l) = FTS_ACTIVE \<and> hard_lifetime_end_time (subs db' l) = t"
proof -
  note inv = assms(1) [unfolded pool_inv_def]
  let ?db = "upd_sub l (\<lambda>s. s\<lparr>soft_lifetime_end_time := t\<rparr>) db"
  let ?f = "if state6 (subs db l) = FTS_ACTIVE \<and> hard_lifetime_end_time (subs db l) \<le> t
    then isc_heap_decreased else isc_heap_increased"
  define db1 where "db1 = upd_sub l (\<lambda>s. s\<lparr>hard_lifetime_end_time := t, soft_lifetime_end_time := 0, state6 := FTS_ACTIVE\<rparr>) db"
  have act: "state6 (subs db l) = FTS_ACTIVE \<or> state6 (subs db l) = FTS_ABANDONED"
    using inv assms(2) by (auto simp: states_ok_def on_active_heap_def)
  have s1: "pools6 db1 = pools6 db" "heap_index db1 = heap_index db" "raw_heap True p db1 = raw_heap True p db"
      "subs db1 = (subs db)(l := (subs db l)\<lparr>hard_lifetime_end_time := t, soft_lifetime_end_time := 0, state6 := FTS_ACTIVE\<rparr>)"
    by (simp_all add: db1_def db6_simps raw_heap_def)
  have "?f = isc_heap_increased \<and> (\<forall>y. \<not> lease_older (subs db) y l \<longrightarrow> \<not> lease_older (subs db1) y l)
      \<or> ?f = isc_heap_decreased \<and> (\<forall>y. \<not> lease_older (subs db) l y \<longrightarrow> \<not> lease_older (subs db1) l y)"
    using assms(3,4) act by (auto simp: lease_older_def s1(4) split: if_splits)
  then obtain h idx where r: "timeouts_op ?f True p (heap_index db l) db1 = Ret (set_timeouts True p h idx db1)"
      "heap_rep (lease_older (subs db1)) h idx" "elems_of h = members True p db"
      "\<And>y. y \<notin># members True p db \<Longrightarrow> idx y = heap_index db y"
    using timeouts_rerank [of True p db l db1 ?f] inv assms(2) s1 by auto
  define db2 where "db2 = set_timeouts True p h idx db1"
  define db3 where "db3 = (if state6 (subs db l) = FTS_ABANDONED then count_abandoned p (- 1) db2 else db2)"
  have run: "renew_lease6 alloc bucket p l ?db = Ret (ISC_R_SUCCESS, db3)"
  proof (cases "state6 (subs db l) = FTS_ACTIVE")
    case True
    then have "upd_sub l (\<lambda>s. s\<lparr>hard_lifetime_end_time := soft_lifetime_end_time s, soft_lifetime_end_time := 0\<rparr>) ?db = db1"
      by (cases "subs db l") (simp add: db1_def upd_sub_def)
    with True r(1) show ?thesis by (auto simp: renew_lease6_def db3_def db2_def db6_simps s1 Let_def split: if_splits)
  next
    case False
    then have "upd_sub l (\<lambda>s. s\<lparr>state6 := FTS_ACTIVE\<rparr>)
        (upd_sub l (\<lambda>s. s\<lparr>hard_lifetime_end_time := soft_lifetime_end_time s, soft_lifetime_end_time := 0\<rparr>) ?db) = db1"
      by (simp add: db1_def upd_sub_def)
    with False act r(1) show ?thesis by (simp add: renew_lease6_def db3_def db2_def db6_simps Let_def)
  qed
  have "subs db1 k = subs db k" if "k \<noteq> l" for k using that by (simp add: s1)
  moreover have "addr6 (subs db1 l) = addr6 (subs db l)" "on_active_heap (state6 (subs db1 l))"
    by (simp_all add: s1 on_active_heap_def)
  moreover have "subs db3 = subs db1" "heap_index db3 = idx"
      "pools6 db3 p = (pools6 db p)\<lparr>active_timeouts := h, num_abandoned := num_abandoned (pools6 db p)
         + of_nat (is_abandoned (subs db1 l)) - of_nat (is_abandoned (subs db l))\<rparr>"
    by (simp_all add: db3_def db2_def db6_simps is_abandoned_def s1)
  ultimately have "pool_inv p db3" "members True p db3 = members True p db"
    using reranked_pool_inv [OF assms(1,2) s1(1,2) _ _ _ r(2-4)] by blast+
  then show ?thesis using run s1(4) by (simp add: db3_def db2_def db6_simps)
qed

section \<open>Declining a lease\<close>






section \<open>Releasing a lease\<close>

text \<open>C32: \<open>release_lease6\<close> keeps a pool in good order. An active lease of the pool is on the inactive heap
  afterwards and in the state released, and its address is free in the hash table, if the inactive
  heap has room or can grow; a lease that is not active stays as it is.
\<close>

theorem release_lease6_keeps_pool:
  assumes "pool_inv p db" "state6 (subs db l) = FTS_ACTIVE \<longrightarrow> l \<in># members True p db \<and> room (\<lambda>_. alloc) 1 False p db"
  shows "\<exists>db'. release_lease6 alloc p l db = Ret (ISC_R_SUCCESS, db') \<and> pool_inv p db'
    \<and> (if state6 (subs db l) = FTS_ACTIVE
       then members True p db' = members True p db - {#l#} \<and> members False p db' = add_mset l (members False p db)
         \<and> state6 (subs db' l) = FTS_RELEASED \<and> \<not> is_leased p db' (addr6 (subs db l))
       else db' = db)"
proof (cases "state6 (subs db l) = FTS_ACTIVE")
  case True
  then obtain db' where d: "move_lease_to_inactive alloc p l FTS_RELEASED db = Ret (ISC_R_SUCCESS, db')" "pool_inv p db'"
      "moved_to_inactive p l FTS_RELEASED db db'"
    using move_lease_to_inactive_spec [OF assms(1), of l FTS_RELEASED alloc] assms(2) by (auto simp: on_active_heap_def)
  then show ?thesis using True d by (auto simp: release_lease6_def moved_to_inactive_def is_leased_def)
qed (use assms(1) in \<open>simp add: release_lease6_def\<close>)

section \<open>Examples of pools\<close>

definition example_lease :: "byte \<Rightarrow> byte \<Rightarrow> int \<Rightarrow> int \<Rightarrow> iasubopt" where
  "example_lease a st hard soft = \<lparr>addr6 = replicate 15 0 @ [a], plen6 = 0, state6 = st, scope6 = None,
     hard_lifetime_end_time = hard, soft_lifetime_end_time = soft, prefer6 = 0, valid6 = 0, ia6 = None,
     ipv6_pool6 = None, on_expiry6 = None, on_commit6 = None, on_release6 = None\<rparr>"

definition example_heap :: "store6 \<Rightarrow> sid list \<Rightarrow> timeouts6" where
  "example_heap s xs = \<lparr>size_h = length xs + 3, size_increment = 1024, last_h = length xs,
     array_h = None # map Some xs @ [None, None], compare_h = lease_older s, index_h = Some lease_index_changed\<rparr>"

definition example_db :: "store6 \<Rightarrow> sid list \<Rightarrow> sid list \<Rightarrow> (sid \<Rightarrow> nat) \<Rightarrow> db6" where
  "example_db s xs ys idx = \<lparr>subs = s, heap_index = idx, ias = (\<lambda>_. \<lparr>iaid_duid = [], ia_type = 3, num_iasubopt = 0,
       max_iasubopt = 0, iasubopt_arr = []\<rparr>), ia_active = (\<lambda>_ _. []),
     pools6 = (\<lambda>_. \<lparr>pool_type = 3, start_addr = replicate 16 0, bits = 120, units = 128,
       leases = (\<lambda>a. filter (\<lambda>l. addr6 (s l) = a) xs), num_active = of_nat (length xs),
       num_abandoned = of_nat (length (filter (\<lambda>l. state6 (s l) = FTS_ABANDONED) xs)),
       active_timeouts = example_heap s xs, num_inactive = int (length ys), inactive_timeouts = example_heap s ys,
       ipv6_pond = None\<rparr>), pool_list = [0], ponds = (\<lambda>_. \<lparr>pond_active = 0, pond_abandoned = 0, use_eui_64 = False\<rparr>),
     trace6 = []\<rparr>"

lemma elems_example_heap: "elems_of (example_heap s xs) = mset xs"
proof -
  let ?a = "None # map Some xs @ [None, None]"
  have "mset_set {1..length xs} = image_mset Suc (mset_set {0..<length xs})"
    by (simp add: image_mset_mset_set image_Suc_atLeastLessThan atLeastLessThanSuc_atLeastAtMost)
  then have "elems_of (example_heap s xs) = image_mset (\<lambda>k. elem_at ?a (Suc k)) (mset [0..<length xs])"
    by (simp add: heap_elems_def example_heap_def multiset.map_comp comp_def mset_upt)
  also have "\<dots> = mset (map (\<lambda>k. elem_at ?a (Suc k)) [0..<length xs])" by simp
  also have "map (\<lambda>k. elem_at ?a (Suc k)) [0..<length xs] = xs"
    by (rule nth_equalityI) (auto simp: nth_append)
  finally show ?thesis .
qed

lemma members_example [simp]:
  "members True p (example_db s xs ys idx) = mset xs" "members False p (example_db s xs ys idx) = mset ys"
  by (simp_all add: members_raw raw_heap_def example_db_def elems_example_heap)

lemma rep_example:
  assumes "\<forall>i < length xs. idx (xs ! i) = Suc i"
    and "\<forall>k. 2 \<le> k \<and> k \<le> length xs \<longrightarrow> \<not> lease_older s (xs ! (k - 1)) (xs ! (k div 2 - 1))"
  shows "heap_rep (lease_older s) (example_heap s xs) idx"
  using assms
  by (auto simp: heap_rep_def heap_inv_def example_heap_def filled_def heap_ok_def tracked_def nth_Cons' nth_append
      lease_index_changed_record)

lemma example_inv:
  assumes "\<forall>i < length xs. idx (xs ! i) = Suc i" "\<forall>i < length ys. idx (ys ! i) = Suc i"
    and "\<forall>k. 2 \<le> k \<and> k \<le> length xs \<longrightarrow> \<not> lease_older s (xs ! (k - 1)) (xs ! (k div 2 - 1))"
    and "\<forall>k. 2 \<le> k \<and> k \<le> length ys \<longrightarrow> \<not> lease_older s (ys ! (k - 1)) (ys ! (k div 2 - 1))"
    and "\<forall>x \<in> set xs. on_active_heap (state6 (s x)) \<and> filter (\<lambda>l. addr6 (s l) = addr6 (s x)) xs = [x]"
    and "\<forall>y \<in> set ys. \<not> on_active_heap (state6 (s y))"
  shows "pool_inv p (example_db s xs ys idx)"
proof -
  let ?db = "example_db s xs ys idx"
  have "rep True p ?db" "rep False p ?db"
    using rep_example [OF assms(1,3)] rep_example [OF assms(2,4)]
    by (simp_all add: rep_def timeouts_def example_db_def example_heap_def)
  moreover have "length (filter (\<lambda>l. addr6 (s l) = a) xs) \<le> 1" for a
  proof (cases "filter (\<lambda>l. addr6 (s l) = a) xs")
    case (Cons x zs)
    then have "x \<in> set xs" "addr6 (s x) = a" by (auto dest: filter_eq_ConsD)
    then show ?thesis using assms(5) by auto
  qed simp
  then have "hash_ok p ?db" using assms(5,6) by (auto simp: hash_ok_def) (auto simp: example_db_def)
  moreover have "states_ok p ?db" using assms(5,6) by (auto simp: states_ok_def) (auto simp: example_db_def)
  moreover have "counts_ok p ?db"
    by (simp add: counts_ok_def abandoned_count_def) (simp add: example_db_def flip: mset_filter size_mset)
  ultimately show ?thesis by (simp add: pool_inv_def)
qed

text \<open>A pool with the active leases 1 (until \<open>t\<close>) and 2 (until \<open>u\<close>), and one with three inactive ones.\<close>

definition two_active :: "int \<Rightarrow> int \<Rightarrow> byte \<Rightarrow> db6" where
  "two_active t u st = example_db (\<lambda>k. if k = 1 then example_lease 1 FTS_ACTIVE t 0
     else if k = 2 then example_lease 2 st u 0 else example_lease 9 FTS_FREE 0 0) [1, 2] [] (\<lambda>k. k)"


lemma two_active_inv: "t \<le> u \<Longrightarrow> on_active_heap st \<Longrightarrow> pool_inv p (two_active t u st)"
  unfolding two_active_def
  by (rule example_inv)
    (auto simp: less_Suc_eq le_Suc_eq numeral_eq_Suc example_lease_def lease_older_def on_active_heap_def)


lemma two_active_members: "members True p (two_active t u st) = {#1, 2#}" "members False p (two_active t u st) = {#}"
  by (simp_all add: two_active_def)

lemma two_active_subs: "subs (two_active t u st) 1 = example_lease 1 FTS_ACTIVE t 0"
  "subs (two_active t u st) 2 = example_lease 2 st u 0" "subs (two_active t u st) 3 = example_lease 9 FTS_FREE 0 0"
  by (simp_all add: two_active_def example_db_def)

lemmas two_active_subs' = two_active_subs [unfolded One_nat_def]

lemma room_two_active: "room (\<lambda>_. alloc) (Suc 0) act p (two_active t u st)"
  by (cases act) (simp_all add: room_one two_active_members, simp_all add: two_active_def example_db_def example_heap_def raw_heap_def)


theorem add_lease6_keeps_pool_witness:
  "\<exists>db'. add_lease6 False False 0 3 50 (two_active 100 200 FTS_ACTIVE) = Ret (ISC_R_SUCCESS, db') \<and> pool_inv 0 db'
    \<and> members True 0 db' = members True 0 (two_active 100 200 FTS_ACTIVE)
          - mset (leases (pools6 (two_active 100 200 FTS_ACTIVE) 0) (addr6 (subs (two_active 100 200 FTS_ACTIVE) 3)))
        + (if on_active_heap (added_state (state6 (subs (two_active 100 200 FTS_ACTIVE) 3))) then {#3#} else {#})
    \<and> members False 0 db' = members False 0 (two_active 100 200 FTS_ACTIVE)
        + (if on_active_heap (added_state (state6 (subs (two_active 100 200 FTS_ACTIVE) 3))) then {#} else {#3#})
    \<and> (on_active_heap (added_state (state6 (subs (two_active 100 200 FTS_ACTIVE) 3))) \<longrightarrow>
        leases (pools6 db' 0) (addr6 (subs (two_active 100 200 FTS_ACTIVE) 3)) = [3])"
proof (rule add_lease6_keeps_pool)
  show "pool_inv 0 (two_active 100 200 FTS_ACTIVE)" by (rule two_active_inv) (simp_all add: on_active_heap_def)
  show "\<not> known 0 3 (two_active 100 200 FTS_ACTIVE)"
    by (simp add: known_def two_active_members) (simp add: two_active_def example_db_def)
  show "\<forall>k \<in> set (leases (pools6 (two_active 100 200 FTS_ACTIVE) 0) (addr6 (subs (two_active 100 200 FTS_ACTIVE) 3))).
      k \<in># members True 0 (two_active 100 200 FTS_ACTIVE)"
    by (simp add: two_active_members) (simp add: two_active_def example_db_def)
qed (simp_all add: room_two_active two_active_subs example_lease_def added_state_def on_active_heap_def)

theorem renew_lease6_keeps_pool_witness:
  "\<exists>db'. renew_lease6 True True 0 1 (upd_sub 1 (\<lambda>s. s\<lparr>soft_lifetime_end_time := 300\<rparr>) (two_active 100 200 FTS_ACTIVE))
      = Ret (ISC_R_SUCCESS, db')
    \<and> pool_inv 0 db' \<and> members True 0 db' = members True 0 (two_active 100 200 FTS_ACTIVE)
    \<and> state6 (subs db' 1) = FTS_ACTIVE \<and> hard_lifetime_end_time (subs db' 1) = 300"
  by (rule renew_lease6_keeps_pool)
    (simp_all add: two_active_inv two_active_members two_active_subs' example_lease_def on_active_heap_def)


theorem release_lease6_keeps_pool_witness:
  "\<exists>db'. release_lease6 False 0 1 (two_active 100 200 FTS_ACTIVE) = Ret (ISC_R_SUCCESS, db') \<and> pool_inv 0 db'
    \<and> (if state6 (subs (two_active 100 200 FTS_ACTIVE) 1) = FTS_ACTIVE
       then members True 0 db' = members True 0 (two_active 100 200 FTS_ACTIVE) - {#1#}
         \<and> members False 0 db' = add_mset 1 (members False 0 (two_active 100 200 FTS_ACTIVE))
         \<and> state6 (subs db' 1) = FTS_RELEASED \<and> \<not> is_leased 0 db' (addr6 (subs (two_active 100 200 FTS_ACTIVE) 1))
       else db' = two_active 100 200 FTS_ACTIVE)"
  by (rule release_lease6_keeps_pool)
    (simp_all add: two_active_inv two_active_members room_two_active on_active_heap_def)

section \<open>Creating a lease\<close>

lemma create_adds_free_lease:
  assumes inv: "pool_inv p db" and new: "\<not> known p l db" and free: "\<not> is_leased p db a"
    and room: "room (\<lambda>_. alloc) (Suc 0) False p db"
  shows "\<exists>db'. new_lease6 True alloc bucket p l a plen e db = Ret (ISC_R_SUCCESS, Some l, db') \<and> pool_inv p db'
    \<and> members True p db' = members True p db \<and> members False p db' = add_mset l (members False p db)
    \<and> addr6 (subs db' l) = a \<and> plen6 (subs db' l) = plen \<and> state6 (subs db' l) = FTS_FREE
    \<and> soft_lifetime_end_time (subs db' l) = e"
proof -
  obtain db0 where db0: "iasubopt_allocate True l db = (ISC_R_SUCCESS, db0)" by (simp add: iasubopt_allocate_def)
  define db1 where "db1 = upd_sub l (\<lambda>s. s\<lparr>plen6 := plen, addr6 := a\<rparr>) db0"
  have f: "pools6 db1 = pools6 db" "subs db1 k = subs db k" "heap_index db1 k = heap_index db k" if "k \<noteq> l" for k
    using db0 that by (auto simp: db1_def iasubopt_allocate_def emit6_def upd_sub_def)
  then have p1: "pools6 db1 = pools6 db" using db0 by (auto simp: db1_def iasubopt_allocate_def emit6_def upd_sub_def)
  have l1: "addr6 (subs db1 l) = a" "plen6 (subs db1 l) = plen" "state6 (subs db1 l) = FTS_FREE" "ipv6_pool6 (subs db1 l) = None"
    using db0 by (auto simp: db1_def iasubopt_allocate_def emit6_def upd_sub_def)
  note u = change_unknown [OF inv new p1 f(3) f(2)]
  define db2 where "db2 = emit6 [Ref_pool p] (upd_sub l (\<lambda>s. s\<lparr>ipv6_pool6 := Some p\<rparr>) db1)"
  have new1: "\<not> known p l db1" using new u(2) p1 by (simp add: known_def)
  have new2: "\<not> known p l db2" and inv2: "pool_inv p db2" and m2: "members act p db2 = members act p db" for act
    using change_unknown [OF u(1) new1, of db2] new1 u(2) by (auto simp: db2_def db6_simps known_def)
  have l2: "addr6 (subs db2 l) = a" "state6 (subs db2 l) = FTS_FREE" "leases (pools6 db2 p) a = []" "plen6 (subs db2 l) = plen"
    using l1 free p1 by (simp_all add: db2_def db6_simps is_leased_def)
  define db3 where "db3 = emit6 [Ref_sub l] db2"
  have i3: "pool_inv p db3" "\<not> known p l db3" "\<not> on_active_heap (state6 (subs db3 l))"
    using inv2 new2 l2(2) by (simp_all add: db3_def known_def db6_simps on_active_heap_def)
  have "raw_heap False p db3 = raw_heap False p db" using p1 by (simp add: db3_def db2_def raw_heap_def db6_simps)
  from room_cong [OF this] have "room (\<lambda>_. alloc) (Suc 0) False p db3" using room by simp
  then obtain db4 where r: "put_lease alloc bucket p l e db3 = Ret (ISC_R_SUCCESS, db4)" "pool_inv p db4"
      "members True p db4 = members True p db3" "members False p db4 = add_mset l (members False p db3)"
      "subs db4 = (subs db3)(l := (subs db3 l)\<lparr>soft_lifetime_end_time := e\<rparr>)"
    using put_lease_inactive [OF i3] by blast
  have "add_lease6 alloc bucket p l e db1 = Ret (ISC_R_SUCCESS, db4)"
    using r(1) l1 l2 unfolding add_lease6_def
    by (simp add: reference_lease_pool_def db2_def [symmetric] iasubopt_hash_lookup_def db3_def Let_def)
  then have "new_lease6 True alloc bucket p l a plen e db = Ret (ISC_R_SUCCESS, Some l, emit6 [Ref_sub l, Drop_sub l] db4)"
    by (simp add: new_lease6_def db0 db1_def Let_def)
  then show ?thesis using r(2-5) m2 l2 by (simp add: db3_def db6_simps)
qed

text \<open>C9: \<open>create_lease6\<close> comes back after at most 100 addresses, whatever digest and random numbers are.
  The pool is in good order, its start is a network address of its length, and the inactive heap
  has room for one more lease or can grow. If the call succeeds, the new lease has an address of the
  pool that nobody holds and that is not a reserved interface identifier, and the pool is in good
  order with the lease added as inactive. If it fails, the database is as it was: either 100
  addresses were tried, or there was no memory for the hashed data or for the lease.
\<close>

theorem create_lease6_outcome:
  assumes "pool_inv p db" "\<not> known p l db" "\<And>x. length (md5 x) = 16" "length tmp = 16"
    and "length (start_addr (pools6 db p)) = 16" "bits (pools6 db p) \<le> 128"
    and "2 ^ (128 - bits (pools6 db p)) dvd be_val (start_addr (pools6 db p))"
    and "pool_type (pools6 db p) = D6O_IA_NA \<or> pool_type (pools6 db p) = D6O_IA_TA"
    and "room (\<lambda>_. alloc_heap) 1 False p db"
  shows "\<exists>res addr n t' db'. create_lease6 md5 rnd allocs alloc alloc_heap bucket tmp p l uid e t db = Ret (res, addr, n, t', db')
    \<and> (res = ISC_R_SUCCESS \<and> addr = Some l \<and> n \<le> 100 \<and> pool_inv p db'
        \<and> ipv6_in_pool (addr6 (subs db' l)) (start_addr (pools6 db p)) (bits (pools6 db p)) = Ret True
        \<and> \<not> reserved_iid (addr6 (subs db' l)) \<and> \<not> is_leased p db (addr6 (subs db' l))
        \<and> members True p db' = members True p db \<and> members False p db' = add_mset l (members False p db)
      \<or> res = ISC_R_NORESOURCES \<and> n = 101 \<and> addr = None \<and> db' = db
      \<or> res = ISC_R_NOMEMORY \<and> n \<le> 100 \<and> (\<not> allocs n \<or> \<not> alloc) \<and> addr = None \<and> db' = db)"
proof -
  let ?q = "pools6 db p"
  obtain res a n t' where c: "choose_lease6 md5 rnd allocs (is_leased p db) (pool_type ?q) (start_addr ?q) (bits ?q) tmp t uid 0
      = Ret (res, a, n, t')"
      "res = ISC_R_SUCCESS \<and> n \<le> 100 \<and> on_network (start_addr ?q) (bits ?q) a \<and> \<not> reserved_iid a \<and> \<not> is_leased p db a
      \<or> res = ISC_R_NORESOURCES \<and> n = 101 \<or> res = ISC_R_NOMEMORY \<and> n \<le> 100 \<and> \<not> allocs n"
    using choose_lease6_spec [of md5 tmp "start_addr ?q" "bits ?q" "pool_type ?q" 0 rnd allocs "is_leased p db" t uid] assms(3-8)
    by auto
  show ?thesis
  proof (cases "res = ISC_R_SUCCESS")
    case True
    then have a: "on_network (start_addr ?q) (bits ?q) a" "\<not> reserved_iid a" "\<not> is_leased p db a" "n \<le> 100"
      using c(2) by auto
    show ?thesis
    proof (cases alloc)
      case False
      then have "new_lease6 alloc alloc_heap bucket p l a 0 e db = Ret (ISC_R_NOMEMORY, None, db)"
        by (simp add: new_lease6_def iasubopt_allocate_def)
      then show ?thesis using c(1) True False a(4) by (auto simp: create_lease6_def)
    next
      case alloc: True
      obtain db' where d: "new_lease6 True alloc_heap bucket p l a 0 e db = Ret (ISC_R_SUCCESS, Some l, db')" "pool_inv p db'"
          "members True p db' = members True p db" "members False p db' = add_mset l (members False p db)" "addr6 (subs db' l) = a"
        using create_adds_free_lease [OF assms(1,2) a(3), of alloc_heap bucket 0 e] assms(9) by auto
      then have "create_lease6 md5 rnd allocs alloc alloc_heap bucket tmp p l uid e t db = Ret (ISC_R_SUCCESS, Some l, n, t', db')"
        using c(1) True alloc by (simp add: create_lease6_def)
      then show ?thesis using d a on_network_in_pool [OF a(1) assms(5,6,7)] by auto
    qed
  next
    case False
    then show ?thesis using c by (auto simp: create_lease6_def)
  qed
qed

theorem create_lease6_outcome_witness:
  "\<exists>res addr n t' db'. create_lease6 (\<lambda>x. take 16 (x @ replicate 16 0xAB)) (\<lambda>_. replicate 8 0) (\<lambda>_. True) True False True
      (replicate 16 0) 0 3 [1, 2, 3] 50 \<lparr>history = replicate 8 0, counter = 0\<rparr> (two_active 100 200 FTS_ACTIVE) = Ret (res, addr, n, t', db')
    \<and> (res = ISC_R_SUCCESS \<and> addr = Some 3 \<and> n \<le> 100 \<and> pool_inv 0 db'
        \<and> ipv6_in_pool (addr6 (subs db' 3)) (start_addr (pools6 (two_active 100 200 FTS_ACTIVE) 0))
            (bits (pools6 (two_active 100 200 FTS_ACTIVE) 0)) = Ret True
        \<and> \<not> reserved_iid (addr6 (subs db' 3)) \<and> \<not> is_leased 0 (two_active 100 200 FTS_ACTIVE) (addr6 (subs db' 3))
        \<and> members True 0 db' = members True 0 (two_active 100 200 FTS_ACTIVE)
        \<and> members False 0 db' = add_mset 3 (members False 0 (two_active 100 200 FTS_ACTIVE))
      \<or> res = ISC_R_NORESOURCES \<and> n = 101 \<and> addr = None \<and> db' = two_active 100 200 FTS_ACTIVE
      \<or> res = ISC_R_NOMEMORY \<and> n \<le> 100 \<and> (\<not> True \<or> \<not> True) \<and> addr = None \<and> db' = two_active 100 200 FTS_ACTIVE)"
proof (rule create_lease6_outcome)
  show "pool_inv 0 (two_active 100 200 FTS_ACTIVE)" by (rule two_active_inv) (simp_all add: on_active_heap_def)
  show "\<not> known 0 3 (two_active 100 200 FTS_ACTIVE)"
    by (simp add: known_def two_active_members) (simp add: two_active_def example_db_def)
qed (simp_all add: room_two_active, simp_all add: two_active_def example_db_def D6O_IA_NA_def be_val_zeros)

end
