(* ===== verification/Inet_Addr.thy ===== *)
theory Inet_Addr
  imports Dhcp_Prelude
begin

text \<open>
  Model of \<open>common/inet.c\<close>: arithmetic on IPv4 and IPv6 addresses held as byte arrays. A
  \<open>struct iaddr\<close> is a length and sixteen bytes, of which the first \<open>len\<close> are the address;
  its value is their big-endian value. Locals that the C code leaves uninitialised are
  arguments (\<open>rv\<close>), so that no theorem depends on their contents. Printing through
  \<open>inet_ntop\<close> is not modelled.
\<close>

section \<open>Addresses\<close>

record iaddr =
  len :: nat
  iabuf :: "byte list"

definition wf_iaddr :: "iaddr \<Rightarrow> bool" where
  "wf_iaddr a \<longleftrightarrow> length (iabuf a) = 16 \<and> len a \<le> 16"

definition addr_bytes :: "iaddr \<Rightarrow> byte list" where
  "addr_bytes a = take (len a) (iabuf a)"

definition addr_val :: "iaddr \<Rightarrow> nat" where
  "addr_val a = be_val (addr_bytes a)"

text \<open>
  A loop \<open>for (i = 0; i < len; i++) rv.iabuf[i] = f(i)\<close> over the array of a result, and the
  loops over two arrays.
\<close>

fun fill_loop :: "(nat \<Rightarrow> byte cres) \<Rightarrow> byte list \<Rightarrow> nat \<Rightarrow> nat \<Rightarrow> byte list cres" where
  "fill_loop f buf i 0 = Ret buf"
| "fill_loop f buf i (Suc n) =
     bindC (f i) (\<lambda>x. bindC (wr buf i x) (\<lambda>buf. fill_loop f buf (i + 1) n))"

definition bytes2 :: "(byte \<Rightarrow> byte \<Rightarrow> byte) \<Rightarrow> iaddr \<Rightarrow> iaddr \<Rightarrow> nat \<Rightarrow> byte cres" where
  "bytes2 f a b i = bindC (rd (iabuf a) i) (\<lambda>x. bindC (rd (iabuf b) i) (\<lambda>y. Ret (f x y)))"

definition subnet_number :: "iaddr \<Rightarrow> iaddr \<Rightarrow> iaddr \<Rightarrow> iaddr cres" where
  "subnet_number rv addr msk =
     bindC (assertC (len addr \<le> 16)) (\<lambda>_.
     bindC (assertC (len addr = len msk)) (\<lambda>_.
     bindC (fill_loop (bytes2 (AND) addr msk) (iabuf rv) 0 (len addr)) (\<lambda>b.
       Ret \<lparr>len = len addr, iabuf = b\<rparr>)))"

text \<open>
  The loop of \<open>ip_addr\<close> runs \<open>i\<close> from 3 down to 0, with \<open>j\<close> the offset of the last four
  bytes; the argument is \<open>i + 1\<close>. For an address of less than four bytes the index
  \<open>i + j\<close> is negative. \<open>Inl\<close> is the result of length 0, with the bytes written so far.
\<close>

fun ip_addr_loop :: "byte list \<Rightarrow> iaddr \<Rightarrow> byte list \<Rightarrow> int \<Rightarrow> nat \<Rightarrow> (byte list + byte list) cres" where
  "ip_addr_loop buf msk habuf j 0 = Ret (Inr buf)"
| "ip_addr_loop buf msk habuf j (Suc i) =
     bindC (definedC (0 \<le> int i + j)) (\<lambda>_.
     bindC (rd (iabuf msk) (nat (int i + j))) (\<lambda>m.
     bindC (rd habuf i) (\<lambda>h.
     bindC (rd buf (nat (int i + j))) (\<lambda>b.
     if m \<noteq> 0 then
       (if h > m XOR 255 then Ret (Inl buf)
        else if \<exists>k < i. habuf ! k \<noteq> 0 then Ret (Inl buf)
        else Ret (Inr (buf[nat (int i + j) := b OR h])))
     else ip_addr_loop (buf[nat (int i + j) := h]) msk habuf j i))))"

definition ip_addr :: "iaddr \<Rightarrow> iaddr \<Rightarrow> u32 \<Rightarrow> iaddr cres" where
  "ip_addr subnet msk host_address =
     bindC (assertC (len subnet \<le> 16)) (\<lambda>_.
     bindC (assertC (len subnet = len msk)) (\<lambda>_.
     bindC (ip_addr_loop (iabuf subnet) msk (be_bytes 4 (unat host_address))
              (int (len subnet) - 4) 4) (\<lambda>r. case r of
         Inl b \<Rightarrow> Ret (subnet\<lparr>len := 0, iabuf := b\<rparr>)
       | Inr b \<Rightarrow> Ret (subnet\<lparr>iabuf := b\<rparr>))))"

definition broadcast_addr :: "iaddr \<Rightarrow> iaddr \<Rightarrow> iaddr \<Rightarrow> iaddr cres" where
  "broadcast_addr rv subnet msk =
     bindC (assertC (len subnet \<le> 16)) (\<lambda>_.
     bindC (assertC (len subnet = len msk)) (\<lambda>_.
     bindC (fill_loop (bytes2 (\<lambda>x m. x OR (NOT m AND 255)) subnet msk) (iabuf rv) 0 (len subnet)) (\<lambda>b.
       Ret \<lparr>len = len subnet, iabuf = b\<rparr>)))"

definition host_addr :: "iaddr \<Rightarrow> iaddr \<Rightarrow> iaddr \<Rightarrow> u32 cres" where
  "host_addr rv addr msk =
     bindC (assertC (len addr \<le> 16)) (\<lambda>_.
     bindC (assertC (len addr = len msk)) (\<lambda>_.
     bindC (fill_loop (bytes2 (\<lambda>x m. x AND NOT m) addr msk) (iabuf rv) 0 (len addr)) (\<lambda>b.
     bindC (definedC (4 \<le> len addr)) (\<lambda>_.
     bindC (rdn b (len addr - 4) 4) (\<lambda>sw. Ret (of_nat (be_val sw)))))))"

definition addr_eq :: "iaddr \<Rightarrow> iaddr \<Rightarrow> bool cres" where
  "addr_eq addr1 addr2 =
     bindC (assertC (len addr1 \<le> 16)) (\<lambda>_.
     if len addr1 \<noteq> len addr2 then Ret False
     else bindC (rdn (iabuf addr1) 0 (len addr1)) (\<lambda>x.
          bindC (rdn (iabuf addr2) 0 (len addr1)) (\<lambda>y. Ret (x = y))))"

record iaddrmatch =
  addr_m :: iaddr
  mask_m :: iaddr

fun addr_match_loop :: "iaddr \<Rightarrow> iaddrmatch \<Rightarrow> nat \<Rightarrow> nat \<Rightarrow> bool cres" where
  "addr_match_loop addr mt i 0 = Ret True"
| "addr_match_loop addr mt i (Suc n) =
     bindC (bytes2 (AND) addr (mask_m mt) i) (\<lambda>x.
     bindC (rd (iabuf (addr_m mt)) i) (\<lambda>y.
       if x \<noteq> y then Ret False else addr_match_loop addr mt (i + 1) n))"

definition addr_match :: "iaddr \<Rightarrow> iaddrmatch \<Rightarrow> bool cres" where
  "addr_match addr mt =
     (if len addr \<noteq> len (addr_m mt) then Ret False else addr_match_loop addr mt 0 (len addr))"

fun addr_cmp_loop :: "iaddr \<Rightarrow> iaddr \<Rightarrow> nat \<Rightarrow> nat \<Rightarrow> int cres" where
  "addr_cmp_loop a1 a2 i 0 = Ret 0"
| "addr_cmp_loop a1 a2 i (Suc n) =
     bindC (rd (iabuf a1) i) (\<lambda>x. bindC (rd (iabuf a2) i) (\<lambda>y.
       if x < y then Ret (- 1) else if x > y then Ret 1 else addr_cmp_loop a1 a2 (i + 1) n))"

definition addr_cmp :: "iaddr \<Rightarrow> iaddr \<Rightarrow> int cres" where
  "addr_cmp a1 a2 = (if len a1 \<noteq> len a2 then Ret 0 else addr_cmp_loop a1 a2 0 (len a1))"

text \<open>The result of \<open>addr_or\<close> and \<open>addr_and\<close>, and the address they write.\<close>

definition addr_bitop :: "(byte \<Rightarrow> byte \<Rightarrow> byte) \<Rightarrow> iaddr \<Rightarrow> iaddr \<Rightarrow> iaddr \<Rightarrow> (bool \<times> iaddr) cres" where
  "addr_bitop f result a1 a2 =
     (if len a1 \<noteq> len a2 then Ret (False, result)
      else bindC (fill_loop (bytes2 f a1 a2) (iabuf result) 0 (len a1)) (\<lambda>b.
             Ret (\<exists>i < len a1. b ! i \<noteq> 0, \<lparr>len = len a1, iabuf = b\<rparr>)))"

definition addr_or :: "iaddr \<Rightarrow> iaddr \<Rightarrow> iaddr \<Rightarrow> (bool \<times> iaddr) cres" where
  "addr_or = addr_bitop (OR)"

definition addr_and :: "iaddr \<Rightarrow> iaddr \<Rightarrow> iaddr \<Rightarrow> (bool \<times> iaddr) cres" where
  "addr_and = addr_bitop (AND)"

text \<open>\<open>n\<close> counts the bytes still to be looked at, \<open>zero_bytes - i + 1\<close> in the source.\<close>

fun zero_tail :: "iaddr \<Rightarrow> nat \<Rightarrow> bool cres" where
  "zero_tail addr 0 = Ret True"
| "zero_tail addr (Suc n) =
     bindC (zero_tail addr n) (\<lambda>ok. if \<not> ok then Ret False
       else bindC (rd (iabuf addr) (len addr - Suc n)) (\<lambda>x. Ret (x = 0)))"

text \<open>\<open>char byte\<close> is signed: the shifts are those of the sign-extended byte.\<close>

definition is_cidr_mask_valid :: "iaddr \<Rightarrow> int \<Rightarrow> bool cres" where
  "is_cidr_mask_valid addr bits =
     (if bits < 0 then Ret False
      else if bits > int (len addr) * 8 then Ret False
      else
        let zero_bits = nat (int (len addr) * 8 - bits); zero_bytes = zero_bits div 8;
            shift_bits = zero_bits mod 8
        in bindC (zero_tail addr zero_bytes) (\<lambda>ok.
           if \<not> ok then Ret False
           else if shift_bits = 0 then Ret True
           else bindC (rd (iabuf addr) (len addr - zero_bytes - 1)) (\<lambda>x.
             let byte = sint x
             in Ret (push_bit shift_bits (drop_bit shift_bits byte) = byte))))"

section \<open>Ranges as networks\<close>

record iaddrcidrnet =
  lo_addr :: iaddr
  bits :: int

record r2c_state =
  addr_s :: iaddr
  mask_s :: iaddr
  end_addr_s :: iaddr
  dummy_s :: iaddr
  bit_s :: nat
  nets_s :: "iaddrcidrnet list"

text \<open>
  Adding to a byte with carry: \<open>ofs\<close> is the first argument minus one. The loop also reads
  \<open>iabuf[-1]\<close>, a byte of the field before the array, and does not use it; that byte is
  \<open>stray\<close>. \<open>None\<close> is the carry out of the first byte.
\<close>

fun carry_loop :: "nat \<Rightarrow> nat \<Rightarrow> byte list \<Rightarrow> nat \<Rightarrow> byte list option" where
  "carry_loop 0 stray buf tmp = None"
| "carry_loop (Suc k) stray buf tmp =
     (if tmp > 255
      then carry_loop k stray (buf[k := of_nat (tmp - 256)])
             ((if k = 0 then stray else unat (buf ! (k - 1))) + 1)
      else Some (buf[k := of_nat tmp]))"

text \<open>
  One turn of the loop of \<open>range2cidr\<close>: \<open>Inl\<close> leaves the loop with the result, \<open>Inr\<close> goes on.
  \<open>alloc_ok n\<close> is the outcome of the allocation of network number \<open>n\<close>; when it fails the list
  built so far is freed.
\<close>

definition range2cidr_step ::
  "(nat \<Rightarrow> bool) \<Rightarrow> nat \<Rightarrow> iaddr \<Rightarrow> r2c_state
    \<Rightarrow> ((isc_result \<times> iaddrcidrnet list) + r2c_state) cres" where
  "range2cidr_step alloc_ok stray hi st =
     (let addr = addr_s st; bit = bit_s st;
          ofs = int (len addr) - int (bit div 8) - 1; val = 2 ^ (bit mod 8) :: nat
      in
      bindC (if ofs \<ge> 0
             then bindC (rd (iabuf (mask_s st)) (nat ofs)) (\<lambda>x.
                  bindC (wr (iabuf (mask_s st)) (nat ofs) (x OR of_nat val)) (\<lambda>b.
                    Ret ((mask_s st)\<lparr>iabuf := b\<rparr>)))
             else Ret (mask_s st)) (\<lambda>msk.
      bindC (addr_or (end_addr_s st) addr msk) (\<lambda>(_, end_addr).
      bindC (if ofs < 0 then Ret (True, dummy_s st)
             else bindC (addr_cmp end_addr hi) (\<lambda>c.
               if c > 0 then Ret (True, dummy_s st) else addr_and (dummy_s st) addr msk)) (\<lambda>(big, dummy).
      if big then
        if \<not> alloc_ok (length (nets_s st)) then Ret (Inl (ISC_R_NOMEMORY, []))
        else
          let nets = \<lparr>lo_addr = addr, bits = int (len addr) * 8 - int bit\<rparr> # nets_s st in
          bindC (if ofs \<ge> 0 then bindC (rd (iabuf addr) (nat ofs)) (\<lambda>x. Ret (unat x)) else Ret stray) (\<lambda>x.
          case carry_loop (nat (ofs + 1)) stray (iabuf addr) (x + val) of
            None \<Rightarrow> Ret (Inl (ISC_R_SUCCESS, nets))
          | Some b \<Rightarrow>
              Ret (Inr \<lparr>addr_s = addr\<lparr>iabuf := b\<rparr>, mask_s = msk\<lparr>iabuf := replicate 16 0\<rparr>,
                end_addr_s = end_addr\<lparr>iabuf := replicate 16 0\<rparr>, dummy_s = dummy, bit_s = 0,
                nets_s = nets\<rparr>))
      else Ret (Inr (st\<lparr>mask_s := msk, end_addr_s := end_addr, dummy_s := dummy, bit_s := bit + 1\<rparr>))))))"

partial_function (option) range2cidr_loop ::
  "(nat \<Rightarrow> bool) \<Rightarrow> nat \<Rightarrow> iaddr \<Rightarrow> r2c_state \<Rightarrow> (isc_result \<times> iaddrcidrnet list) cres option" where
  "range2cidr_loop alloc_ok stray hi st =
     (case addr_cmp (addr_s st) hi of
        Fatal \<Rightarrow> Some Fatal
      | Undef \<Rightarrow> Some Undef
      | Ret c \<Rightarrow>
          if c \<le> 0 then
            (case range2cidr_step alloc_ok stray hi st of
               Fatal \<Rightarrow> Some Fatal
             | Undef \<Rightarrow> Some Undef
             | Ret r \<Rightarrow> (case r of Inl res \<Rightarrow> Some (Ret res)
                        | Inr st' \<Rightarrow> range2cidr_loop alloc_ok stray hi st'))
          else Some (Ret (ISC_R_SUCCESS, nets_s st)))"

text \<open>
  \<open>result\<close> is the caller's list pointer: \<open>None\<close> a NULL argument, \<open>Some []\<close> a pointer to NULL.
  \<open>e\<close> and \<open>d\<close> are the uninitialised locals \<open>end_addr\<close> and \<open>dummy\<close>.
\<close>

definition range2cidr ::
  "(nat \<Rightarrow> bool) \<Rightarrow> nat \<Rightarrow> iaddr \<Rightarrow> iaddr \<Rightarrow> iaddrcidrnet list option \<Rightarrow> iaddr option \<Rightarrow> iaddr option
    \<Rightarrow> (isc_result \<times> iaddrcidrnet list) cres option" where
  "range2cidr alloc_ok stray e d result lo hi =
     (case (result, lo, hi) of
        (Some [], Some lo, Some hi) \<Rightarrow>
          if len lo \<noteq> len hi then Some (Ret (DHCP_R_INVALIDARG, []))
          else (case addr_cmp lo hi of
              Fatal \<Rightarrow> Some Fatal
            | Undef \<Rightarrow> Some Undef
            | Ret c \<Rightarrow>
                let (lo, hi) = (if c > 0 then (hi, lo) else (lo, hi))
                in range2cidr_loop alloc_ok stray hi
                     \<lparr>addr_s = lo, mask_s = \<lparr>len = len lo, iabuf = replicate 16 0\<rparr>, end_addr_s = e,
                      dummy_s = d, bit_s = 0, nets_s = []\<rparr>)
      | (None, _, _) \<Rightarrow> Some (Ret (DHCP_R_INVALIDARG, []))
      | (Some r, _, _) \<Rightarrow> Some (Ret (DHCP_R_INVALIDARG, r)))"

definition free_iaddrcidrnetlist ::
  "iaddrcidrnet list option \<Rightarrow> isc_result \<times> iaddrcidrnet list option" where
  "free_iaddrcidrnetlist result =
     (case result of None \<Rightarrow> (DHCP_R_INVALIDARG, None)
      | Some [] \<Rightarrow> (DHCP_R_INVALIDARG, Some [])
      | Some _ \<Rightarrow> (ISC_R_SUCCESS, Some []))"

section \<open>Mask widths and ports\<close>

text \<open>The loop of \<open>piaddrmask\<close> that determines the width of a mask.\<close>

function mask_width :: "byte list \<Rightarrow> int \<Rightarrow> int cres" where
  "mask_width buf mw =
     (if mw > 0 then
        let oct = nat ((mw - 1) div 8); b = drop_bit (nat ((mw - 1) mod 8)) 128 :: byte
        in bindC (rd buf oct) (\<lambda>x.
           if x = 0 then mask_width buf (mw - 8)
           else if x AND b \<noteq> 0 then Ret mw
           else mask_width buf (mw - 1))
      else Ret mw)"
  by pat_completeness auto
termination
  by (relation "measure (\<lambda>(buf, mw). nat mw)") auto

declare mask_width.simps [simp del]

text \<open>The width \<open>piaddrmask\<close> prints after the address.\<close>

definition piaddrmask_width :: "iaddr \<Rightarrow> iaddr \<Rightarrow> int cres" where
  "piaddrmask_width addr msk =
     bindC (assertC (len addr = 4 \<or> len addr = 16)) (\<lambda>_.
     bindC (assertC (len addr = len msk)) (\<lambda>_.
     bindC (mask_width (iabuf msk) (int (len msk) * 8)) (\<lambda>mw.
     bindC (assertC (\<not> mw < 0)) (\<lambda>_. Ret mw))))"

section \<open>Addresses as numbers\<close>

lemma fill_loop_spec:
  assumes "\<And>k. i \<le> k \<Longrightarrow> k < i + n \<Longrightarrow> f k = Ret (g k)" "i + n \<le> length buf"
  shows "fill_loop f buf i n = Ret (take i buf @ map g [i..<i + n] @ drop (i + n) buf)"
  using assms
proof (induction n arbitrary: i buf)
  case 0
  then show ?case by simp
next
  case (Suc n)
  let ?buf = "buf[i := g i]"
  have "fill_loop f ?buf (Suc i) n = Ret (take (Suc i) ?buf @ map g [Suc i..<Suc i + n] @ drop (Suc i + n) ?buf)"
    using Suc.prems by (intro Suc.IH) auto
  moreover have "take (Suc i) ?buf = take i buf @ [g i]"
    using Suc.prems(2) by (simp add: take_Suc_conv_app_nth)
  moreover have "[i..<i + Suc n] = i # [Suc i..<Suc i + n]" by (simp add: upt_conv_Cons)
  ultimately show ?case using Suc.prems by simp
qed

lemma length_addr_bytes [simp]: "wf_iaddr a \<Longrightarrow> length (addr_bytes a) = len a"
  by (simp add: addr_bytes_def wf_iaddr_def)

lemma addr_val_lt: "wf_iaddr a \<Longrightarrow> addr_val a < 256 ^ len a"
  using be_val_lt [of "addr_bytes a"] by (simp add: addr_val_def)

text \<open>A loop over two addresses of the same length, written into a fresh address.\<close>

lemma fill_bytes2:
  assumes "wf_iaddr a" "wf_iaddr b" "len a = len b" "length r = 16"
  shows "\<exists>r'. fill_loop (bytes2 f a b) r 0 (len a) = Ret r' \<and> length r' = 16
    \<and> take (len a) r' = map2 f (addr_bytes a) (addr_bytes b)"
proof -
  let ?g = "\<lambda>k. f (iabuf a ! k) (iabuf b ! k)"
  have "fill_loop (bytes2 f a b) r 0 (len a) = Ret (take 0 r @ map ?g [0..<0 + len a] @ drop (0 + len a) r)"
    using assms by (intro fill_loop_spec) (auto simp: bytes2_def wf_iaddr_def)
  moreover have "map ?g [0..<len a] = map2 f (addr_bytes a) (addr_bytes b)"
    using assms by (auto simp: addr_bytes_def wf_iaddr_def intro!: nth_equalityI)
  ultimately show ?thesis using assms by (simp add: wf_iaddr_def)
qed

lemma be_val_eq_0: "be_val bs = 0 \<longleftrightarrow> (\<forall>x \<in> set bs. x = 0)"
  by (induction bs) (auto simp: unat_eq_zero)

lemma bitop_spec:
  assumes "wf_iaddr a" "wf_iaddr b" "len a = len b" "length (iabuf r) = 16"
  shows "\<exists>r'. addr_bitop f r a b = Ret (addr_val r' \<noteq> 0, r') \<and> wf_iaddr r' \<and> len r' = len a
    \<and> addr_bytes r' = map2 f (addr_bytes a) (addr_bytes b)"
proof -
  obtain r' where r': "fill_loop (bytes2 f a b) (iabuf r) 0 (len a) = Ret r'" "length r' = 16"
      "take (len a) r' = map2 f (addr_bytes a) (addr_bytes b)"
    using fill_bytes2 [OF assms] by blast
  let ?r = "\<lparr>len = len a, iabuf = r'\<rparr>"
  have wf: "wf_iaddr ?r" using r'(2) assms(1) by (simp add: wf_iaddr_def)
  have "set (take (len a) r') = nth r' ` {0..<len a}"
    using r'(2) assms(1) nth_image [of "len a" r'] by (simp add: wf_iaddr_def)
  then have "(\<exists>i < len a. r' ! i \<noteq> 0) \<longleftrightarrow> addr_val ?r \<noteq> 0"
    unfolding addr_val_def addr_bytes_def be_val_eq_0 by auto
  with r' wf assms(3) show ?thesis
    by (intro exI [of _ ?r]) (simp add: addr_bitop_def addr_bytes_def)
qed

lemma addr_and_spec:
  assumes "wf_iaddr a" "wf_iaddr b" "len a = len b" "length (iabuf r) = 16"
  shows "\<exists>r'. addr_and r a b = Ret (addr_val a AND addr_val b \<noteq> 0, r') \<and> wf_iaddr r'"
  using bitop_spec [OF assms, of "(AND)"] assms be_val_map2(1) [of "addr_bytes a" "addr_bytes b"]
  by (auto simp: addr_and_def addr_val_def)

lemma addr_or_spec:
  assumes "wf_iaddr a" "wf_iaddr b" "len a = len b" "length (iabuf r) = 16"
  shows "\<exists>z r'. addr_or r a b = Ret (z, r') \<and> wf_iaddr r' \<and> len r' = len a
    \<and> addr_val r' = addr_val a OR addr_val b"
  using bitop_spec [OF assms, of "(OR)"] assms be_val_map2(2) [of "addr_bytes a" "addr_bytes b"]
  by (auto simp: addr_or_def addr_val_def)

lemma be_val_Cons_less:
  assumes "length xs = length ys"
  shows "be_val (x # xs) < be_val (y # ys) \<longleftrightarrow> x < y \<or> (x = y \<and> be_val xs < be_val ys)"
proof -
  have lt: "be_val (u # us) < be_val (v # vs)" if "u < v" "length us = length vs" for u v :: byte and us vs
  proof -
    have "unat u + 1 \<le> unat v" using that(1) by (simp add: word_less_nat_alt)
    then have "(unat u + 1) * 256 ^ length us \<le> unat v * 256 ^ length us" by (rule mult_right_mono) simp
    then show ?thesis using that(2) be_val_lt [of us] by simp
  qed
  show ?thesis
  proof (cases x y rule: linorder_cases)
    case less
    with lt [of x y xs ys] assms show ?thesis by simp
  next
    case greater
    with lt [of y x ys xs] assms show ?thesis by auto
  qed (use assms in simp)
qed

lemma addr_cmp_loop_spec:
  assumes "i + n \<le> length (iabuf a)" "i + n \<le> length (iabuf b)"
  shows "addr_cmp_loop a b i n =
    (let u = be_val (take n (drop i (iabuf a))); v = be_val (take n (drop i (iabuf b)))
     in Ret (if u < v then - 1 else if v < u then 1 else 0))"
  using assms
proof (induction n arbitrary: i)
  case 0
  then show ?case by simp
next
  case (Suc n)
  have c: "take (Suc n) (drop i xs) = xs ! i # take n (drop (Suc i) xs)" if "i + Suc n \<le> length xs" for xs :: "byte list"
    using that by (simp add: Cons_nth_drop_Suc [symmetric])
  have IH: "addr_cmp_loop a b (i + 1) n =
    (let u = be_val (take n (drop (Suc i) (iabuf a))); v = be_val (take n (drop (Suc i) (iabuf b)))
     in Ret (if u < v then - 1 else if v < u then 1 else 0))" using Suc.IH [of "Suc i"] Suc.prems by simp
  have l: "length (take n (drop (Suc i) (iabuf a))) = length (take n (drop (Suc i) (iabuf b)))"
    using Suc.prems by simp
  show ?case
    unfolding c [OF Suc.prems(1)] c [OF Suc.prems(2)] Let_def addr_cmp_loop.simps IH
      be_val_Cons_less [OF l] be_val_Cons_less [OF l [symmetric]]
    using Suc.prems by auto
qed

lemma addr_cmp_spec:
  assumes "wf_iaddr a" "wf_iaddr b" "len a = len b"
  shows "addr_cmp a b = Ret (if addr_val a < addr_val b then - 1
    else if addr_val b < addr_val a then 1 else 0)"
  using assms addr_cmp_loop_spec [of 0 "len a" a b]
  by (auto simp: addr_cmp_def wf_iaddr_def addr_val_def addr_bytes_def Let_def)

lemma be_val_upd:
  assumes "k < length xs"
  shows "be_val (xs[k := y]) + unat (xs ! k) * 256 ^ (length xs - Suc k)
    = be_val xs + unat y * 256 ^ (length xs - Suc k)"
proof -
  have xs: "xs = take k xs @ xs ! k # drop (Suc k) xs" using assms by (simp add: id_take_nth_drop [symmetric])
  have "be_val (xs[k := y]) = be_val (take k xs @ y # drop (Suc k) xs)"
    using assms by (simp add: upd_conv_take_nth_drop)
  moreover have "be_val xs = be_val (take k xs @ xs ! k # drop (Suc k) xs)" using xs by simp
  ultimately show ?thesis by (simp add: be_val_append)
qed

lemma take_Suc_val: "k < length buf \<Longrightarrow> be_val (take (Suc k) buf) = be_val (take k buf) * 256 + unat (buf ! k)"
  by (simp add: take_Suc_conv_app_nth be_val_append)

text \<open>Adding to the byte at offset \<open>k - 1\<close>: the carry runs to the front, or out of the array.\<close>

lemma carry_loop_spec:
  assumes "1 \<le> k" "k \<le> length buf" "add \<le> 256"
  shows "if be_val (take k buf) + add < 256 ^ k
    then \<exists>b. carry_loop k stray buf (unat (buf ! (k - 1)) + add) = Some b \<and> length b = length buf
      \<and> be_val (take k b) = be_val (take k buf) + add \<and> drop k b = drop k buf
    else carry_loop k stray buf (unat (buf ! (k - 1)) + add) = None"
  using assms
proof (induction k arbitrary: buf add)
  case (Suc k)
  define t where "t = unat (buf ! k) + add"
  let ?P = "be_val (take k buf)"
  have k: "k < length buf" using Suc.prems by simp
  have val: "be_val (take (Suc k) buf) + add = ?P * 256 + t" using take_Suc_val [OF k] by (simp add: t_def)
  have P: "?P < 256 ^ k" using be_val_lt [of "take k buf"] k by simp
  have tk: "unat (buf ! (Suc k - 1)) + add = t" by (simp add: t_def)
  have "if ?P * 256 + t < 256 ^ Suc k
    then \<exists>b. carry_loop (Suc k) stray buf t = Some b \<and> length b = length buf
      \<and> be_val (take (Suc k) b) = ?P * 256 + t \<and> drop (Suc k) b = drop (Suc k) buf
    else carry_loop (Suc k) stray buf t = None"
  proof (cases "t > 255")
    case False
    then have "?P * 256 + t < 256 ^ Suc k" using P by simp
    moreover have "be_val (take (Suc k) (buf[k := of_nat t])) = ?P * 256 + t"
      using False k by (simp add: take_Suc_val unat_of_nat)
    moreover have "carry_loop (Suc k) stray buf t = Some (buf[k := of_nat t])" using False by simp
    ultimately show ?thesis using k val by simp
  next
    case True
    define buf' where "buf' = buf[k := of_nat (t - 256)]"
    have t: "t - 256 < 256" using unat_byte_lt [of "buf ! k"] Suc.prems(3) unfolding t_def by linarith
    have fits: "?P * 256 + t < 256 ^ Suc k \<longleftrightarrow> ?P + 1 < 256 ^ k"
      using True t by simp linarith
    have run: "carry_loop (Suc k) stray buf t =
        carry_loop k stray buf' ((if k = 0 then stray else unat (buf ! (k - 1))) + 1)"
      using True by (simp add: buf'_def)
    show ?thesis
    proof (cases "k = 0")
      case True
      then show ?thesis using fits run by (simp add: val)
    next
      case False
      have pre: "take k buf' = take k buf" "buf' ! (k - 1) = buf ! (k - 1)" "length buf' = length buf"
        using False by (simp_all add: buf'_def)
      have IH: "if ?P + 1 < 256 ^ k
        then \<exists>b. carry_loop k stray buf' (unat (buf ! (k - 1)) + 1) = Some b \<and> length b = length buf
          \<and> be_val (take k b) = ?P + 1 \<and> drop k b = drop k buf'
        else carry_loop k stray buf' (unat (buf ! (k - 1)) + 1) = None"
        by (rule Suc.IH [of buf' 1, unfolded pre]) (use False k in simp_all)
      show ?thesis
      proof (cases "?P + 1 < 256 ^ k")
        case True
        with IH obtain b where b: "carry_loop k stray buf' (unat (buf ! (k - 1)) + 1) = Some b"
            "length b = length buf" "be_val (take k b) = ?P + 1" "drop k b = drop k buf'" by auto
        have "b ! k = of_nat (t - 256)" "drop (Suc k) b = drop (Suc k) buf"
          using b(2,4) k by (simp_all add: buf'_def Cons_nth_drop_Suc [symmetric])
        moreover have "unat (of_nat (t - 256) :: byte) = t - 256"
          using t by (simp only: unat_of_nat_byte mod_less)
        ultimately have "be_val (take (Suc k) b) = ?P * 256 + t"
          using b(2,3) k \<open>t > 255\<close> by (simp add: take_Suc_val del: of_nat_diff)
        with b run False fits True \<open>drop (Suc k) b = drop (Suc k) buf\<close> show ?thesis
          by (simp del: carry_loop.simps)
      next
        case nofit: False
        with IH run False fits show ?thesis by (simp del: carry_loop.simps)
      qed
    qed
  qed
  then show ?case unfolding tk val .
qed simp

section \<open>Ranges as networks: correctness\<close>

lemma pow8: "(256 :: nat) ^ (b div 8) * 2 ^ (b mod 8) = 2 ^ b"
proof -
  have "(256 :: nat) ^ d * 2 ^ r = 2 ^ (8 * d + r)" for d r
    by (simp add: power_add power_mult)
  from this [of "b div 8" "b mod 8"] show ?thesis by simp
qed

lemma pow256: "(256 :: nat) ^ n = 2 ^ (8 * n)"
  by (simp add: power_mult)

text \<open>A byte of a mask of \<open>b\<close> ones.\<close>

lemma mask_byte:
  assumes "be_val xs = 2 ^ b - 1" "b < 8 * length xs"
  shows "unat (xs ! (length xs - b div 8 - 1)) = 2 ^ (b mod 8) - 1"
proof -
  let ?k = "length xs - b div 8 - 1"
  have k: "?k < length xs" "length xs - Suc ?k = b div 8" using assms(2) by auto
  have "(2 ^ b - 1) div 256 ^ (b div 8) = (2 ^ (b mod 8) - 1 :: nat)"
  proof -
    obtain a where a: "(2 :: nat) ^ (b mod 8) = Suc a" by (metis gr0_implies_Suc zero_less_numeral zero_less_power)
    obtain c where c: "(256 :: nat) ^ (b div 8) = Suc c" by (metis gr0_implies_Suc zero_less_numeral zero_less_power)
    have "(2 :: nat) ^ b - 1 = a * Suc c + c" using pow8 [of b] unfolding a c by (simp add: mult.commute)
    moreover have "(a * Suc c + c) div Suc c = a" by (simp only: div_mult_self3 [of "Suc c"]) simp
    ultimately show ?thesis unfolding a c by simp
  qed
  moreover have "(2 :: nat) ^ (b mod 8) - 1 < 256"
    using power_strict_increasing [of "b mod 8" 8 "2 :: nat"] by simp
  ultimately show ?thesis using be_val_nth [OF k(1)] k(2) assms(1) by simp
qed

lemma mask_grow:
  assumes "be_val xs = 2 ^ b - 1" "b < 8 * length xs"
  defines "k \<equiv> length xs - b div 8 - 1"
  shows "be_val (xs[k := xs ! k OR of_nat (2 ^ (b mod 8))]) = 2 ^ Suc b - 1"
proof -
  let ?j = "b mod 8"
  have k: "k < length xs" "length xs - Suc k = b div 8" using assms(2) by (auto simp: k_def)
  have j: "(2 :: nat) ^ ?j < 256" using power_strict_increasing [of ?j 8 "2 :: nat"] by simp
  have x: "unat (xs ! k) = 2 ^ ?j - 1" unfolding k_def using mask_byte [OF assms(1,2)] .
  have "unat (xs ! k OR of_nat (2 ^ ?j)) = (0 * 2 ^ ?j + (2 ^ ?j - 1)) OR (1 * 2 ^ ?j + 0)"
    using j by (simp add: unsigned_or_eq x unat_of_nat del: of_nat_power)
  also have "\<dots> = 2 ^ ?j + (2 ^ ?j - 1)"
    by (subst and_mult_add(2)) simp_all
  finally have y: "unat (xs ! k OR of_nat (2 ^ ?j)) = 2 ^ ?j + (2 ^ ?j - 1)" .
  define a V where "a = (2 :: nat) ^ ?j - 1" and "V = be_val (xs[k := xs ! k OR of_nat (2 ^ ?j)])"
  have "V + a * 256 ^ (b div 8) = 2 ^ b - 1 + (2 ^ ?j + a) * 256 ^ (b div 8)"
    using be_val_upd [OF k(1), of "xs ! k OR of_nat (2 ^ ?j)"]
    unfolding k(2) x y assms(1) a_def [symmetric] V_def [symmetric] .
  then have "V = 2 ^ b - 1 + 256 ^ (b div 8) * 2 ^ ?j"
    unfolding add_mult_distrib mult.commute [of "2 ^ ?j"] by linarith
  then have "V = 2 ^ b - 1 + 2 ^ b" unfolding pow8 .
  then show ?thesis unfolding V_def by simp
qed

text \<open>
  \<open>tiles n L nets x\<close>: the networks, the last one first, follow each other without gap or
  overlap from \<open>L\<close> up to but not including \<open>x\<close>, and each starts at a multiple of its size.
\<close>

definition net_size :: "iaddrcidrnet \<Rightarrow> nat" where
  "net_size net = 2 ^ nat (8 * int (len (lo_addr net)) - bits net)"

fun tiles :: "nat \<Rightarrow> nat \<Rightarrow> iaddrcidrnet list \<Rightarrow> nat \<Rightarrow> bool" where
  "tiles n L [] x \<longleftrightarrow> x = L"
| "tiles n L (net # nets) x \<longleftrightarrow> wf_iaddr (lo_addr net) \<and> len (lo_addr net) = n
     \<and> 0 \<le> bits net \<and> bits net \<le> 8 * int n \<and> net_size net dvd addr_val (lo_addr net)
     \<and> x = addr_val (lo_addr net) + net_size net \<and> tiles n L nets (addr_val (lo_addr net))"

definition r2c_inv :: "iaddr \<Rightarrow> nat \<Rightarrow> nat \<Rightarrow> r2c_state \<Rightarrow> bool" where
  "r2c_inv hi x b st \<longleftrightarrow> wf_iaddr (addr_s st) \<and> len (addr_s st) = len hi \<and> addr_val (addr_s st) = x
     \<and> wf_iaddr (mask_s st) \<and> len (mask_s st) = len hi \<and> addr_val (mask_s st) = 2 ^ b - 1
     \<and> length (iabuf (end_addr_s st)) = 16 \<and> length (iabuf (dummy_s st)) = 16
     \<and> bit_s st = b \<and> b \<le> 8 * len hi \<and> 2 ^ b dvd x \<and> x + 2 ^ b \<le> Suc (addr_val hi)"

lemma and_mask: "(x :: nat) AND (2 ^ k - 1) = x mod 2 ^ k"
  unfolding take_bit_eq_mod [symmetric] take_bit_eq_mask mask_eq_exp_minus_1 by simp

lemma or_mask: "2 ^ k dvd (x :: nat) \<Longrightarrow> x OR (2 ^ k - 1) = x + (2 ^ k - 1)"
proof (elim dvdE)
  fix q assume x: "x = 2 ^ k * q"
  have "(q * 2 ^ k + 0) OR (0 * 2 ^ k + (2 ^ k - 1)) = (q OR 0) * 2 ^ k + (0 OR (2 ^ k - 1))"
    by (rule and_mult_add(2)) simp_all
  then show ?thesis by (simp add: x mult.commute)
qed

text \<open>The test of the loop: whether the next larger network is too big.\<close>

lemma r2c_too_big:
  assumes inv: "r2c_inv hi x b st" and hi: "wf_iaddr hi" and b: "b < 8 * len hi"
  defines "ofs \<equiv> len hi - b div 8 - 1"
  defines "msk \<equiv> (mask_s st)\<lparr>iabuf := (iabuf (mask_s st))[ofs := iabuf (mask_s st) ! ofs OR of_nat (2 ^ (b mod 8))]\<rparr>"
  shows "wf_iaddr msk \<and> len msk = len hi \<and> addr_val msk = 2 ^ Suc b - 1 \<and>
    (\<exists>z e d. addr_or (end_addr_s st) (addr_s st) msk = Ret (z, e) \<and> length (iabuf e) = 16
      \<and> length (iabuf d) = 16 \<and> bindC (addr_cmp e hi) (\<lambda>c.
          if c > 0 then Ret (True, dummy_s st) else addr_and (dummy_s st) (addr_s st) msk)
        = Ret (\<not> (2 ^ Suc b dvd x \<and> x + 2 ^ Suc b \<le> Suc (addr_val hi)), d))"
proof -
  let ?m = "mask_s st" and ?a = "addr_s st" and ?M = "2 ^ Suc b - 1 :: nat"
  have i: "wf_iaddr ?a" "len ?a = len hi" "addr_val ?a = x" "wf_iaddr ?m" "len ?m = len hi"
      "addr_val ?m = 2 ^ b - 1" "length (iabuf (end_addr_s st)) = 16" "length (iabuf (dummy_s st)) = 16"
    using inv by (auto simp: r2c_inv_def)
  have "ofs < len hi" using b by (auto simp: ofs_def)
  then have "addr_bytes msk = (addr_bytes ?m)[ofs := addr_bytes ?m ! ofs OR of_nat (2 ^ (b mod 8))]"
    using i(5) by (simp add: msk_def addr_bytes_def take_update_swap)
  moreover have "ofs = length (addr_bytes ?m) - b div 8 - 1" using i(4,5) by (simp add: ofs_def)
  ultimately have val: "addr_val msk = ?M"
    using mask_grow [of "addr_bytes ?m" b] i(4-6) b by (simp add: addr_val_def)
  have m: "wf_iaddr msk" "len msk = len hi" using i(4,5) by (auto simp: msk_def wf_iaddr_def)
  obtain z e where e: "addr_or (end_addr_s st) ?a msk = Ret (z, e)" "wf_iaddr e" "len e = len hi"
      "addr_val e = x OR ?M"
    using addr_or_spec [of ?a msk "end_addr_s st"] i m val by auto
  obtain d where d: "addr_and (dummy_s st) ?a msk = Ret (x AND ?M \<noteq> 0, d)" "wf_iaddr d"
    using addr_and_spec [of ?a msk "dummy_s st"] i m val by auto
  have an: "x AND ?M = x mod 2 ^ Suc b" by (rule and_mask)
  have dv: "2 ^ Suc b dvd x \<longleftrightarrow> x AND ?M = 0" unfolding an by (rule dvd_eq_mod_eq_0)
  have orv: "2 ^ Suc b dvd x \<Longrightarrow> x OR ?M = x + ?M" by (rule or_mask)
  have test: "(x OR ?M > addr_val hi \<or> x AND ?M \<noteq> 0) \<longleftrightarrow>
      \<not> (2 ^ Suc b dvd x \<and> x + 2 ^ Suc b \<le> Suc (addr_val hi))"
  proof (cases "2 ^ Suc b dvd x")
    case True
    have "0 < (2 :: nat) ^ Suc b" by simp
    then show ?thesis unfolding orv [OF True] using True dv by linarith
  qed (use dv in simp)
  have "bindC (addr_cmp e hi) (\<lambda>c. if c > 0 then Ret (True, dummy_s st)
      else addr_and (dummy_s st) ?a msk)
    = Ret (\<not> (2 ^ Suc b dvd x \<and> x + 2 ^ Suc b \<le> Suc (addr_val hi)),
        if x OR ?M > addr_val hi then dummy_s st else d)"
    unfolding test [symmetric] addr_cmp_spec [OF e(2) hi e(3)] e(4) d(1) by simp
  moreover have "length (iabuf (if x OR ?M > addr_val hi then dummy_s st else d)) = 16"
    using d(2) i(8) by (simp add: wf_iaddr_def)
  moreover have "length (iabuf e) = 16" using e(2) by (simp add: wf_iaddr_def)
  ultimately show ?thesis using m val e(1) by blast
qed

text \<open>The next starting address is \<open>2 ^ b\<close> further, unless the address space ends there.\<close>

lemma r2c_advance:
  assumes a: "wf_iaddr a" "addr_val a = x" "2 ^ b dvd x" and b: "b < 8 * len a"
  defines "k \<equiv> len a - b div 8"
  shows "if x + 2 ^ b < 256 ^ len a
    then \<exists>buf. carry_loop k stray (iabuf a) (unat (iabuf a ! (k - 1)) + 2 ^ (b mod 8)) = Some buf
      \<and> wf_iaddr (a\<lparr>iabuf := buf\<rparr>) \<and> addr_val (a\<lparr>iabuf := buf\<rparr>) = x + 2 ^ b
    else carry_loop k stray (iabuf a) (unat (iabuf a ! (k - 1)) + 2 ^ (b mod 8)) = None"
proof -
  let ?n = "len a" and ?d = "b div 8" and ?r = "2 ^ (b mod 8) :: nat"
  let ?P = "be_val (take k (iabuf a))"
  have k: "1 \<le> k" "k \<le> length (iabuf a)" "k \<le> ?n" "?n - k = ?d"
    using a(1) b by (auto simp: k_def wf_iaddr_def)
  have split: "be_val (take ?n c) = be_val (take k c) * 256 ^ ?d + be_val (take ?d (drop k c))"
    if "length c = 16" for c
  proof -
    have "take ?n c = take k c @ take ?d (drop k c)"
      using k(3,4) take_add [of k ?d c] by (metis le_add_diff_inverse)
    moreover have "length (take ?d (drop k c)) = ?d"
      using k that a(1) by (simp add: wf_iaddr_def) linarith
    ultimately show ?thesis by (simp add: be_val_append)
  qed
  have split_len: "length (take ?d (drop k (iabuf a))) = ?d"
    using k a(1) by (simp add: wf_iaddr_def) linarith
  define R where "R = be_val (take ?d (drop k (iabuf a)))"
  have x: "x = ?P * 256 ^ ?d + R"
    using split [of "iabuf a"] a(1,2) by (simp add: addr_val_def addr_bytes_def wf_iaddr_def R_def)
  have "R < 256 ^ ?d"
    using be_val_lt [of "take ?d (drop k (iabuf a))"] k a(1) split_len by (simp add: R_def wf_iaddr_def)
  moreover have "256 ^ ?d dvd x" using a(3) pow8 [of b] by (metis dvd_trans dvd_triv_left)
  ultimately have "R = 0"
    unfolding x by (metis dvd_add_right_iff dvd_triv_right nat_dvd_not_less gr0I)
  then have x': "x + 2 ^ b = (?P + ?r) * 256 ^ ?d"
    using x pow8 [of b] by (simp add: algebra_simps)
  have "256 ^ ?n = 256 ^ k * (256 :: nat) ^ ?d" using k(3,4) by (metis le_add_diff_inverse power_add)
  then have fits: "x + 2 ^ b < 256 ^ ?n \<longleftrightarrow> ?P + ?r < 256 ^ k" unfolding x' by simp
  have "?r \<le> 256" using power_increasing [of "b mod 8" 8 "2 :: nat"] by simp
  note c = carry_loop_spec [OF k(1,2) this, of stray]
  show ?thesis
  proof (cases "?P + ?r < 256 ^ k")
    case True
    with c obtain buf where buf: "carry_loop k stray (iabuf a) (unat (iabuf a ! (k - 1)) + ?r) = Some buf"
        "length buf = length (iabuf a)" "be_val (take k buf) = ?P + ?r" "drop k buf = drop k (iabuf a)"
      by auto
    have "addr_val (a\<lparr>iabuf := buf\<rparr>) = x + 2 ^ b"
      using split [of buf] buf(2-4) a(1) \<open>R = 0\<close> x'
      by (simp add: addr_val_def addr_bytes_def wf_iaddr_def R_def)
    then show ?thesis using True fits buf(1,2) a(1) by (auto simp: wf_iaddr_def)
  next
    case False
    with c fits show ?thesis by simp
  qed
qed

lemma r2c_step:
  assumes inv: "r2c_inv hi x b st" and hi: "wf_iaddr hi" and nets: "tiles (len hi) L (nets_s st) x"
  shows "\<exists>r. range2cidr_step alloc_ok stray hi st = Ret r \<and> (case r of
      Inl (code, nets) \<Rightarrow> (code = ISC_R_SUCCESS \<and> tiles (len hi) L nets (Suc (addr_val hi)))
        \<or> (code = ISC_R_NOMEMORY \<and> nets = [] \<and> (\<exists>k. \<not> alloc_ok k))
    | Inr st' \<Rightarrow> (nets_s st' = nets_s st \<and> r2c_inv hi x (Suc b) st')
        \<or> (tiles (len hi) L (nets_s st') (x + 2 ^ b) \<and> addr_val (addr_s st') = x + 2 ^ b
           \<and> wf_iaddr (addr_s st') \<and> len (addr_s st') = len hi
           \<and> (x + 2 ^ b \<le> addr_val hi \<longrightarrow> r2c_inv hi (x + 2 ^ b) 0 st')))"
proof -
  let ?a = "addr_s st" and ?n = "len hi"
  let ?net = "\<lparr>lo_addr = ?a, bits = int (len ?a) * 8 - int b\<rparr>"
  have i: "wf_iaddr ?a" "len ?a = ?n" "addr_val ?a = x" "bit_s st = b" "b \<le> 8 * ?n" "2 ^ b dvd x"
      "x + 2 ^ b \<le> Suc (addr_val hi)" "wf_iaddr (mask_s st)" "len (mask_s st) = ?n"
    using inv by (auto simp: r2c_inv_def)
  have size: "net_size ?net = 2 ^ b" using i(2) by (simp add: net_size_def)
  have tl: "tiles ?n L (?net # nets_s st) (x + 2 ^ b)"
    using nets i size by simp
  show ?thesis
  proof (cases "b = 8 * ?n")
    case True
    obtain z e where e: "addr_or (end_addr_s st) ?a (mask_s st) = Ret (z, e)"
      using addr_or_spec [of ?a "mask_s st" "end_addr_s st"] inv by (auto simp: r2c_inv_def)
    have "addr_val hi < 2 ^ b" using addr_val_lt [OF hi] True by (simp add: pow256)
    then have "x + 2 ^ b = Suc (addr_val hi)" using i(7) by simp
    with True tl show ?thesis
      by (auto simp: range2cidr_step_def Let_def i e)
  next
    case False
    then have b: "b < 8 * ?n" using i(5) by simp
    define ofs where "ofs = ?n - b div 8 - 1"
    define msk where "msk = (mask_s st)\<lparr>iabuf := (iabuf (mask_s st))[ofs := iabuf (mask_s st) ! ofs
      OR of_nat (2 ^ (b mod 8))]\<rparr>"
    have io: "int ?n - int (b div 8) - 1 = int ofs" "ofs < 16" "nat (int ofs + 1) = ?n - b div 8"
      using b hi by (auto simp: ofs_def wf_iaddr_def)
    obtain z e d where m: "wf_iaddr msk" "len msk = ?n" "addr_val msk = 2 ^ Suc b - 1"
      and r: "addr_or (end_addr_s st) ?a msk = Ret (z, e)" "length (iabuf e) = 16" "length (iabuf d) = 16"
        "bindC (addr_cmp e hi) (\<lambda>c. if c > 0 then Ret (True, dummy_s st) else addr_and (dummy_s st) ?a msk)
          = Ret (\<not> (2 ^ Suc b dvd x \<and> x + 2 ^ Suc b \<le> Suc (addr_val hi)), d)"
      using r2c_too_big [OF inv hi b] unfolding ofs_def msk_def by blast
    define big where "big \<longleftrightarrow> \<not> (2 ^ Suc b dvd x \<and> x + 2 ^ Suc b \<le> Suc (addr_val hi))"
    have mem: "length (iabuf ?a) = 16" "length (iabuf (mask_s st)) = 16"
      using i(1,8) by (auto simp: wf_iaddr_def)
    have step: "range2cidr_step alloc_ok stray hi st =
      (if big then
         if \<not> alloc_ok (length (nets_s st)) then Ret (Inl (ISC_R_NOMEMORY, []))
         else (case carry_loop (?n - b div 8) stray (iabuf ?a) (unat (iabuf ?a ! ofs) + 2 ^ (b mod 8)) of
            None \<Rightarrow> Ret (Inl (ISC_R_SUCCESS, ?net # nets_s st))
          | Some buf \<Rightarrow>
              Ret (Inr \<lparr>addr_s = ?a\<lparr>iabuf := buf\<rparr>, mask_s = msk\<lparr>iabuf := replicate 16 0\<rparr>,
                end_addr_s = e\<lparr>iabuf := replicate 16 0\<rparr>, dummy_s = d, bit_s = 0,
                nets_s = ?net # nets_s st\<rparr>))
       else Ret (Inr (st\<lparr>mask_s := msk, end_addr_s := e, dummy_s := d, bit_s := b + 1\<rparr>)))"
      using io mem r [folded big_def]
      by (simp add: range2cidr_step_def Let_def i(2,4) msk_def [symmetric] del: of_nat_power split: option.split)
    show ?thesis
    proof (cases big)
      case False
      then have "r2c_inv hi x (Suc b) (st\<lparr>mask_s := msk, end_addr_s := e, dummy_s := d, bit_s := b + 1\<rparr>)"
        using i m r b by (simp add: r2c_inv_def big_def)
      with False show ?thesis by (simp add: step)
    next
      case True
      have adv: "if x + 2 ^ b < 256 ^ ?n
        then \<exists>buf. carry_loop (?n - b div 8) stray (iabuf ?a) (unat (iabuf ?a ! ofs) + 2 ^ (b mod 8)) = Some buf
          \<and> wf_iaddr (?a\<lparr>iabuf := buf\<rparr>) \<and> addr_val (?a\<lparr>iabuf := buf\<rparr>) = x + 2 ^ b
        else carry_loop (?n - b div 8) stray (iabuf ?a) (unat (iabuf ?a ! ofs) + 2 ^ (b mod 8)) = None"
        using r2c_advance [OF i(1,3,6), of stray, unfolded i(2), OF b] unfolding ofs_def .
      show ?thesis
      proof (cases "x + 2 ^ b < 256 ^ ?n")
        case fits: True
        with adv obtain buf where buf: "carry_loop (?n - b div 8) stray (iabuf ?a)
              (unat (iabuf ?a ! ofs) + 2 ^ (b mod 8)) = Some buf"
            "wf_iaddr (?a\<lparr>iabuf := buf\<rparr>)" "addr_val (?a\<lparr>iabuf := buf\<rparr>) = x + 2 ^ b" by auto
        have zero: "addr_val (msk\<lparr>iabuf := replicate 16 0\<rparr>) = 0" "wf_iaddr (msk\<lparr>iabuf := replicate 16 0\<rparr>)"
          using m(1) by (auto simp: addr_val_def addr_bytes_def be_val_eq_0 wf_iaddr_def)
        show ?thesis
          using True buf tl i(2) zero m(2) r(3)
          by (cases "alloc_ok (length (nets_s st))") (auto simp: step r2c_inv_def)
      next
        case False
        then have "x + 2 ^ b = Suc (addr_val hi)" using i(7) addr_val_lt [OF hi] by simp
        then show ?thesis using True False adv tl
          by (cases "alloc_ok (length (nets_s st))") (auto simp: step)
      qed
    qed
  qed
qed

lemma r2c_loop:
  assumes "r2c_inv hi x b st" "wf_iaddr hi" "tiles (len hi) L (nets_s st) x"
  shows "\<exists>code nets. range2cidr_loop alloc_ok stray hi st = Some (Ret (code, nets)) \<and>
    ((code = ISC_R_SUCCESS \<and> tiles (len hi) L nets (Suc (addr_val hi)))
      \<or> (code = ISC_R_NOMEMORY \<and> nets = [] \<and> (\<exists>k. \<not> alloc_ok k)))"
  using assms
proof (induction "(addr_val hi - x) * (8 * len hi + 1) + (8 * len hi - b)" arbitrary: x b st rule: less_induct)
  case less
  let ?H = "addr_val hi" and ?n = "len hi"
  have i: "wf_iaddr (addr_s st)" "len (addr_s st) = ?n" "addr_val (addr_s st) = x" "b \<le> 8 * ?n"
      "x + 2 ^ b \<le> Suc ?H" using less.prems(1) by (auto simp: r2c_inv_def)
  have "x \<le> ?H" using i(5) by (metis add_leD1 add_le_cancel_left le_trans not_less_eq_eq one_le_power
        one_le_numeral plus_1_eq_Suc add.commute)
  then have cmp: "\<exists>c \<le> 0. addr_cmp (addr_s st) hi = Ret c"
    using addr_cmp_spec [OF i(1) less.prems(2) i(2)] i(3) by simp
  obtain r where r: "range2cidr_step alloc_ok stray hi st = Ret r"
    and post: "case r of
      Inl (code, nets) \<Rightarrow> (code = ISC_R_SUCCESS \<and> tiles ?n L nets (Suc ?H))
        \<or> (code = ISC_R_NOMEMORY \<and> nets = [] \<and> (\<exists>k. \<not> alloc_ok k))
    | Inr st' \<Rightarrow> (nets_s st' = nets_s st \<and> r2c_inv hi x (Suc b) st')
        \<or> (tiles ?n L (nets_s st') (x + 2 ^ b) \<and> addr_val (addr_s st') = x + 2 ^ b
           \<and> wf_iaddr (addr_s st') \<and> len (addr_s st') = ?n
           \<and> (x + 2 ^ b \<le> ?H \<longrightarrow> r2c_inv hi (x + 2 ^ b) 0 st'))"
    using r2c_step [OF less.prems] by blast
  have run: "range2cidr_loop alloc_ok stray hi st = (case r of Inl res \<Rightarrow> Some (Ret res)
      | Inr st' \<Rightarrow> range2cidr_loop alloc_ok stray hi st')"
    using cmp r by (auto simp: range2cidr_loop.simps [of alloc_ok stray hi st])
  show ?case
  proof (cases r)
    case (Inl res)
    with post run show ?thesis by (cases res) auto
  next
    case (Inr st')
    then consider (grow) "nets_s st' = nets_s st" "r2c_inv hi x (Suc b) st'"
      | (emit) "tiles ?n L (nets_s st') (x + 2 ^ b)" "x + 2 ^ b \<le> ?H" "r2c_inv hi (x + 2 ^ b) 0 st'"
      | (last) "tiles ?n L (nets_s st') (x + 2 ^ b)" "x + 2 ^ b > ?H" "addr_val (addr_s st') = x + 2 ^ b"
          "wf_iaddr (addr_s st')" "len (addr_s st') = ?n"
      using post by force
    then show ?thesis
    proof cases
      case grow
      then have "Suc b \<le> 8 * ?n" by (simp add: r2c_inv_def)
      with grow less.hyps [of x "Suc b" st'] less.prems run Inr show ?thesis by simp
    next
      case emit
      have "0 < (2 :: nat) ^ b" by simp
      then have "Suc (?H - (x + 2 ^ b)) \<le> ?H - x" using emit(2) by linarith
      then have "Suc (?H - (x + 2 ^ b)) * (8 * ?n + 1) \<le> (?H - x) * (8 * ?n + 1)"
        by (rule mult_right_mono) simp
      with emit less.hyps [of "x + 2 ^ b" 0 st'] less.prems(2) run Inr show ?thesis by simp
    next
      case last
      then have "range2cidr_loop alloc_ok stray hi st' = Some (Ret (ISC_R_SUCCESS, nets_s st'))"
        using addr_cmp_spec [OF last(4) less.prems(2) last(5)]
        by (simp add: range2cidr_loop.simps [of alloc_ok stray hi st'])
      moreover have "x + 2 ^ b = Suc ?H" using last(2) i(5) by simp
      ultimately show ?thesis using run Inr last(1) by auto
    qed
  qed
qed

section \<open>Masks\<close>

text \<open>\<open>prefix_mask h m\<close>: the mask \<open>m\<close> leaves the last \<open>h\<close> bits for the host.\<close>

definition prefix_mask :: "nat \<Rightarrow> iaddr \<Rightarrow> bool" where
  "prefix_mask h m \<longleftrightarrow> wf_iaddr m \<and> h \<le> 8 * len m \<and> addr_val m = 256 ^ len m - 2 ^ h"

lemma be_val_not: "be_val (map (\<lambda>x. NOT x) xs) = 256 ^ length xs - 1 - be_val xs"
proof (induction xs)
  case (Cons x xs)
  have max: "(255 :: byte) = - 1" by simp
  have "NOT x = 255 - x" unfolding max by (simp add: not_eq_complement)
  moreover have "x \<le> 255" unfolding max by (rule word_order.extremum)
  ultimately have "unat (NOT x) = 255 - unat x" by (simp add: unat_sub)
  moreover have "unat x \<le> 255" using unat_byte_lt [of x] by linarith
  ultimately show ?case using Cons be_val_lt [of xs] by (simp add: algebra_simps diff_mult_distrib)
qed simp

lemma and_prefix:
  fixes x :: nat
  assumes "x < 256 ^ n" "h \<le> 8 * n"
  shows "x AND (256 ^ n - 2 ^ h) = x - x mod 2 ^ h" "x AND (2 ^ h - 1) = x mod 2 ^ h"
proof -
  let ?q = "x div 2 ^ h" and ?k = "8 * n - h"
  have n: "(256 :: nat) ^ n = 2 ^ ?k * 2 ^ h" using assms(2) by (simp add: pow256 power_add [symmetric])
  have M: "256 ^ n - 2 ^ h = (2 ^ ?k - 1) * 2 ^ h + (0 :: nat)" unfolding n by (simp add: diff_mult_distrib)
  have "?q < 2 ^ ?k" using assms(1) unfolding n by (simp add: less_mult_imp_div_less)
  then have "?q AND (2 ^ ?k - 1) = ?q" by (simp only: and_mask mod_less)
  then have "(?q * 2 ^ h + x mod 2 ^ h) AND ((2 ^ ?k - 1) * 2 ^ h + 0) = ?q * 2 ^ h"
    by (subst and_mult_add(1)) simp_all
  then show "x AND (256 ^ n - 2 ^ h) = x - x mod 2 ^ h"
    unfolding M div_mult_mod_eq minus_mod_eq_div_mult .
  show "x AND (2 ^ h - 1) = x mod 2 ^ h" by (rule and_mask)
qed

lemma map2_not: "map2 (\<lambda>x m. f x (NOT m)) xs ys = map2 f xs (map (\<lambda>m. NOT m) ys)"
  by (induction xs ys rule: list_induct2') auto

lemma not_prefix:
  assumes "prefix_mask h m"
  shows "be_val (map (\<lambda>x. NOT x) (addr_bytes m)) = 2 ^ h - 1"
proof -
  have m: "wf_iaddr m" "h \<le> 8 * len m" "be_val (addr_bytes m) = 256 ^ len m - 2 ^ h"
    using assms by (auto simp: prefix_mask_def addr_val_def)
  have "(2 :: nat) ^ h \<le> 256 ^ len m" using m(2) by (simp add: pow256)
  then show ?thesis using m by (simp add: be_val_not)
qed

text \<open>The value a loop over an address and a mask computes.\<close>

lemma subnet_number_spec:
  assumes a: "wf_iaddr a" and m: "prefix_mask h m" "len m = len a" and r: "length (iabuf rv) = 16"
  shows "\<exists>s. subnet_number rv a m = Ret s \<and> wf_iaddr s \<and> len s = len a
    \<and> addr_val s = addr_val a - addr_val a mod 2 ^ h"
proof -
  have wm: "wf_iaddr m" "h \<le> 8 * len a" using m by (auto simp: prefix_mask_def)
  obtain r' where r': "fill_loop (bytes2 (AND) a m) (iabuf rv) 0 (len a) = Ret r'" "length r' = 16"
      "take (len a) r' = map2 (AND) (addr_bytes a) (addr_bytes m)"
    using fill_bytes2 [OF a wm(1) m(2) [symmetric] r] by blast
  let ?s = "\<lparr>len = len a, iabuf = r'\<rparr>"
  have "addr_val ?s = addr_val a AND addr_val m"
    using r'(3) be_val_map2(1) [of "addr_bytes a" "addr_bytes m"] a wm(1) m(2)
    by (simp add: addr_val_def addr_bytes_def [of ?s])
  also have "\<dots> = addr_val a - addr_val a mod 2 ^ h"
    using and_prefix(1) [OF addr_val_lt [OF a] wm(2)] m by (simp add: prefix_mask_def)
  finally have "addr_val ?s = addr_val a - addr_val a mod 2 ^ h" .
  moreover have "subnet_number rv a m = Ret ?s"
    using a m(2) r'(1) by (simp add: subnet_number_def wf_iaddr_def)
  ultimately show ?thesis using r'(2) a by (auto simp: wf_iaddr_def)
qed

lemma broadcast_addr_spec:
  assumes a: "wf_iaddr a" and m: "prefix_mask h m" "len m = len a" and r: "length (iabuf rv) = 16"
    and net: "2 ^ h dvd addr_val a"
  shows "\<exists>s. broadcast_addr rv a m = Ret s \<and> wf_iaddr s \<and> len s = len a
    \<and> addr_val s = addr_val a + (2 ^ h - 1)"
proof -
  have wm: "wf_iaddr m" using m by (auto simp: prefix_mask_def)
  have "(255 :: byte) = - 1" by simp
  then have b255: "x AND 255 = x" for x :: byte by (metis and.right_neutral)
  let ?f = "\<lambda>x m :: byte. x OR (NOT m AND 255)"
  obtain r' where r': "fill_loop (bytes2 ?f a m) (iabuf rv) 0 (len a) = Ret r'" "length r' = 16"
      "take (len a) r' = map2 ?f (addr_bytes a) (addr_bytes m)"
    using fill_bytes2 [OF a wm m(2) [symmetric] r] by blast
  let ?s = "\<lparr>len = len a, iabuf = r'\<rparr>"
  have "addr_val ?s = addr_val a OR (2 ^ h - 1)"
    using r'(3) be_val_map2(2) [of "addr_bytes a" "map (\<lambda>x. NOT x) (addr_bytes m)"] a wm m(2)
      map2_not [of "(OR)" "addr_bytes a" "addr_bytes m"] not_prefix [OF m(1)]
    by (simp add: addr_val_def addr_bytes_def [of ?s] b255)
  then have "addr_val ?s = addr_val a + (2 ^ h - 1)" using or_mask [OF net] by simp
  moreover have "broadcast_addr rv a m = Ret ?s"
    using a m(2) r'(1) by (simp add: broadcast_addr_def wf_iaddr_def)
  ultimately show ?thesis using r'(2) a by (auto simp: wf_iaddr_def)
qed

lemma word32_wrap: "(2 :: u32) ^ 32 = 0"
  using word_exp_length_eq_0 [where ?'a = 32] by simp

lemma host_addr_spec:
  assumes a: "wf_iaddr a" "4 \<le> len a" and m: "prefix_mask h m" "len m = len a" and r: "length (iabuf rv) = 16"
  shows "host_addr rv a m = Ret (of_nat (addr_val a mod 2 ^ h))"
proof -
  have wm: "wf_iaddr m" using m by (auto simp: prefix_mask_def)
  let ?f = "\<lambda>x m :: byte. x AND NOT m"
  obtain r' where r': "fill_loop (bytes2 ?f a m) (iabuf rv) 0 (len a) = Ret r'" "length r' = 16"
      "take (len a) r' = map2 ?f (addr_bytes a) (addr_bytes m)"
    using fill_bytes2 [OF a(1) wm m(2) [symmetric] r] by blast
  have "be_val (take (len a) r') = addr_val a AND (2 ^ h - 1)"
    using r'(3) be_val_map2(1) [of "addr_bytes a" "map (\<lambda>x. NOT x) (addr_bytes m)"] a wm m(2)
      map2_not [of "(AND)" "addr_bytes a" "addr_bytes m"] not_prefix [OF m(1)]
    by (simp add: addr_val_def)
  then have v: "be_val (take (len a) r') = addr_val a mod 2 ^ h" by (simp only: and_mask)
  have "take (len a) r' = take (len a - 4) r' @ take 4 (drop (len a - 4) r')"
    using a(2) take_add [of "len a - 4" 4 r'] by simp
  moreover have "length (take 4 (drop (len a - 4) r')) = 4"
    using a r'(2) by (simp add: wf_iaddr_def) linarith
  ultimately have "be_val (take (len a) r') = be_val (take (len a - 4) r') * 2 ^ 32 + be_val (take 4 (drop (len a - 4) r'))"
    by (simp add: be_val_append)
  then have "(of_nat (be_val (take 4 (drop (len a - 4) r'))) :: u32) = of_nat (be_val (take (len a) r'))"
    by (simp only: of_nat_add of_nat_mult of_nat_power of_nat_numeral word32_wrap) simp
  then show ?thesis
    using a m(2) r'(1,2) v by (simp add: host_addr_def wf_iaddr_def rdn_def)
qed

text \<open>The bytes of a prefix mask up to the first one that is not zero.\<close>

lemma prefix_mask_byte:
  assumes m: "prefix_mask h m" and e: "e \<le> h div 8" "e < len m"
  shows "unat (iabuf m ! (len m - Suc e)) = (if e = h div 8 then 256 - 2 ^ (h mod 8) else 0)"
proof -
  let ?n = "len m" and ?d = "h div 8" and ?r = "2 ^ (h mod 8) :: nat"
  have wm: "wf_iaddr m" "addr_val m = 256 ^ ?n - 2 ^ h" "h \<le> 8 * ?n" using m by (auto simp: prefix_mask_def)
  have "iabuf m ! (?n - Suc e) = addr_bytes m ! (?n - Suc e)" using e by (simp add: addr_bytes_def)
  then have byte: "unat (iabuf m ! (?n - Suc e)) = (256 ^ ?n - 2 ^ h) div 256 ^ e mod 256"
    using be_val_nth [of "?n - Suc e" "addr_bytes m"] wm(1,2) e by (simp add: addr_val_def)
  have d: "?d \<le> ?n" using wm(3) by linarith
  have M: "256 ^ ?n - 2 ^ h = (256 ^ (?n - ?d) - ?r) * 256 ^ ?d"
  proof -
    have "(256 :: nat) ^ ?n = 256 ^ (?n - ?d) * 256 ^ ?d" using d by (simp add: power_add [symmetric])
    moreover have "2 ^ h = ?r * 256 ^ ?d" using pow8 [of h] by (simp add: mult.commute)
    ultimately show ?thesis by (simp add: diff_mult_distrib)
  qed
  show ?thesis
  proof (cases "e = ?d")
    case True
    then obtain j where j: "?n - ?d = Suc j" using e by (metis Suc_diff_Suc)
    have r: "?r < 256" "0 < ?r" using power_strict_increasing [of "h mod 8" 8 "2 :: nat"] by simp_all
    obtain c where c: "(256 :: nat) ^ j = Suc c" by (metis gr0_implies_Suc zero_less_numeral zero_less_power)
    define y where "y = 256 - ?r"
    have "256 ^ Suc j - ?r = c * 256 + y" "y < 256" using r c by (auto simp: y_def)
    then have "(256 ^ Suc j - ?r) mod 256 = y" by (simp only: mod_mult_self3 mod_less)
    then have "(256 ^ Suc j - ?r) mod 256 = 256 - ?r" unfolding y_def .
    with True byte j show ?thesis unfolding M by simp
  next
    case False
    then have "Suc e \<le> ?d" using e(1) by (simp only: Suc_le_eq le_neq_implies_less not_False_eq_True)
    then obtain j where "?d = Suc e + j" using le_Suc_ex by blast
    then have j: "?d = e + Suc j" by (simp only: add_Suc add_Suc_right)
    define c where "c = (256 ^ (?n - ?d) - ?r) * 256 ^ j * 256"
    have "256 ^ ?n - 2 ^ h = c * 256 ^ e" unfolding M c_def by (simp add: j power_add)
    then have "(256 ^ ?n - 2 ^ h) div 256 ^ e = c" by simp
    moreover have "c mod 256 = 0" by (simp add: c_def)
    ultimately have "(256 ^ ?n - 2 ^ h) div 256 ^ e mod 256 = (0 :: nat)" by simp
    with False byte show ?thesis by simp
  qed
qed

lemma byte_xor_255: "unat (x XOR 255 :: byte) = 255 - unat x"
proof -
  have max: "(255 :: byte) = - 1" by simp
  have "x XOR 255 = 255 - x" unfolding max by (simp add: not_eq_complement)
  moreover have "x \<le> 255" unfolding max by (rule word_order.extremum)
  ultimately show ?thesis by (simp add: unat_sub)
qed

lemma byte_or_low:
  assumes "2 ^ r dvd unat b" "unat x < 2 ^ r"
  shows "unat (b OR x :: byte) = unat b + unat x"
proof -
  obtain c where c: "unat b = c * 2 ^ r" using assms(1) by (auto simp: mult.commute elim: dvdE)
  have "unat (b OR x) = (c * 2 ^ r + 0) OR (0 * 2 ^ r + unat x)" by (simp add: unsigned_or_eq c)
  also have "\<dots> = c * 2 ^ r + unat x" using assms(2) by (subst and_mult_add(2)) auto
  finally show ?thesis by (simp add: c)
qed

lemma high_bytes_zero:
  assumes "host < 2 ^ 32" "i < 4"
  shows "(\<exists>k < i. be_bytes 4 host ! k \<noteq> 0) \<longleftrightarrow> host div 256 ^ (4 - i) \<noteq> 0"
proof -
  have byte: "(be_bytes 4 host ! k \<noteq> 0) = (host div 256 ^ (3 - k) mod 256 \<noteq> 0)" if "k < 4" for k
  proof -
    have "unat (be_bytes 4 host ! k) = host div 256 ^ (3 - k) mod 256"
      using be_bytes_nth [OF that, of host] that by (simp add: unat_of_nat_byte)
    then show ?thesis using unat_eq_zero [of "be_bytes 4 host ! k"] by argo
  qed
  have b0: "(be_bytes 4 host ! 0 \<noteq> 0) = (host div 16777216 mod 256 \<noteq> 0)"
    and b1: "(be_bytes 4 host ! 1 \<noteq> 0) = (host div 65536 mod 256 \<noteq> 0)"
    and b2: "(be_bytes 4 host ! 2 \<noteq> 0) = (host div 256 mod 256 \<noteq> 0)"
    using byte [of 0] byte [of 1] byte [of 2] by simp_all
  have low: "x \<noteq> 0 \<longleftrightarrow> x div 256 \<noteq> 0 \<or> x mod 256 \<noteq> 0" for x :: nat
    using div_mult_mod_eq [of x 256] by (cases "x = 0") auto
  have q2: "host div 65536 \<noteq> 0 \<longleftrightarrow> host div 16777216 \<noteq> 0 \<or> host div 65536 mod 256 \<noteq> 0"
    and q1: "host div 256 \<noteq> 0 \<longleftrightarrow> host div 65536 \<noteq> 0 \<or> host div 256 mod 256 \<noteq> 0"
    using low [of "host div 65536"] low [of "host div 256"] by (simp_all only: div_mult2_eq [symmetric]) simp_all
  have q3: "host div 16777216 mod 256 = host div 16777216" using assms(1) by simp
  consider "i = 0" | "i = 1" | "i = 2" | "i = 3" using assms(2) by linarith
  then show ?thesis
  proof cases
    case 1
    then show ?thesis using assms(1) by simp
  next
    case 2
    have "(\<exists>k < i. be_bytes 4 host ! k \<noteq> 0) \<longleftrightarrow> be_bytes 4 host ! 0 \<noteq> 0" using 2 by auto
    then show ?thesis unfolding b0 using 2 assms(1) by simp
  next
    case 3
    have "(\<exists>k < i. be_bytes 4 host ! k \<noteq> 0) \<longleftrightarrow> be_bytes 4 host ! 0 \<noteq> 0 \<or> be_bytes 4 host ! 1 \<noteq> 0"
      using 3 by (auto simp: less_2_cases_iff)
    then show ?thesis unfolding b0 b1 q3 using 3 q2 by simp
  next
    case 4
    have "(\<exists>k < i. be_bytes 4 host ! k \<noteq> 0)
      \<longleftrightarrow> be_bytes 4 host ! 0 \<noteq> 0 \<or> be_bytes 4 host ! 1 \<noteq> 0 \<or> be_bytes 4 host ! 2 \<noteq> 0"
      using 4 by (auto simp: numeral_3_eq_3 numeral_2_eq_2 less_Suc_eq)
    then show ?thesis unfolding b0 b1 b2 q3
      using 4 q1 q2 by simp
  qed
qed

lemma ip_addr_loop_step:
  assumes "0 \<le> int i + j" "nat (int i + j) = p" "p < 16" "length (iabuf m) = 16" "length buf = 16" "i < length ha"
  shows "ip_addr_loop buf m ha j (Suc i) =
     (if iabuf m ! p \<noteq> 0 then
        if ha ! i > iabuf m ! p XOR 255 then Ret (Inl buf)
        else if \<exists>k < i. ha ! k \<noteq> 0 then Ret (Inl buf)
        else Ret (Inr (buf[p := buf ! p OR ha ! i]))
      else ip_addr_loop (buf[p := ha ! i]) m ha j i)"
proof -
  have rds: "rd (iabuf m) p = Ret (iabuf m ! p)" "rd ha i = Ret (ha ! i)" "rd buf p = Ret (buf ! p)"
    using assms by simp_all
  show ?thesis
    unfolding ip_addr_loop.simps assms(2) rds using assms(1) by (simp only: guardC_True bindC.simps)
qed

text \<open>\<open>d\<close> is the number of whole host bytes; the loop has copied \<open>4 - k\<close> of them.\<close>

lemma ip_addr_loop_spec:
  assumes m: "prefix_mask h m" "4 \<le> len m" and buf: "length buf = 16" and k: "k \<le> 4" "4 - k \<le> h div 8"
    and S: "2 ^ h dvd S" "be_val (take (len m) buf) = S + host mod 256 ^ (4 - k)" and host: "host < 2 ^ 32"
  shows "if host < 2 ^ h
    then \<exists>b. ip_addr_loop buf m (be_bytes 4 host) (int (len m) - 4) k = Ret (Inr b) \<and> length b = 16
      \<and> be_val (take (len m) b) = S + host
    else \<exists>b. ip_addr_loop buf m (be_bytes 4 host) (int (len m) - 4) k = Ret (Inl b)"
  using buf k S(2)
proof (induction k arbitrary: buf)
  case 0
  have "host < 2 ^ h" using host power_increasing [of 32 h "2 :: nat"] 0(3) by linarith
  with 0 host show ?case by simp
next
  case (Suc i)
  let ?n = "len m" and ?d = "h div 8" and ?e = "3 - i" and ?p = "len m - Suc (3 - i)"
  have i: "i < 4" "?e \<le> ?d" "?e < ?n" "4 - Suc i = ?e" "nat (int i + (int ?n - 4)) = ?p" "0 \<le> int i + (int ?n - 4)"
    using Suc.prems m(2) by auto
  have wm: "wf_iaddr m" using m(1) by (simp add: prefix_mask_def)
  have p: "?p < 16" "?p < ?n" "length (take ?n buf) = ?n" "?n - Suc ?p = ?e"
    using wm i(3) Suc.prems(1) by (auto simp: wf_iaddr_def)
  have hb: "be_bytes 4 host ! i = of_nat (host div 256 ^ ?e mod 256)"
    using be_bytes_nth [OF i(1), of host] i(4) by simp
  let ?x = "host div 256 ^ ?e mod 256" and ?b = "buf ! ?p"
  have x: "unat (of_nat ?x :: byte) = ?x" by (simp add: unat_of_nat_byte)
  have old: "unat ?b = S div 256 ^ ?e mod 256"
  proof -
    have "unat ?b = (S + host mod 256 ^ ?e) div 256 ^ ?e mod 256"
      using be_val_nth [of ?p "take ?n buf"] p(2)
      unfolding p(3,4) Suc.prems(4) i(4) nth_take [OF p(2)] by (simp only: not_False_eq_True)
    moreover have "256 ^ ?e dvd S"
      using dvd_trans [OF le_imp_power_dvd S(1), of "8 * ?e"] i(2) by (simp add: pow256)
    then obtain c where "S = 256 ^ ?e * c" by (elim dvdE)
    ultimately show ?thesis by simp
  qed
  have upd: "be_val (take ?n (buf[?p := y])) + unat ?b * 256 ^ ?e
      = S + host mod 256 ^ ?e + unat y * 256 ^ ?e" for y
    using be_val_upd [of ?p "take ?n buf" y] p(2)
    unfolding p(3,4) Suc.prems(4) i(4) take_update_swap nth_take [OF p(2)] by (simp only: not_False_eq_True)
  have lens: "length (iabuf m) = 16" "i < length (be_bytes 4 host)" using wm i(1) by (simp_all add: wf_iaddr_def)
  have loop: "ip_addr_loop buf m (be_bytes 4 host) (int ?n - 4) (Suc i) =
     (if iabuf m ! ?p \<noteq> 0 then
        if of_nat ?x > iabuf m ! ?p XOR 255 then Ret (Inl buf)
        else if \<exists>k < i. be_bytes 4 host ! k \<noteq> 0 then Ret (Inl buf)
        else Ret (Inr (buf[?p := ?b OR of_nat ?x]))
      else ip_addr_loop (buf[?p := of_nat ?x]) m (be_bytes 4 host) (int ?n - 4) i)"
    using ip_addr_loop_step [OF i(6,5) p(1) lens(1) Suc.prems(1) lens(2)] unfolding hb .
  have mb: "unat (iabuf m ! ?p) = (if ?e = ?d then 256 - 2 ^ (h mod 8) else 0)"
    using prefix_mask_byte [OF m(1) i(2,3)] .
  show ?case
  proof (cases "?e = ?d")
    case False
    then have lt: "Suc ?e \<le> ?d" "4 - i = Suc ?e" using i(1,2) by auto
    have "256 ^ Suc ?e dvd S"
      using dvd_trans [OF le_imp_power_dvd S(1), of "8 * Suc ?e"] lt(1) by (simp add: pow256 del: power_Suc)
    then obtain c where "S = 256 ^ ?e * (256 * c)" by (auto elim: dvdE)
    then have z: "unat ?b = 0" unfolding old by simp
    have "host mod 256 ^ Suc ?e = 256 ^ ?e * ?x + host mod 256 ^ ?e"
      unfolding power_Suc2 by (rule mod_mult2_eq)
    then have bv: "be_val (take ?n (buf[?p := of_nat ?x])) = S + host mod 256 ^ Suc ?e"
      using upd [of "of_nat ?x"] unfolding z x mult.commute [of ?x] by linarith
    have "if host < 2 ^ h
      then \<exists>b. ip_addr_loop (buf[?p := of_nat ?x]) m (be_bytes 4 host) (int ?n - 4) i = Ret (Inr b)
        \<and> length b = 16 \<and> be_val (take ?n b) = S + host
      else \<exists>b. ip_addr_loop (buf[?p := of_nat ?x]) m (be_bytes 4 host) (int ?n - 4) i = Ret (Inl b)"
    proof (rule Suc.IH)
      show "length (buf[?p := of_nat ?x]) = 16" using Suc.prems(1) by (simp only: length_list_update)
      show "i \<le> 4" using i(1) by (rule less_imp_le)
      show "4 - i \<le> ?d" unfolding lt(2) by (rule lt(1))
      show "be_val (take ?n (buf[?p := of_nat ?x])) = S + host mod 256 ^ (4 - i)" unfolding lt(2) by (rule bv)
    qed
    moreover have "iabuf m ! ?p = 0" using mb False by (simp add: unat_eq_zero)
    ultimately show ?thesis unfolding loop by simp
  next
    case True
    let ?r = "2 ^ (h mod 8) :: nat"
    have r: "?r < 256" "0 < ?r" using power_strict_increasing [of "h mod 8" 8 "2 :: nat"] by simp_all
    have h: "2 ^ h = ?r * 256 ^ ?e" using pow8 [of h] True by (simp add: mult.commute)
    have "unat (iabuf m ! ?p XOR 255) = ?r - 1" using mb True r by (simp add: byte_xor_255)
    then have big: "of_nat ?x > iabuf m ! ?p XOR 255 \<longleftrightarrow> ?r \<le> ?x"
      using r(2) unfolding word_less_nat_alt x by linarith
    have e4: "4 - i = Suc ?e" using i(1) by auto
    have split: "host = (host div 256 ^ Suc ?e) * 256 ^ Suc ?e + ?x * 256 ^ ?e + host mod 256 ^ ?e"
      using mod_mult2_eq [of host "256 ^ ?e" 256] div_mult_mod_eq [of host "256 ^ Suc ?e"]
      unfolding power_Suc2 mult.commute [of ?x] by linarith
    have fits: "host < 2 ^ h \<longleftrightarrow> ?x < ?r \<and> host div 256 ^ Suc ?e = 0"
    proof -
      have "host < 2 ^ h \<longleftrightarrow> host div 256 ^ ?e < ?r" unfolding h by (simp add: div_less_iff_less_mult)
      moreover have "host div 256 ^ Suc ?e = host div 256 ^ ?e div 256" unfolding power_Suc2 by (rule div_mult2_eq)
      ultimately show ?thesis using r by auto
    qed
    have "?r dvd unat ?b"
    proof -
      obtain c where "S = 2 ^ h * c" using S(1) by (elim dvdE)
      then have "S div 256 ^ ?e = ?r * c" unfolding h by simp
      moreover have "?r dvd 256" using le_imp_power_dvd [of "h mod 8" 8 "2 :: nat"] by simp
      ultimately show ?thesis unfolding old by (simp add: dvd_mod)
    qed
    have val: "be_val (take ?n (buf[?p := ?b OR of_nat ?x])) = S + host" if "host < 2 ^ h"
    proof -
      have "unat (?b OR of_nat ?x) = unat ?b + ?x"
        using byte_or_low [of "h mod 8" ?b "of_nat ?x"] \<open>?r dvd unat ?b\<close> x that fits by simp
      then have "unat (?b OR of_nat ?x) * 256 ^ ?e = unat ?b * 256 ^ ?e + ?x * 256 ^ ?e"
        by (simp only: distrib_right)
      moreover have "host = ?x * 256 ^ ?e + host mod 256 ^ ?e"
        using split that fits by (metis add_0 mult_0)
      ultimately show ?thesis using upd [of "?b OR of_nat ?x"] by linarith
    qed
    have nz: "iabuf m ! ?p \<noteq> 0" using mb True r by (auto simp: unat_eq_zero [symmetric] simp del: unat_eq_zero)
    show ?thesis
    proof (cases "host < 2 ^ h")
      case T: True
      have c: "\<not> ?r \<le> ?x" "\<not> host div 256 ^ Suc ?e \<noteq> 0" using T fits by auto
      have "ip_addr_loop buf m (be_bytes 4 host) (int ?n - 4) (Suc i) = Ret (Inr (buf[?p := ?b OR of_nat ?x]))"
        unfolding loop big high_bytes_zero [OF host i(1)] e4 if_P [OF nz] if_not_P [OF c(1)] if_not_P [OF c(2)] ..
      moreover have "length (buf[?p := ?b OR of_nat ?x]) = 16" using Suc.prems(1) by (simp only: length_list_update)
      ultimately show ?thesis unfolding if_P [OF T] using val [OF T] by blast
    next
      case F: False
      then have "?r \<le> ?x \<or> host div 256 ^ Suc ?e \<noteq> 0" using fits by auto
      then have "ip_addr_loop buf m (be_bytes 4 host) (int ?n - 4) (Suc i) = Ret (Inl buf)"
        unfolding loop big high_bytes_zero [OF host i(1)] e4 if_P [OF nz] by argo
      then show ?thesis unfolding if_not_P [OF F] by (rule exI)
    qed
  qed
qed

section \<open>Networks and host parts\<close>

lemma ip_addr_fits:
  assumes a: "wf_iaddr a" "len a = len m" "4 \<le> len m" and m: "prefix_mask h m" "2 ^ h dvd addr_val a"
  shows "unat x < 2 ^ h \<Longrightarrow> \<exists>b. ip_addr a m x = Ret b \<and> wf_iaddr b \<and> len b = len a
      \<and> addr_val b = addr_val a + unat x"
    and "\<not> unat x < 2 ^ h \<Longrightarrow> \<exists>b. ip_addr a m x = Ret (a\<lparr>len := 0, iabuf := b\<rparr>)"
proof -
  have x: "unat x < 2 ^ 32" using unsigned_less [of x] by simp
  have "be_val (take (len m) (iabuf a)) = addr_val a + unat x mod 256 ^ (4 - 4)"
    using a(2) by (simp add: addr_val_def addr_bytes_def)
  note loop = ip_addr_loop_spec [OF m(1) a(3) _ _ _ m(2) this x]
  have pre: "length (iabuf a) = 16" "len a \<le> 16" "int (len a) = int (len m)"
    using a by (auto simp: wf_iaddr_def)
  show "\<exists>b. ip_addr a m x = Ret b \<and> wf_iaddr b \<and> len b = len a \<and> addr_val b = addr_val a + unat x"
    if fits: "unat x < 2 ^ h"
  proof -
    obtain b where b: "ip_addr_loop (iabuf a) m (be_bytes 4 (unat x)) (int (len m) - 4) 4 = Ret (Inr b)"
        "length b = 16" "be_val (take (len m) b) = addr_val a + unat x"
      using loop fits pre(1) by auto
    then have "ip_addr a m x = Ret (a\<lparr>iabuf := b\<rparr>)"
      using pre(2) a(2) by (simp add: ip_addr_def del: ip_addr_loop.simps)
    then show ?thesis using b(2,3) pre(2) a(2) by (auto simp: wf_iaddr_def addr_val_def addr_bytes_def)
  qed
  show "\<exists>b. ip_addr a m x = Ret (a\<lparr>len := 0, iabuf := b\<rparr>)" if "\<not> unat x < 2 ^ h"
    using loop that pre a(2) by (auto simp add: ip_addr_def simp del: ip_addr_loop.simps)
qed

lemma addr_bytes_eq:
  assumes "wf_iaddr a" "wf_iaddr b" "len a = len b" "addr_val a = addr_val b"
  shows "addr_bytes a = addr_bytes b"
  using be_val_inj [of "addr_bytes a" "addr_bytes b"] assms by (simp add: addr_val_def)

text \<open>C22: An address is rebuilt from its network number and its host part: for a prefix mask that
  leaves at most 32 host bits, \<open>ip_addr (subnet_number a) (host_addr a)\<close> has the bytes of \<open>a\<close>,
  whatever the uninitialised result structures held.\<close>

theorem ip_addr_of_parts:
  assumes "wf_iaddr a" "4 \<le> len a" "prefix_mask h m" "len m = len a" "h \<le> 32"
    and "length (iabuf rv) = 16" "length (iabuf rv') = 16"
  shows "\<exists>s x b. subnet_number rv a m = Ret s \<and> host_addr rv' a m = Ret x \<and> ip_addr s m x = Ret b
    \<and> addr_bytes b = addr_bytes a"
proof -
  let ?v = "addr_val a" and ?x = "of_nat (addr_val a mod 2 ^ h) :: u32"
  obtain s where s: "subnet_number rv a m = Ret s" "wf_iaddr s" "len s = len a" "addr_val s = ?v - ?v mod 2 ^ h"
    using subnet_number_spec [OF assms(1,3,4,6)] by blast
  have "?v mod 2 ^ h < 2 ^ h" by simp
  moreover have "(2 :: nat) ^ h \<le> 2 ^ 32" using assms(5) by (intro power_increasing) auto
  ultimately have "?v mod 2 ^ h < 2 ^ 32" by (rule less_le_trans)
  then have x: "unat ?x = ?v mod 2 ^ h" by (simp add: unat_of_nat)
  have "2 ^ h dvd addr_val s" unfolding s(4) by (rule dvd_minus_mod)
  then obtain b where "ip_addr s m ?x = Ret b" "wf_iaddr b" "len b = len a" "addr_val b = ?v"
    using ip_addr_fits(1) [of s m h ?x] s(2-4) assms(2-4) x by auto
  then show ?thesis
    using s(1) host_addr_spec [OF assms(1,2,3,4,7)] addr_bytes_eq [of b a] assms(1) by blast
qed

text \<open>C23: \<open>ip_addr\<close> adds a host number to a network exactly when the number fits in the host
  part of the mask; otherwise it returns an address of length 0.\<close>

theorem ip_addr_fits_or_empty:
  assumes "wf_iaddr a" "len a = len m" "4 \<le> len m" "prefix_mask h m" "2 ^ h dvd addr_val a"
  shows "\<exists>b. ip_addr a m x = Ret b \<and>
    (if unat x < 2 ^ h then wf_iaddr b \<and> len b = len a \<and> addr_val b = addr_val a + unat x
     else len b = 0)"
proof (cases "unat x < 2 ^ h")
  case True
  then show ?thesis using ip_addr_fits(1) [OF assms True] by auto
next
  case False
  then show ?thesis using ip_addr_fits(2) [OF assms False] by auto
qed

text \<open>An address of given bytes, for the examples.\<close>

definition iaddr_of :: "byte list \<Rightarrow> iaddr" where
  "iaddr_of bs = \<lparr>len = length bs, iabuf = bs @ replicate (16 - length bs) 0\<rparr>"

theorem ip_addr_of_parts_witness:
  "\<exists>s x b. subnet_number (iaddr_of []) (iaddr_of [10, 1, 2, 77]) (iaddr_of [255, 255, 255, 224]) = Ret s
    \<and> host_addr (iaddr_of []) (iaddr_of [10, 1, 2, 77]) (iaddr_of [255, 255, 255, 224]) = Ret x
    \<and> ip_addr s (iaddr_of [255, 255, 255, 224]) x = Ret b \<and> addr_bytes b = [10, 1, 2, 77]"
  using ip_addr_of_parts [of "iaddr_of [10, 1, 2, 77]" 5 "iaddr_of [255, 255, 255, 224]" "iaddr_of []" "iaddr_of []"]
  by (simp add: iaddr_of_def wf_iaddr_def prefix_mask_def addr_val_def addr_bytes_def)

theorem ip_addr_fits_or_empty_witness:
  "(\<exists>b. ip_addr (iaddr_of [10, 1, 2, 64]) (iaddr_of [255, 255, 255, 224]) 13 = Ret b
      \<and> wf_iaddr b \<and> len b = length [10, 1, 2, 64 :: byte] \<and> addr_val b = addr_val (iaddr_of [10, 1, 2, 64]) + 13)
   \<and> (\<exists>b. ip_addr (iaddr_of [10, 1, 2, 64]) (iaddr_of [255, 255, 255, 224]) 32 = Ret b \<and> len b = 0)"
  using ip_addr_fits_or_empty [of "iaddr_of [10, 1, 2, 64]" "iaddr_of [255, 255, 255, 224]" 5 13]
    ip_addr_fits_or_empty [of "iaddr_of [10, 1, 2, 64]" "iaddr_of [255, 255, 255, 224]" 5 32]
  by (simp add: iaddr_of_def wf_iaddr_def prefix_mask_def addr_val_def addr_bytes_def)

section \<open>Prefix lengths\<close>

lemma be_val_split:
  assumes "k \<le> length xs"
  shows "be_val xs = be_val (take (length xs - k) xs) * 256 ^ k + be_val (drop (length xs - k) xs)"
  using be_val_append [of "take (length xs - k) xs" "drop (length xs - k) xs"] assms by simp

lemma be_val_dvd:
  assumes "k \<le> length xs"
  shows "256 ^ k dvd be_val xs \<longleftrightarrow> (\<forall>x \<in> set (drop (length xs - k) xs). x = 0)"
proof -
  let ?d = "drop (length xs - k) xs"
  have lt: "be_val ?d < 256 ^ k" using be_val_lt [of ?d] assms by simp
  have "256 ^ k dvd be_val xs \<longleftrightarrow> 256 ^ k dvd be_val ?d"
    using be_val_split [OF assms] by (metis dvd_add_right_iff dvd_triv_right)
  also have "\<dots> \<longleftrightarrow> be_val ?d = 0" using lt by (auto dest: dvd_imp_le)
  finally show ?thesis by (simp add: be_val_eq_0)
qed

lemma zero_tail_spec:
  assumes "wf_iaddr a" "n \<le> len a"
  shows "zero_tail a n = Ret (256 ^ n dvd addr_val a)"
proof -
  have "zero_tail a n = Ret (\<forall>x \<in> set (drop (len a - n) (addr_bytes a)). x = 0)"
    using assms(2)
  proof (induction n)
    case 0
    then show ?case using assms(1) by simp
  next
    case (Suc n)
    then have lt: "len a - Suc n < len a" "len a - Suc n < 16" using assms(1) by (auto simp: wf_iaddr_def)
    then have "drop (len a - Suc n) (addr_bytes a) = iabuf a ! (len a - Suc n) # drop (len a - n) (addr_bytes a)"
      using Cons_nth_drop_Suc [of "len a - Suc n" "addr_bytes a"] assms(1) Suc.prems
      by (simp add: addr_bytes_def wf_iaddr_def Suc_diff_Suc)
    then show ?case using Suc assms(1) by (auto simp: wf_iaddr_def)
  qed
  then show ?thesis using be_val_dvd [of n "addr_bytes a"] assms by (simp add: addr_val_def)
qed

lemma byte_shift_iff:
  assumes "s < 8"
  shows "push_bit s (drop_bit s (sint (x :: byte))) = sint x \<longleftrightarrow> 2 ^ s dvd unat x"
proof -
  have "push_bit s (drop_bit s (sint x)) = sint x \<longleftrightarrow> 2 ^ s dvd sint x"
    unfolding push_bit_eq_mult drop_bit_eq_div by (metis dvd_div_mult_self dvd_triv_right)
  also have "\<dots> \<longleftrightarrow> sint x mod 2 ^ s = 0" by (rule dvd_eq_mod_eq_0)
  also have "sint x mod 2 ^ s = uint x mod 2 ^ s"
  proof -
    have "take_bit s (sint x) = take_bit s (uint x)"
      using assms by (auto intro!: bit_eqI simp: bit_take_bit_iff bit_sint_iff bit_uint_iff not_le)
    then show ?thesis by (simp add: take_bit_eq_mod)
  qed
  also have "\<dots> = 0 \<longleftrightarrow> 2 ^ s dvd uint x" by (simp add: dvd_eq_mod_eq_0)
  also have "\<dots> \<longleftrightarrow> 2 ^ s dvd unat x"
    using of_nat_dvd_iff [where 'a = int, of "2 ^ s" "unat x"] by simp
  finally show ?thesis .
qed

lemma pow_dvd_split:
  assumes "s < 8"
  shows "2 ^ (8 * z + s) dvd v \<longleftrightarrow> 256 ^ z dvd v \<and> 2 ^ s dvd (v div 256 ^ z mod 256 :: nat)"
proof -
  have p: "(2 :: nat) ^ (8 * z + s) = 256 ^ z * 2 ^ s" by (simp add: power_add power_mult)
  have "(2 :: nat) ^ s dvd 256" using le_imp_power_dvd [of s 8 "2 :: nat"] assms by simp
  then have "2 ^ s dvd w mod 256 \<longleftrightarrow> 2 ^ s dvd (w :: nat)" for w by (rule dvd_mod_iff)
  moreover have "256 ^ z * 2 ^ s dvd v \<longleftrightarrow> 256 ^ z dvd v \<and> 2 ^ s dvd v div 256 ^ z"
    by (auto simp: dvd_mult_left dvd_div_iff_mult mult.commute elim: dvd_mult_left)
  ultimately show ?thesis unfolding p by simp
qed

text \<open>C24: \<open>is_cidr_mask_valid\<close> accepts a prefix length exactly when it is between 0 and the
  width of the address and the address has only zero bits after the prefix, that is, when the
  address is a multiple of the size of the network. The comparison of the last byte uses a
  signed \<open>char\<close>, for which the shifts give the same answer.\<close>

theorem is_cidr_mask_valid_iff:
  assumes "wf_iaddr a"
  shows "is_cidr_mask_valid a b
    = Ret (0 \<le> b \<and> b \<le> 8 * int (len a) \<and> 2 ^ nat (8 * int (len a) - b) dvd addr_val a)"
proof (cases "0 \<le> b \<and> b \<le> 8 * int (len a)")
  case False
  then show ?thesis by (auto simp: is_cidr_mask_valid_def)
next
  case True
  define w where "w = nat (int (len a) * 8 - b)"
  define z s where "z = w div 8" and "s = w mod 8"
  have w: "w = 8 * z + s" "s < 8" by (simp_all add: z_def s_def)
  have w': "w \<le> 8 * len a" using True unfolding w_def by linarith
  have "z \<le> len a" using w w' by simp
  note zt = zero_tail_spec [OF assms this]
  have valid: "is_cidr_mask_valid a b = bindC (zero_tail a z) (\<lambda>ok.
     if \<not> ok then Ret False else if s = 0 then Ret True
     else bindC (rd (iabuf a) (len a - z - 1)) (\<lambda>x. Ret (push_bit s (drop_bit s (sint x)) = sint x)))"
    unfolding is_cidr_mask_valid_def Let_def z_def s_def w_def using True by (simp split del: if_split)
  have "is_cidr_mask_valid a b = Ret (2 ^ w dvd addr_val a)"
  proof (cases "s = 0")
    case True
    then show ?thesis unfolding valid zt using w(1) by (simp add: pow256)
  next
    case s: False
    then have k: "len a - z - 1 < len a" "len a - Suc (len a - z - 1) = z" using w w' by auto
    have "unat (iabuf a ! (len a - z - 1)) = addr_val a div 256 ^ z mod 256"
      using be_val_nth [of "len a - z - 1" "addr_bytes a"] assms k by (simp add: addr_val_def addr_bytes_def wf_iaddr_def)
    then show ?thesis unfolding valid zt
      using s k(1) assms byte_shift_iff [OF w(2)] pow_dvd_split [OF w(2), of z "addr_val a"] w(1)
      by (simp add: wf_iaddr_def)
  qed
  then show ?thesis using True by (simp add: w_def mult.commute)
qed

theorem is_cidr_mask_valid_iff_witness:
  "is_cidr_mask_valid (iaddr_of [10, 1, 2, 64]) 26 = Ret True
   \<and> is_cidr_mask_valid (iaddr_of [10, 1, 2, 64]) 25 = Ret False"
  using is_cidr_mask_valid_iff [of "iaddr_of [10, 1, 2, 64]" 26] is_cidr_mask_valid_iff [of "iaddr_of [10, 1, 2, 64]" 25]
  by (simp add: iaddr_of_def wf_iaddr_def addr_val_def addr_bytes_def)

lemma mask_bit_test:
  assumes "unat (x :: byte) = 256 - 2 ^ r" "r < 8" "t \<le> r"
  shows "x AND drop_bit (7 - t) 128 \<noteq> 0 \<longleftrightarrow> t = r"
proof -
  have "x = of_nat (256 - 2 ^ r)" using assms(1) by (metis of_nat_unat ucast_id)
  moreover have "r \<in> {0, 1, 2, 3, 4, 5, 6, 7}" "t \<in> {0, 1, 2, 3, 4, 5, 6, 7}" using assms by auto
  ultimately show ?thesis using assms(3) by (elim insertE emptyE) simp_all
qed

lemma width_index:
  assumes "t < 8"
  shows "nat ((8 * (int q + 1) - int t - 1) div 8) = q" "nat ((8 * (int q + 1) - int t - 1) mod 8) = 7 - t"
proof -
  have "8 * (int q + 1) - int t - 1 = int (7 - t) + 8 * int q" using assms by simp
  moreover have "(int (7 - t) + 8 * int q) div 8 = int q" "(int (7 - t) + 8 * int q) mod 8 = int (7 - t)"
    using assms by simp_all
  ultimately show "nat ((8 * (int q + 1) - int t - 1) div 8) = q"
    "nat ((8 * (int q + 1) - int t - 1) mod 8) = 7 - t" by (simp_all only: nat_int)
qed

lemma mask_width_last:
  assumes x: "unat (buf ! q) = 256 - 2 ^ r" "r < 8" "q < length buf" and t: "t \<le> r"
  shows "mask_width buf (8 * (int q + 1) - int t) = Ret (8 * (int q + 1) - int r)"
  using t
proof (induction "r - t" arbitrary: t)
  case n: (0 t)
  let ?w = "8 * (int q + 1) - int t"
  have w: "?w > 0" "nat ((?w - 1) div 8) = q" "nat ((?w - 1) mod 8) = 7 - t" "t = r"
    using n x(2) width_index [of t q] by auto
  have "buf ! q \<noteq> 0" using x(1,2) power_strict_increasing [of r 8 "2 :: nat"] by auto
  then show ?case using w mask_bit_test [OF x(1,2) n(2)] x(3) mask_width.simps [of buf ?w] by (simp add: Let_def)
next
  case n: (Suc n t)
  let ?w = "8 * (int q + 1) - int t"
  have w: "?w > 0" "nat ((?w - 1) div 8) = q" "nat ((?w - 1) mod 8) = 7 - t" "t \<noteq> r"
    using n x(2) width_index [of t q] by auto
  have "buf ! q \<noteq> 0" using x(1,2) power_strict_increasing [of r 8 "2 :: nat"] by auto
  then have "mask_width buf ?w = mask_width buf (?w - 1)"
    using w mask_bit_test [OF x(1,2) n(3)] x(3) mask_width.simps [of buf ?w] by (simp add: Let_def)
  moreover have "?w - 1 = 8 * (int q + 1) - int (Suc t)" by simp
  ultimately show ?case using n(1) [of "Suc t"] n(2,3) w(4) by simp
qed

lemma mask_width_prefix:
  assumes m: "prefix_mask h m" and e: "e \<le> h div 8"
  shows "mask_width (iabuf m) (8 * (int (len m) - int e)) = Ret (8 * int (len m) - int h)"
  using e
proof (induction "h div 8 - e" arbitrary: e)
  case n: (0 e)
  have m': "length (iabuf m) = 16" "len m \<le> 16" "h \<le> 8 * len m" using m by (auto simp: prefix_mask_def wf_iaddr_def)
  have e: "e = h div 8" using n by simp
  show ?case
  proof (cases "e < len m")
    case True
    have eq: "8 * (int (len m - Suc e) + 1) - int 0 = 8 * (int (len m) - int e)" using True by simp
    have "h = 8 * e + h mod 8" unfolding e by simp
    then have "int h = 8 * int e + int (h mod 8)" by linarith
    then have eq': "8 * (int (len m - Suc e) + 1) - int (h mod 8) = 8 * int (len m) - int h" using True by simp
    have x: "unat (iabuf m ! (len m - Suc e)) = 256 - 2 ^ (h mod 8)"
      using prefix_mask_byte [OF m n(2) True] unfolding if_P [OF e] .
    have "len m - Suc e < length (iabuf m)" using m' True by linarith
    from mask_width_last [OF x _ this le0] show ?thesis unfolding eq eq' by simp
  next
    case False
    then have "int h = 8 * int (len m)" "e = len m" using e m'(3) by auto
    then show ?thesis using mask_width.simps [of "iabuf m" 0] by simp
  qed
next
  case n: (Suc n e)
  have m': "length (iabuf m) = 16" "len m \<le> 16" "h \<le> 8 * len m" using m by (auto simp: prefix_mask_def wf_iaddr_def)
  have e: "e < h div 8" "e < len m" using n m'(3) by auto
  let ?w = "8 * (int (len m) - int e)"
  have w: "?w > 0" "nat ((?w - 1) div 8) = len m - Suc e" "?w - 8 = 8 * (int (len m) - int (Suc e))" using e by auto
  have "iabuf m ! (len m - Suc e) = 0"
    using prefix_mask_byte [OF m n(3) e(2)] e(1) unat_eq_zero [of "iabuf m ! (len m - Suc e)"] by simp
  then have "mask_width (iabuf m) ?w = mask_width (iabuf m) (?w - 8)"
    using w(1,2) e m' mask_width.simps [of "iabuf m" ?w] by (simp add: Let_def)
  then have "mask_width (iabuf m) ?w = mask_width (iabuf m) (8 * (int (len m) - int (Suc e)))"
    unfolding w(3) .
  then show ?case using n(1) [of "Suc e"] n(2) e by simp
qed

text \<open>The width \<open>piaddrmask\<close> prints after an IPv4 or IPv6 address is the prefix length of
  the mask, for every prefix mask of the address's length.\<close>

theorem piaddrmask_width_prefix:
  assumes "len a = 4 \<or> len a = 16" "len m = len a" "prefix_mask h m"
  shows "piaddrmask_width a m = Ret (8 * int (len m) - int h)"
  using mask_width_prefix [OF assms(3), of 0] assms
  by (auto simp: piaddrmask_width_def prefix_mask_def mult.commute)

section \<open>Ranges\<close>

lemma range2cidr_start:
  assumes "wf_iaddr lo" "wf_iaddr hi" "len lo = len hi" "addr_val lo \<le> addr_val hi"
    and "length (iabuf e) = 16" "length (iabuf d) = 16"
  shows "r2c_inv hi (addr_val lo) 0 \<lparr>addr_s = lo, mask_s = \<lparr>len = len lo, iabuf = replicate 16 0\<rparr>,
    end_addr_s = e, dummy_s = d, bit_s = 0, nets_s = []\<rparr>"
proof -
  have "be_val (replicate k 0) = 0" for k by (induction k) auto
  then show ?thesis
    using assms by (auto simp: r2c_inv_def addr_val_def addr_bytes_def wf_iaddr_def)
qed

text \<open>C8: \<open>range2cidr\<close> always returns, for a range given in either order and for any contents of
  its uninitialised locals, and the networks it returns cover the range exactly: each is aligned
  to its size, and read from the head of the list each ends where the one before it starts. The
  only other outcome is \<open>ISC_R_NOMEMORY\<close> with an empty list, when an allocation failed.\<close>

theorem range2cidr_covers_range:
  assumes "wf_iaddr lo" "wf_iaddr hi" "len lo = len hi" "length (iabuf e) = 16" "length (iabuf d) = 16"
  shows "\<exists>code nets. range2cidr alloc_ok stray e d (Some []) (Some lo) (Some hi) = Some (Ret (code, nets)) \<and>
    (code = ISC_R_SUCCESS \<and>
       tiles (len lo) (min (addr_val lo) (addr_val hi)) nets (Suc (max (addr_val lo) (addr_val hi)))
     \<or> code = ISC_R_NOMEMORY \<and> nets = [] \<and> (\<exists>k. \<not> alloc_ok k))"
proof (cases "addr_val lo \<le> addr_val hi")
  case True
  then show ?thesis
    using r2c_loop [OF range2cidr_start [OF assms(1-3) True assms(4,5)] assms(2), of "addr_val lo" alloc_ok stray]
      addr_cmp_spec [OF assms(1-3)] assms(3)
    by (simp add: range2cidr_def)
next
  case False
  then show ?thesis
    using r2c_loop [OF range2cidr_start [of hi lo e d] assms(1), of "addr_val hi" alloc_ok stray]
      addr_cmp_spec [OF assms(1-3)] assms
    by (simp add: range2cidr_def)
qed

theorem range2cidr_covers_range_witness:
  "\<exists>nets. range2cidr (\<lambda>_. True) 0 (iaddr_of []) (iaddr_of []) (Some [])
      (Some (iaddr_of [10, 0, 0, 3])) (Some (iaddr_of [10, 0, 1, 17])) = Some (Ret (ISC_R_SUCCESS, nets))
    \<and> tiles (length [10, 0, 0, 3 :: byte]) 167772163 nets 167772434"
  using range2cidr_covers_range [of "iaddr_of [10, 0, 0, 3]" "iaddr_of [10, 0, 1, 17]" "iaddr_of []"
      "iaddr_of []" "\<lambda>_. True" 0]
  by (simp add: iaddr_of_def wf_iaddr_def addr_val_def addr_bytes_def)

end
