(* ===== verification/Hash_Table.thy ===== *)
theory Hash_Table
  imports Dhcp_Prelude
begin

text \<open>
  Model of \<open>omapip/hash.c\<close>: the chained hash tables of the server. A key is the memory its
  pointer leads to, as a byte list; \<open>len\<close> bytes of it count. Function pointers for hashing and
  comparison are the constructors of \<open>hash_fn\<close> and \<open>hash_cmp\<close>. A bucket chain is a list of
  buckets; the free list of buckets, which the code fills 127 at a time, is the number of
  buckets on it. A reference callback counts the references to an object in \<open>refs\<close>. The
  integers that are read in host order are those of a little-endian machine.
\<close>

section \<open>Keys\<close>

datatype hash_fn = Do_case_hash | Do_string_hash | Do_id_hash | Do_number_hash | Do_ip4_hash

datatype hash_cmp = Casecmp | Memcmp

definition lower :: "byte \<Rightarrow> byte" where
  "lower c = (if 65 \<le> c \<and> c \<le> 90 then c + 32 else c)"

text \<open>The comparison of two C strings for equality.\<close>

fun strcmp_eq :: "byte list \<Rightarrow> byte list \<Rightarrow> bool cres" where
  "strcmp_eq (a # as) (b # bs) =
     (if a \<noteq> b then Ret False else if a = 0 then Ret True else strcmp_eq as bs)"
| "strcmp_eq _ _ = Undef"

fun casecmp_loop :: "byte list \<Rightarrow> byte list \<Rightarrow> nat \<Rightarrow> nat \<Rightarrow> int cres" where
  "casecmp_loop s t i 0 = Ret 0"
| "casecmp_loop s t i (Suc n) =
     bindC (rd s i) (\<lambda>a. bindC (rd t i) (\<lambda>b.
       let c1 = (if a < 128 then lower a else a); c2 = (if b < 128 then lower b else b)
       in if c1 < c2 then Ret (- 1) else if c1 > c2 then Ret 1 else casecmp_loop s t (i + 1) n))"

definition casecmp :: "byte list \<Rightarrow> byte list \<Rightarrow> nat \<Rightarrow> int cres" where
  "casecmp v1 v2 len = casecmp_loop v1 v2 0 len"

fun memcmp_loop :: "byte list \<Rightarrow> byte list \<Rightarrow> nat \<Rightarrow> nat \<Rightarrow> int cres" where
  "memcmp_loop s t i 0 = Ret 0"
| "memcmp_loop s t i (Suc n) =
     bindC (rd s i) (\<lambda>a. bindC (rd t i) (\<lambda>b.
       if a < b then Ret (- 1) else if a > b then Ret 1 else memcmp_loop s t (i + 1) n))"

definition key_cmp :: "hash_cmp \<Rightarrow> byte list \<Rightarrow> byte list \<Rightarrow> nat \<Rightarrow> int cres" where
  "key_cmp c a b len = (case c of Casecmp \<Rightarrow> casecmp a b len | Memcmp \<Rightarrow> memcmp_loop a b 0 len)"

definition find_length :: "byte list \<Rightarrow> hash_fn \<Rightarrow> nat cres" where
  "find_length key f =
     (if f = Do_case_hash \<or> f = Do_string_hash then strlen_from key
      else if f = Do_number_hash then Ret 4
      else if f = Do_ip4_hash then Ret 4
      else Ret 0)"

section \<open>Hash functions\<close>

text \<open>The loop that folds the carry out of 16 bits back into the accumulator.\<close>

lemma add_carry_less:
  assumes "(65535 :: u32) < a"
  shows "unat ((a AND 65535) + drop_bit 16 a) < unat a"
proof -
  let ?q = "unat a div 65536" and ?r = "unat a mod 65536"
  have lo: "unat (a AND 65535) = ?r"
  proof -
    have "(65535 :: u32) = mask 16" by (simp add: mask_eq_exp_minus_1)
    then have "a AND 65535 = take_bit 16 a" by (simp only: take_bit_eq_mask)
    then have "unat (a AND 65535) = take_bit 16 (unat a)" by (simp only: unsigned_take_bit_eq)
    then show ?thesis by (simp add: take_bit_eq_mod)
  qed
  have hi: "unat (drop_bit 16 a) = ?q" by (simp add: drop_bit_eq_div unat_div_distrib)
  have big: "65536 \<le> unat a" using assms by (simp add: word_less_nat_alt)
  have a: "unat a = 65536 * ?q + ?r" by simp
  have "?q \<ge> 1" using big by (simp add: Suc_le_eq div_greater_zero_iff)
  then have lt: "?r + ?q < unat a" using a by linarith
  moreover have "unat a < 4294967296" using unsigned_less [of a] by simp
  ultimately have "unat ((a AND 65535) + drop_bit 16 a) = ?r + ?q"
    using lo hi by (subst unat_add_lem [THEN iffD1]) auto
  with lt show ?thesis by simp
qed

function add_carry :: "u32 \<Rightarrow> u32" where
  "add_carry accum = (if accum > 65535 then add_carry ((accum AND 65535) + drop_bit 16 accum) else accum)"
  by pat_completeness auto
termination
  by (relation "measure unat") (auto intro: add_carry_less)

declare add_carry.simps [simp del]

text \<open>\<open>accum % size\<close>: \<open>size\<close> is never 0, a division by zero is undefined.\<close>

definition umod :: "u32 \<Rightarrow> nat \<Rightarrow> nat cres" where
  "umod accum sz = bindC (definedC (sz \<noteq> 0)) (\<lambda>_. Ret (unat accum mod sz))"

fun case_hash_loop :: "byte list \<Rightarrow> nat \<Rightarrow> nat \<Rightarrow> u32 \<Rightarrow> u32 cres" where
  "case_hash_loop s k 0 accum = Ret accum"
| "case_hash_loop s k (Suc i) accum =
     bindC (rd s k) (\<lambda>c.
       let c = (if c < 128 then lower c else c)
       in case_hash_loop s (k + 1) i (add_carry (push_bit 1 accum + ucast c)))"

definition do_case_hash :: "byte list \<Rightarrow> nat \<Rightarrow> nat \<Rightarrow> nat cres" where
  "do_case_hash name len sz = bindC (case_hash_loop name 0 len 0) (\<lambda>accum. umod accum sz)"

fun string_hash_loop :: "byte list \<Rightarrow> nat \<Rightarrow> nat \<Rightarrow> u32 \<Rightarrow> u32 cres" where
  "string_hash_loop s k 0 accum = Ret accum"
| "string_hash_loop s k (Suc i) accum =
     bindC (rd s k) (\<lambda>c. string_hash_loop s (k + 1) i (add_carry (push_bit 1 accum + ucast c)))"

definition do_string_hash :: "byte list \<Rightarrow> nat \<Rightarrow> nat \<Rightarrow> nat cres" where
  "do_string_hash name len sz = bindC (string_hash_loop name 0 len 0) (\<lambda>accum. umod accum sz)"

text \<open>The loop takes three bytes at a time; \<open>i\<close> counts the groups that are left.\<close>

fun id_hash_loop :: "byte list \<Rightarrow> nat \<Rightarrow> nat \<Rightarrow> u32 \<Rightarrow> u32 cres" where
  "id_hash_loop s k 0 accum = Ret accum"
| "id_hash_loop s k (Suc i) accum =
     bindC (rd s k) (\<lambda>a. bindC (rd s (k + 1)) (\<lambda>b. bindC (rd s (k + 2)) (\<lambda>c.
       id_hash_loop s (k + 3) i (accum XOR push_bit 16 (ucast a) XOR push_bit 8 (ucast b) XOR ucast c))))"

definition do_id_hash :: "byte list \<Rightarrow> nat \<Rightarrow> nat \<Rightarrow> nat cres" where
  "do_id_hash name len sz =
     (if len = 0 then Ret 0
      else bindC (if len mod 3 = 2
                  then bindC (rd name 0) (\<lambda>a. bindC (rd name 1) (\<lambda>b. Ret (push_bit 8 (ucast a) XOR ucast b, 2)))
                  else if len mod 3 = 1 then bindC (rd name 0) (\<lambda>b. Ret (ucast b, 1))
                  else Ret (0, 0)) (\<lambda>(accum, k).
           bindC (id_hash_loop name k (len div 3) accum) (\<lambda>accum. umod accum sz)))"

definition do_number_hash :: "byte list \<Rightarrow> nat \<Rightarrow> nat \<Rightarrow> nat cres" where
  "do_number_hash key len sz =
     bindC (rdn key 0 4) (\<lambda>bs. umod (of_nat (be_val (rev bs))) sz)"

definition do_ip4_hash :: "byte list \<Rightarrow> nat \<Rightarrow> nat \<Rightarrow> nat cres" where
  "do_ip4_hash key len sz = bindC (rdn key 0 4) (\<lambda>bs. umod (of_nat (be_val bs)) sz)"

definition run_hash :: "hash_fn \<Rightarrow> byte list \<Rightarrow> nat \<Rightarrow> nat \<Rightarrow> nat cres" where
  "run_hash f key len sz =
     (case f of Do_case_hash \<Rightarrow> do_case_hash key len sz | Do_string_hash \<Rightarrow> do_string_hash key len sz
      | Do_id_hash \<Rightarrow> do_id_hash key len sz | Do_number_hash \<Rightarrow> do_number_hash key len sz
      | Do_ip4_hash \<Rightarrow> do_ip4_hash key len sz)"

section \<open>Tables\<close>

record 'v hash_bucket =
  name_b :: "byte list"
  len_b :: nat
  value_b :: "'v option"

record 'v hash_table =
  hash_count :: nat
  referencer :: bool
  dereferencer :: bool
  cmp_t :: hash_cmp
  do_hash :: hash_fn
  buckets :: "'v hash_bucket list list"

text \<open>What is shared by all tables: the free list, of which only the \<open>value\<close> fields left behind in
  its buckets matter, and the reference counts.\<close>

record 'v hash_state =
  free_hash_buckets :: "'v option list"
  refs :: "'v \<Rightarrow> int"

definition add_ref :: "'v option \<Rightarrow> int \<Rightarrow> 'v hash_state \<Rightarrow> 'v hash_state" where
  "add_ref p d h = (case p of None \<Rightarrow> h | Some x \<Rightarrow> h\<lparr>refs := (refs h)(x := refs h x + d)\<rparr>)"

text \<open>\<open>alloc\<close> is the outcome of \<open>dmalloc\<close>.\<close>

definition new_hash_table :: "bool \<Rightarrow> nat \<Rightarrow> nat option" where
  "new_hash_table alloc count = (if alloc then Some (if count \<le> 1 then 1 else count) else None)"

definition DEFAULT_HASH_SIZE :: nat where
  "DEFAULT_HASH_SIZE = 9973"

text \<open>The number \<open>new_hash_table\<close> returns is the number of buckets it allocated.\<close>

definition new_hash :: "bool \<Rightarrow> bool \<Rightarrow> bool \<Rightarrow> nat \<Rightarrow> hash_fn \<Rightarrow> 'v hash_table option" where
  "new_hash alloc ref deref hsize hasher =
     (let hsize = (if hsize = 0 then DEFAULT_HASH_SIZE else hsize)
      in case new_hash_table alloc hsize of
           None \<Rightarrow> None
         | Some n \<Rightarrow> Some \<lparr>hash_count = hsize, referencer = ref, dereferencer = deref,
             cmp_t = (if hasher = Do_case_hash then Casecmp else Memcmp), do_hash = hasher,
             buckets = replicate n []\<rparr>)"

text \<open>The bucket returned is not cleared: the first component of the result is the value it still
  holds. Buckets just allocated are zero, as \<open>dmalloc\<close> clears them.\<close>

definition new_hash_bucket :: "bool \<Rightarrow> 'v hash_state \<Rightarrow> ('v option \<times> 'v hash_state) option" where
  "new_hash_bucket alloc h =
     (case free_hash_buckets h of
        [] \<Rightarrow> if \<not> alloc then None else Some (None, h\<lparr>free_hash_buckets := replicate 126 None\<rparr>)
      | v # vs \<Rightarrow> Some (v, h\<lparr>free_hash_buckets := vs\<rparr>))"

definition free_hash_bucket :: "'v option \<Rightarrow> 'v hash_state \<Rightarrow> 'v hash_state" where
  "free_hash_bucket v h = h\<lparr>free_hash_buckets := v # free_hash_buckets h\<rparr>"

text \<open>What the functions passed as \<open>referencer\<close> and \<open>dereferencer\<close> do, for example
  \<open>iasubopt_reference\<close> and \<open>iasubopt_dereference\<close> of \<open>server/mdb6.c\<close>: to store a null object, or to
  store into a pointer that is not null, is refused and leaves the pointer as it was. A
  dereference clears the pointer; that an object without references is freed is not modelled.\<close>

definition reference :: "'v option \<Rightarrow> 'v option \<Rightarrow> 'v hash_state \<Rightarrow> 'v option \<times> 'v hash_state" where
  "reference r p h = (if p = None \<or> r \<noteq> None then (r, h) else (p, add_ref p 1 h))"

definition dereference :: "'v option \<Rightarrow> 'v hash_state \<Rightarrow> 'v option \<times> 'v hash_state" where
  "dereference r h = (None, add_ref r (- 1) h)"

definition key_length :: "hash_fn \<Rightarrow> byte list \<Rightarrow> nat \<Rightarrow> nat cres" where
  "key_length f key len = (if len = 0 then find_length key f else Ret len)"

definition add_hash ::
  "bool \<Rightarrow> 'v hash_state \<Rightarrow> 'v hash_table option \<Rightarrow> byte list \<Rightarrow> nat \<Rightarrow> 'v option
    \<Rightarrow> ('v hash_state \<times> 'v hash_table option) cres" where
  "add_hash alloc h table key len pointer =
     (case table of None \<Rightarrow> Ret (h, None)
      | Some t \<Rightarrow>
          bindC (key_length (do_hash t) key len) (\<lambda>len.
          bindC (run_hash (do_hash t) key len (hash_count t)) (\<lambda>hashno.
          case new_hash_bucket alloc h of
            None \<Rightarrow> Ret (h, table)
          | Some (old, h) \<Rightarrow>
              let (v, h) = (if referencer t then reference old pointer h else (pointer, h)) in
              bindC (rd (buckets t) hashno) (\<lambda>chain.
              bindC (wr (buckets t) hashno (\<lparr>name_b = key, len_b = len, value_b = v\<rparr> # chain)) (\<lambda>bs.
                Ret (h, Some (t\<lparr>buckets := bs\<rparr>)))))))"

text \<open>The chain without the first matching bucket, and the value of that bucket.\<close>

fun delete_from_chain ::
  "hash_cmp \<Rightarrow> byte list \<Rightarrow> nat \<Rightarrow> 'v hash_bucket list \<Rightarrow> ('v hash_bucket list \<times> 'v hash_bucket option) cres" where
  "delete_from_chain c key len [] = Ret ([], None)"
| "delete_from_chain c key len (bp # bps) =
     bindC (if len_b bp = 0 then strcmp_eq (name_b bp) key else Ret False) (\<lambda>m0.
     bindC (if m0 then Ret True
            else if len_b bp = len then bindC (key_cmp c (name_b bp) key len) (\<lambda>r. Ret (r = 0))
            else Ret False) (\<lambda>m.
       if m then Ret (bps, Some bp)
       else bindC (delete_from_chain c key len bps) (\<lambda>(bps, found). Ret (bp # bps, found))))"

text \<open>What becomes of the bucket that is taken out.\<close>

definition free_entry :: "'v hash_table \<Rightarrow> 'v hash_bucket \<Rightarrow> 'v hash_state \<Rightarrow> 'v hash_state" where
  "free_entry t bp h =
     (let (v, h) = (if value_b bp \<noteq> None \<and> dereferencer t then dereference (value_b bp) h else (value_b bp, h))
      in free_hash_bucket v h)"

definition delete_hash_entry ::
  "'v hash_state \<Rightarrow> 'v hash_table option \<Rightarrow> byte list \<Rightarrow> nat
    \<Rightarrow> ('v hash_state \<times> 'v hash_table option) cres" where
  "delete_hash_entry h table key len =
     (case table of None \<Rightarrow> Ret (h, None)
      | Some t \<Rightarrow>
          bindC (key_length (do_hash t) key len) (\<lambda>len.
          bindC (run_hash (do_hash t) key len (hash_count t)) (\<lambda>hashno.
          bindC (rd (buckets t) hashno) (\<lambda>chain.
          bindC (delete_from_chain (cmp_t t) key len chain) (\<lambda>(chain, found).
          bindC (wr (buckets t) hashno chain) (\<lambda>bs.
            Ret (case found of None \<Rightarrow> h
                 | Some bp \<Rightarrow> free_entry t bp h,
              Some (t\<lparr>buckets := bs\<rparr>))))))))"

fun lookup_in_chain ::
  "hash_cmp \<Rightarrow> byte list \<Rightarrow> nat \<Rightarrow> 'v hash_bucket list \<Rightarrow> 'v hash_bucket option cres" where
  "lookup_in_chain c key len [] = Ret None"
| "lookup_in_chain c key len (bp # bps) =
     bindC (if len = len_b bp then bindC (key_cmp c (name_b bp) key len) (\<lambda>r. Ret (r = 0)) else Ret False) (\<lambda>m.
       if m then Ret (Some bp) else lookup_in_chain c key len bps)"

text \<open>The result is the returned flag and the new value of \<open>*vp\<close>.\<close>

definition hash_lookup ::
  "'v hash_state \<Rightarrow> 'v option \<Rightarrow> 'v hash_table option \<Rightarrow> byte list \<Rightarrow> nat
    \<Rightarrow> ('v hash_state \<times> bool \<times> 'v option) cres" where
  "hash_lookup h vp table key len =
     (case table of None \<Rightarrow> Ret (h, False, vp)
      | Some t \<Rightarrow>
          bindC (key_length (do_hash t) key len) (\<lambda>len.
          bindC (assertC (vp = None)) (\<lambda>_.
          bindC (run_hash (do_hash t) key len (hash_count t)) (\<lambda>hashno.
          bindC (rd (buckets t) hashno) (\<lambda>chain.
          bindC (lookup_in_chain (cmp_t t) key len chain) (\<lambda>r.
          case r of None \<Rightarrow> Ret (h, False, vp)
          | Some bp \<Rightarrow>
              let (vp, h) = (if referencer t then reference vp (value_b bp) h else (value_b bp, h))
              in Ret (h, True, vp)))))))"

text \<open>\<open>func\<close> transforms the caller's state and says whether it returned \<open>ISC_R_SUCCESS\<close>.\<close>

fun foreach_chain ::
  "('s \<Rightarrow> byte list \<Rightarrow> nat \<Rightarrow> 'v option \<Rightarrow> 's \<times> bool) \<Rightarrow> 's \<Rightarrow> nat \<Rightarrow> 'v hash_bucket list \<Rightarrow> 's \<times> nat \<times> bool" where
  "foreach_chain func s count [] = (s, count, True)"
| "foreach_chain func s count (bp # bps) =
     (let (s, ok) = func s (name_b bp) (len_b bp) (value_b bp)
      in if \<not> ok then (s, count, False) else foreach_chain func s (count + 1) bps)"

fun foreach_buckets ::
  "('s \<Rightarrow> byte list \<Rightarrow> nat \<Rightarrow> 'v option \<Rightarrow> 's \<times> bool) \<Rightarrow> 's \<Rightarrow> nat \<Rightarrow> 'v hash_bucket list list \<Rightarrow> 's \<times> nat" where
  "foreach_buckets func s count [] = (s, count)"
| "foreach_buckets func s count (b # bs) =
     (let (s, count, go) = foreach_chain func s count b
      in if \<not> go then (s, count) else foreach_buckets func s count bs)"

definition hash_foreach ::
  "'v hash_table option \<Rightarrow> ('s \<Rightarrow> byte list \<Rightarrow> nat \<Rightarrow> 'v option \<Rightarrow> 's \<times> bool) \<Rightarrow> 's \<Rightarrow> 's \<times> nat" where
  "hash_foreach table func s =
     (case table of None \<Rightarrow> (s, 0) | Some t \<Rightarrow> foreach_buckets func s 0 (take (hash_count t) (buckets t)))"

text \<open>The figures of \<open>hash_report\<close>, in 32-bit arithmetic.\<close>

datatype report = No_table | Invalid_table | Out_of_range | Report u32 u32 u32 u32 u32

definition report_step :: "u32 \<times> u32 \<times> u32 \<Rightarrow> 'v hash_bucket list \<Rightarrow> u32 \<times> u32 \<times> u32" where
  "report_step st chain =
     (let (contents, minlen, maxlen) = st; curlen = of_nat (length chain) :: u32
      in (contents + curlen, if curlen < minlen then curlen else minlen, if curlen > maxlen then curlen else maxlen))"

definition hash_report :: "'v hash_table option \<Rightarrow> report" where
  "hash_report table =
     (case table of None \<Rightarrow> No_table
      | Some t \<Rightarrow>
          if hash_count t = 0 then Invalid_table
          else
            let (contents, minlen, maxlen) =
                  foldl report_step (0, - 1, 0) (take (hash_count t) (buckets t));
                sz = of_nat (hash_count t) :: u32;
                pct = (if contents \<ge> (- 1) div 100 then contents div (sz div 100 + 1)
                       else contents * 100 div sz)
            in if contents > 2147483647 \<or> sz > 2147483647 \<or> pct > 2147483647
                  \<or> minlen > 2147483647 \<or> maxlen > 2147483647
               then Out_of_range
               else Report contents sz pct minlen maxlen)"

section \<open>Keys up to comparison\<close>

definition fold_byte :: "hash_cmp \<Rightarrow> byte \<Rightarrow> byte" where
  "fold_byte c a = (case c of Casecmp \<Rightarrow> if a < 128 then lower a else a | Memcmp \<Rightarrow> a)"

definition key_of :: "hash_cmp \<Rightarrow> byte list \<Rightarrow> nat \<Rightarrow> byte list" where
  "key_of c key n = map (fold_byte c) (take n key)"

lemma length_key_of: "n \<le> length key \<Longrightarrow> length (key_of c key n) = n"
  by (simp add: key_of_def)

lemma key_of_eq_iff:
  assumes "n \<le> length a" "n \<le> length b"
  shows "key_of c a n = key_of c b n \<longleftrightarrow> (\<forall>j < n. fold_byte c (a ! j) = fold_byte c (b ! j))"
  using assms by (auto simp: key_of_def list_eq_iff_nth_eq)

lemma casecmp_loop_spec:
  assumes "i + n \<le> length s" "i + n \<le> length t"
  shows "\<exists>r. casecmp_loop s t i n = Ret r
    \<and> (r = 0 \<longleftrightarrow> (\<forall>j. i \<le> j \<and> j < i + n \<longrightarrow> fold_byte Casecmp (s ! j) = fold_byte Casecmp (t ! j)))"
  using assms
proof (induction n arbitrary: i)
  case (Suc n)
  obtain r where r: "casecmp_loop s t (i + 1) n = Ret r"
      "r = 0 \<longleftrightarrow> (\<forall>j. i + 1 \<le> j \<and> j < i + 1 + n \<longrightarrow> fold_byte Casecmp (s ! j) = fold_byte Casecmp (t ! j))"
    using Suc.IH [of "i + 1"] Suc.prems by auto
  have lt: "i < length s" "i < length t" using Suc.prems by auto
  show ?case
  proof (cases "fold_byte Casecmp (s ! i) = fold_byte Casecmp (t ! i)")
    case True
    then have "casecmp_loop s t i (Suc n) = casecmp_loop s t (i + 1) n"
      using lt by (simp add: fold_byte_def Let_def)
    then show ?thesis using r True unfolding all_from_Suc by auto
  next
    case False
    then show ?thesis using lt unfolding all_from_Suc by (auto simp: fold_byte_def Let_def)
  qed
qed auto

lemma memcmp_loop_spec:
  assumes "i + n \<le> length s" "i + n \<le> length t"
  shows "\<exists>r. memcmp_loop s t i n = Ret r \<and> (r = 0 \<longleftrightarrow> (\<forall>j. i \<le> j \<and> j < i + n \<longrightarrow> s ! j = t ! j))"
  using assms
proof (induction n arbitrary: i)
  case (Suc n)
  obtain r where r: "memcmp_loop s t (i + 1) n = Ret r"
      "r = 0 \<longleftrightarrow> (\<forall>j. i + 1 \<le> j \<and> j < i + 1 + n \<longrightarrow> s ! j = t ! j)"
    using Suc.IH [of "i + 1"] Suc.prems by auto
  have lt: "i < length s" "i < length t" using Suc.prems by auto
  show ?case
  proof (cases "s ! i = t ! i")
    case True
    then show ?thesis using r lt unfolding all_from_Suc by auto
  next
    case False
    then show ?thesis using lt unfolding all_from_Suc by auto
  qed
qed auto

lemma key_cmp_spec:
  assumes "n \<le> length a" "n \<le> length b"
  shows "\<exists>r. key_cmp c a b n = Ret r \<and> (r = 0 \<longleftrightarrow> key_of c a n = key_of c b n)"
proof (cases c)
  case Casecmp
  then show ?thesis
    using casecmp_loop_spec [of 0 n a b] assms by (auto simp: key_cmp_def casecmp_def key_of_eq_iff)
next
  case Memcmp
  then show ?thesis
    using memcmp_loop_spec [of 0 n a b] assms by (auto simp: key_cmp_def key_of_eq_iff fold_byte_def)
qed

section \<open>Hash values\<close>

definition cmp_of :: "hash_fn \<Rightarrow> hash_cmp" where
  "cmp_of f = (if f = Do_case_hash then Casecmp else Memcmp)"

definition key_ok :: "hash_fn \<Rightarrow> byte list \<Rightarrow> nat \<Rightarrow> bool" where
  "key_ok f key n \<longleftrightarrow> 0 < n \<and> n \<le> length key \<and> (f = Do_number_hash \<or> f = Do_ip4_hash \<longrightarrow> 4 \<le> n)"

lemma case_hash_loop_ret: "k + n \<le> length s \<Longrightarrow> \<exists>a. case_hash_loop s k n acc = Ret a"
  by (induction n arbitrary: k acc) (auto simp: Let_def)

lemma string_hash_loop_ret: "k + n \<le> length s \<Longrightarrow> \<exists>a. string_hash_loop s k n acc = Ret a"
  by (induction n arbitrary: k acc) auto

lemma id_hash_loop_ret: "k + 3 * n \<le> length s \<Longrightarrow> \<exists>a. id_hash_loop s k n acc = Ret a"
  by (induction n arbitrary: k acc) auto

lemma umod_ret: "0 < sz \<Longrightarrow> umod a sz = Ret (unat a mod sz)"
  by (simp add: umod_def)

lemma run_hash_range:
  assumes "key_ok f key n" "0 < sz"
  shows "\<exists>i < sz. run_hash f key n sz = Ret i"
proof (cases f)
  case Do_case_hash
  then show ?thesis
    using case_hash_loop_ret [of 0 n key 0] assms by (auto simp: run_hash_def do_case_hash_def key_ok_def umod_ret)
next
  case Do_string_hash
  then show ?thesis
    using string_hash_loop_ret [of 0 n key 0] assms by (auto simp: run_hash_def do_string_hash_def key_ok_def umod_ret)
next
  case Do_id_hash
  have "n mod 3 + 3 * (n div 3) = n" by simp
  then have loop: "\<exists>a. id_hash_loop key (n mod 3) (n div 3) acc = Ret a" for acc
    using assms by (intro id_hash_loop_ret) (simp add: key_ok_def)
  have "n mod 3 \<le> n" by simp
  then have rds: "rd key k = Ret (key ! k)" if "k < n mod 3" for k
    using assms that unfolding key_ok_def by (intro rd_in) linarith
  consider "n mod 3 = 0" | "n mod 3 = 1" | "n mod 3 = 2" by linarith
  then show ?thesis
  proof cases
    case 1
    then obtain a where "id_hash_loop key 0 (n div 3) 0 = Ret a" using loop by metis
    then show ?thesis using 1 Do_id_hash assms by (simp add: run_hash_def do_id_hash_def key_ok_def umod_ret)
  next
    case 2
    then obtain a where "id_hash_loop key 1 (n div 3) (ucast (key ! 0)) = Ret a" using loop by metis
    then show ?thesis using 2 Do_id_hash assms rds by (simp add: run_hash_def do_id_hash_def key_ok_def umod_ret)
  next
    case 3
    then obtain a where "id_hash_loop key 2 (n div 3) (push_bit 8 (ucast (key ! 0)) XOR ucast (key ! 1)) = Ret a"
      using loop by metis
    then show ?thesis using 3 Do_id_hash assms rds by (simp add: run_hash_def do_id_hash_def key_ok_def umod_ret)
  qed
next
  case Do_number_hash
  then show ?thesis using assms by (simp add: run_hash_def do_number_hash_def key_ok_def rdn_def umod_ret)
next
  case Do_ip4_hash
  then show ?thesis using assms by (simp add: run_hash_def do_ip4_hash_def key_ok_def rdn_def umod_ret)
qed

lemma case_hash_loop_cong:
  assumes "k + n \<le> length s" "k + n \<le> length t"
    and "\<forall>j. k \<le> j \<and> j < k + n \<longrightarrow> fold_byte Casecmp (s ! j) = fold_byte Casecmp (t ! j)"
  shows "case_hash_loop s k n acc = case_hash_loop t k n acc"
  using assms
proof (induction n arbitrary: k acc)
  case (Suc n)
  then have eq: "fold_byte Casecmp (s ! k) = fold_byte Casecmp (t ! k)"
    "\<forall>j. k + 1 \<le> j \<and> j < k + 1 + n \<longrightarrow> fold_byte Casecmp (s ! j) = fold_byte Casecmp (t ! j)"
    unfolding all_from_Suc by auto
  show ?case
    using Suc.IH [OF _ _ eq(2)] Suc.prems(1,2) eq(1) by (simp add: fold_byte_def Let_def)
qed simp

lemma string_hash_loop_take:
  assumes "k + n \<le> m" "m \<le> length s"
  shows "string_hash_loop (take m s) k n acc = string_hash_loop s k n acc"
  using assms by (induction n arbitrary: k acc) auto

lemma id_hash_loop_take:
  assumes "k + 3 * n \<le> m" "m \<le> length s"
  shows "id_hash_loop (take m s) k n acc = id_hash_loop s k n acc"
  using assms by (induction n arbitrary: k acc) auto

lemma do_id_hash_take:
  assumes "n \<le> length s"
  shows "do_id_hash (take n s) n sz = do_id_hash s n sz"
proof -
  have m: "n mod 3 + 3 * (n div 3) = n" by simp
  have loop: "id_hash_loop (take n s) (n mod 3) (n div 3) acc = id_hash_loop s (n mod 3) (n div 3) acc" for acc
    by (rule id_hash_loop_take) (use m assms in auto)
  have rds: "rd (take n s) k = rd s k" if "k < n mod 3" for k
  proof -
    have "k < n" using that m by linarith
    then show ?thesis using assms by simp
  qed
  consider "n mod 3 = 0" | "n mod 3 = 1" | "n mod 3 = 2" by linarith
  then show ?thesis
    by cases (use loop rds in \<open>simp_all add: do_id_hash_def bindC_assoc\<close>)
qed

text \<open>The hash value depends only on what the comparison sees.\<close>

lemma run_hash_cong:
  assumes ok: "key_ok f a n" "key_ok f b n" and eq: "key_of (cmp_of f) a n = key_of (cmp_of f) b n"
  shows "run_hash f a n sz = run_hash f b n sz"
proof (cases "f = Do_case_hash")
  case True
  then have "case_hash_loop a 0 n 0 = case_hash_loop b 0 n 0"
    using ok eq by (intro case_hash_loop_cong) (auto simp: cmp_of_def key_ok_def key_of_eq_iff)
  then show ?thesis using True by (simp add: run_hash_def do_case_hash_def)
next
  case False
  have id: "map (fold_byte Memcmp) xs = xs" for xs by (induction xs) (auto simp: fold_byte_def)
  then have t: "take n a = take n b" using eq False by (simp add: cmp_of_def key_of_def)
  have l: "n \<le> length a" "n \<le> length b" using ok by (auto simp: key_ok_def)
  have "string_hash_loop a 0 n 0 = string_hash_loop b 0 n 0" "do_id_hash a n sz = do_id_hash b n sz"
    using string_hash_loop_take [of 0 n n a 0] string_hash_loop_take [of 0 n n b 0]
      do_id_hash_take [OF l(1), of sz] do_id_hash_take [OF l(2), of sz] t l by simp_all
  moreover have "4 \<le> n \<Longrightarrow> rdn a 0 4 = rdn b 0 4"
    using t l by (simp add: rdn_def) (metis min.absorb1 take_take)
  ultimately show ?thesis
    using False ok
    by (cases f) (auto simp: run_hash_def do_string_hash_def do_number_hash_def do_ip4_hash_def key_ok_def)
qed

section \<open>Tables as stacks of values\<close>

text \<open>
  Adding does not look for an older entry with the same key, and deleting removes the entry
  added last: a table maps each key to a stack of values.
\<close>

definition bkey :: "'v hash_table \<Rightarrow> 'v hash_bucket \<Rightarrow> byte list" where
  "bkey t b = key_of (cmp_t t) (name_b b) (len_b b)"

definition stack :: "'v hash_table \<Rightarrow> byte list \<Rightarrow> 'v option list" where
  "stack t k = map value_b (filter (\<lambda>b. bkey t b = k) (concat (buckets t)))"

definition table_inv :: "hash_fn \<Rightarrow> 'v hash_table \<Rightarrow> bool" where
  "table_inv f t \<longleftrightarrow> do_hash t = f \<and> cmp_t t = cmp_of f \<and> 0 < hash_count t
     \<and> length (buckets t) = hash_count t
     \<and> (\<forall>i < hash_count t. \<forall>b \<in> set (buckets t ! i).
          key_ok f (name_b b) (len_b b) \<and> run_hash f (name_b b) (len_b b) (hash_count t) = Ret i)"

lemma filter_concat_single:
  assumes "i < length xs" "\<And>j. j < length xs \<Longrightarrow> j \<noteq> i \<Longrightarrow> filter P (xs ! j) = []"
  shows "filter P (concat xs) = filter P (xs ! i)"
  using assms
proof (induction xs arbitrary: i)
  case (Cons x xs)
  show ?case
  proof (cases i)
    case 0
    then have "filter P (xs ! j) = []" if "j < length xs" for j using Cons.prems(2) [of "Suc j"] that by simp
    then have "\<forall>y \<in> set xs. filter P y = []" by (auto simp: in_set_conv_nth)
    then have "filter P (concat xs) = []" by (auto simp: filter_empty_conv)
    then show ?thesis using 0 by simp
  next
    case (Suc k)
    then have "filter P x = []" using Cons.prems(2) [of 0] by simp
    moreover have "filter P (concat xs) = filter P (xs ! k)"
      using Cons.IH [of k] Cons.prems(1) Cons.prems(2) [of "Suc _"] Suc by simp
    ultimately show ?thesis using Suc by simp
  qed
qed simp

lemma same_key_same_bucket:
  assumes inv: "table_inv f t" and ok: "key_ok f key n" and i: "run_hash f key n (hash_count t) = Ret i"
    and j: "j < hash_count t" "b \<in> set (buckets t ! j)" "bkey t b = key_of (cmp_of f) key n"
  shows "j = i"
proof -
  have b: "key_ok f (name_b b) (len_b b)" "run_hash f (name_b b) (len_b b) (hash_count t) = Ret j"
    "cmp_t t = cmp_of f" using inv j by (auto simp: table_inv_def)
  have k: "key_of (cmp_of f) (name_b b) (len_b b) = key_of (cmp_of f) key n"
    using j(3) b(3) by (simp add: bkey_def)
  then have "len_b b = n"
    using length_key_of [of "len_b b" "name_b b" "cmp_of f"] length_key_of [of n key "cmp_of f"] b(1) ok
    by (simp add: key_ok_def)
  then have "run_hash f (name_b b) (len_b b) (hash_count t) = run_hash f key n (hash_count t)"
    using run_hash_cong [of f "name_b b" n key] b(1) ok k by simp
  with b(2) i show ?thesis by simp
qed

lemma stack_bucket:
  assumes "table_inv f t" "key_ok f key n" "run_hash f key n (hash_count t) = Ret i" "i < hash_count t"
  shows "stack t (key_of (cmp_of f) key n)
    = map value_b (filter (\<lambda>b. bkey t b = key_of (cmp_of f) key n) (buckets t ! i))"
proof -
  have "filter (\<lambda>b. bkey t b = key_of (cmp_of f) key n) (buckets t ! j) = []"
    if "j < length (buckets t)" "j \<noteq> i" for j
    using same_key_same_bucket [OF assms(1-3)] that assms(1) by (auto simp: filter_empty_conv table_inv_def)
  then show ?thesis
    unfolding stack_def using filter_concat_single [of i "buckets t"] assms(1,4) by (simp add: table_inv_def)
qed

lemma lookup_in_chain_spec:
  assumes "\<forall>b \<in> set chain. len_b b \<le> length (name_b b)" "n \<le> length key"
  shows "lookup_in_chain c key n chain
    = Ret (find (\<lambda>b. key_of c (name_b b) (len_b b) = key_of c key n) chain)"
  using assms
proof (induction chain)
  case (Cons b bs)
  show ?case
  proof (cases "len_b b = n")
    case True
    then obtain r where "key_cmp c (name_b b) key n = Ret r" "r = 0 \<longleftrightarrow> key_of c (name_b b) n = key_of c key n"
      using key_cmp_spec [of n "name_b b" key c] Cons.prems by auto
    then show ?thesis using Cons True by simp
  next
    case False
    then have "key_of c (name_b b) (len_b b) \<noteq> key_of c key n"
      using length_key_of [of "len_b b" "name_b b" c] length_key_of [of n key c] Cons.prems by auto
    then show ?thesis using Cons False by simp
  qed
qed simp

lemma delete_from_chain_spec:
  fixes c :: hash_cmp and chain :: "'v hash_bucket list"
  assumes "\<forall>b \<in> set chain. 0 < len_b b \<and> len_b b \<le> length (name_b b)" "n \<le> length key"
  defines "P \<equiv> \<lambda>b. key_of c (name_b b) (len_b b) = key_of c key n"
  shows "\<exists>rest. delete_from_chain c key n chain = Ret (rest, find P chain) \<and> set rest \<subseteq> set chain
    \<and> filter P rest = tl (filter P chain) \<and> (\<forall>Q. (\<forall>b. Q b \<longrightarrow> \<not> P b) \<longrightarrow> filter Q rest = filter Q chain)"
  using assms(1)
proof (induction chain)
  case (Cons b bs)
  then obtain rest where rest: "delete_from_chain c key n bs = Ret (rest, find P bs)" "set rest \<subseteq> set bs"
      "filter P rest = tl (filter P bs)" "\<And>Q. \<forall>b. Q b \<longrightarrow> \<not> P b \<Longrightarrow> filter Q rest = filter Q bs"
    by auto
  have m: "(if len_b b = n then bindC (key_cmp c (name_b b) key n) (\<lambda>r. Ret (r = 0)) else Ret False) = Ret (P b)"
  proof (cases "len_b b = n")
    case True
    then show ?thesis
      using key_cmp_spec [of n "name_b b" key c] Cons.prems assms(2) by (auto simp: P_def)
  next
    case False
    then show ?thesis
      using length_key_of [of "len_b b" "name_b b" c] length_key_of [of n key c] Cons.prems assms(2)
      by (auto simp: P_def)
  qed
  have step: "delete_from_chain c key n (b # bs) = (if P b then Ret (bs, Some b) else Ret (b # rest, find P bs))"
    using Cons.prems m rest(1) by simp
  show ?case
  proof (cases "P b")
    case True
    then show ?thesis unfolding step by auto
  next
    case False
    then have "filter Q (b # rest) = filter Q (b # bs)" if "\<forall>b. Q b \<longrightarrow> \<not> P b" for Q
      using rest(4) [OF that] by simp
    then show ?thesis unfolding step using False rest(2,3) by (intro exI [of _ "b # rest"]) auto
  qed
qed (simp add: P_def)

lemma find_filter: "find P xs = (case filter P xs of [] \<Rightarrow> None | x # _ \<Rightarrow> Some x)"
  by (induction xs) auto

section \<open>An interface of key stores\<close>

text \<open>
  What the clients of a table rely on: every operation returns, and acts on the stack of its
  key only. \<open>arg\<close> is what the caller passes as the key, \<open>key\<close> the key it stands for. An
  addition also has the outcome of the allocation it may need; the abstract state is the number
  of buckets on the free list and the stack of every key, and an addition that gets neither a
  free bucket nor memory changes nothing.
\<close>

datatype ('a, 'v) store_op = Add_op 'a 'v bool | Delete_op 'a

fun run_store ::
  "('a \<Rightarrow> 'v \<Rightarrow> bool \<Rightarrow> 't \<Rightarrow> 't cres) \<Rightarrow> ('a \<Rightarrow> 't \<Rightarrow> 't cres) \<Rightarrow> ('a, 'v) store_op list \<Rightarrow> 't \<Rightarrow> 't cres" where
  "run_store add delete [] t = Ret t"
| "run_store add delete (Add_op a v alloc # ops) t = bindC (add a v alloc t) (run_store add delete ops)"
| "run_store add delete (Delete_op a # ops) t = bindC (delete a t) (run_store add delete ops)"

fun op_arg :: "('a, 'v) store_op \<Rightarrow> 'a" where
  "op_arg (Add_op a v alloc) = a"
| "op_arg (Delete_op a) = a"

fun apply_op :: "('a \<Rightarrow> 'k) \<Rightarrow> ('a, 'v) store_op \<Rightarrow> nat \<times> ('k \<Rightarrow> 'v list) \<Rightarrow> nat \<times> ('k \<Rightarrow> 'v list)" where
  "apply_op key (Add_op a v alloc) (n, m) =
     (if n = 0 \<and> \<not> alloc then (n, m)
      else (if n = 0 then 126 else n - 1, m(key a := v # m (key a))))"
| "apply_op key (Delete_op a) (n, m) =
     (if m (key a) = [] then n else n + 1, m(key a := tl (m (key a))))"

locale key_store =
  fixes inv :: "'t \<Rightarrow> bool" and abs :: "'t \<Rightarrow> nat \<times> ('k \<Rightarrow> 'v list)"
    and ok :: "'a \<Rightarrow> bool" and key :: "'a \<Rightarrow> 'k"
    and add :: "'a \<Rightarrow> 'v \<Rightarrow> bool \<Rightarrow> 't \<Rightarrow> 't cres" and delete :: "'a \<Rightarrow> 't \<Rightarrow> 't cres"
    and look :: "'a \<Rightarrow> 't \<Rightarrow> 'v option cres"
  assumes add_law: "inv t \<Longrightarrow> ok a
      \<Longrightarrow> \<exists>t'. add a v alloc t = Ret t' \<and> inv t' \<and> abs t' = apply_op key (Add_op a v alloc) (abs t)"
    and delete_law: "inv t \<Longrightarrow> ok a
      \<Longrightarrow> \<exists>t'. delete a t = Ret t' \<and> inv t' \<and> abs t' = apply_op key (Delete_op a) (abs t)"
    and look_law: "inv t \<Longrightarrow> ok a
      \<Longrightarrow> look a t = Ret (case snd (abs t) (key a) of [] \<Rightarrow> None | v # _ \<Rightarrow> Some v)"
begin

lemma run_spec:
  assumes "inv t" "\<forall>p \<in> set ops. ok (op_arg p)"
  shows "\<exists>t'. run_store add delete ops t = Ret t' \<and> inv t' \<and> abs t' = fold (apply_op key) ops (abs t)"
  using assms
proof (induction ops arbitrary: t)
  case (Cons p ops)
  have "\<exists>t1. run_store add delete (p # ops) t = run_store add delete ops t1 \<and> inv t1 \<and> abs t1 = apply_op key p (abs t)"
  proof (cases p)
    case (Add_op a v alloc)
    then show ?thesis using add_law [OF Cons.prems(1), of a v alloc] Cons.prems(2) by auto
  next
    case (Delete_op a)
    then show ?thesis using delete_law [OF Cons.prems(1), of a] Cons.prems(2) by auto
  qed
  then obtain t1 where t1: "run_store add delete (p # ops) t = run_store add delete ops t1" "inv t1"
      "abs t1 = apply_op key p (abs t)" by blast
  show ?case using Cons.IH [OF t1(2)] Cons.prems(2) t1(1,3) by auto
qed simp

lemma look_after_run:
  assumes "inv t" "\<forall>p \<in> set ops. ok (op_arg p)" "ok a"
  shows "bindC (run_store add delete ops t) (look a)
    = Ret (case snd (fold (apply_op key) ops (abs t)) (key a) of [] \<Rightarrow> None | v # _ \<Rightarrow> Some v)"
  using run_spec [OF assms(1,2)] look_law [OF _ assms(3)] by auto

end

section \<open>The hash table as a key store\<close>

lemma filter_concat_upd:
  assumes "i < length xs" "filter P x = filter P (xs ! i)"
  shows "filter P (concat (xs[i := x])) = filter P (concat xs)"
  using assms
proof (induction xs arbitrary: i)
  case (Cons y ys)
  then show ?case by (cases i) auto
qed simp

lemma upd_bucket:
  assumes inv: "table_inv f t" and ok: "key_ok f key n" and i: "run_hash f key n (hash_count t) = Ret i" "i < hash_count t"
    and chain: "\<forall>b \<in> set chain. key_ok f (name_b b) (len_b b) \<and> run_hash f (name_b b) (len_b b) (hash_count t) = Ret i"
    and here: "map value_b (filter (\<lambda>b. bkey t b = key_of (cmp_of f) key n) chain) = s"
    and other: "\<And>k. k \<noteq> key_of (cmp_of f) key n
      \<Longrightarrow> filter (\<lambda>b. bkey t b = k) chain = filter (\<lambda>b. bkey t b = k) (buckets t ! i)"
  shows "table_inv f (t\<lparr>buckets := (buckets t)[i := chain]\<rparr>)"
    and "stack (t\<lparr>buckets := (buckets t)[i := chain]\<rparr>) = (stack t)(key_of (cmp_of f) key n := s)"
proof -
  let ?t = "t\<lparr>buckets := (buckets t)[i := chain]\<rparr>" and ?K = "key_of (cmp_of f) key n"
  show inv': "table_inv f ?t" using inv chain i(2) by (auto simp: table_inv_def nth_upd)
  have "stack ?t k = ((stack t)(?K := s)) k" for k
  proof (cases "k = ?K")
    case True
    then show ?thesis
      using stack_bucket [OF inv' ok] i here inv by (simp add: bkey_def table_inv_def)
  next
    case False
    then show ?thesis
      using filter_concat_upd [of i "buckets t" "\<lambda>b. bkey t b = k" chain] other [OF False] i(2) inv
      by (simp add: stack_def bkey_def table_inv_def)
  qed
  then show "stack ?t = (stack t)(?K := s)" by blast
qed

lemma bucket_keys_ok:
  assumes "table_inv f t" "i < hash_count t" "b \<in> set (buckets t ! i)"
  shows "key_ok f (name_b b) (len_b b)" "run_hash f (name_b b) (len_b b) (hash_count t) = Ret i"
  using assms by (auto simp: table_inv_def)

text \<open>The free buckets hold no value. It is kept by tables that dereference what they delete.\<close>

definition clean :: "'v hash_state \<Rightarrow> bool" where
  "clean h \<longleftrightarrow> (\<forall>v \<in> set (free_hash_buckets h). v = None)"

definition refs_paired :: "'v hash_state \<Rightarrow> 'v hash_table \<Rightarrow> bool" where
  "refs_paired h t \<longleftrightarrow> (referencer t \<longrightarrow> dereferencer t \<and> clean h)"

fun store_inv :: "hash_fn \<Rightarrow> 'v hash_state \<times> 'v hash_table option \<Rightarrow> bool" where
  "store_inv f (h, None) = False"
| "store_inv f (h, Some t) = (table_inv f t \<and> refs_paired h t)"

fun store_abs :: "'v hash_state \<times> 'v hash_table option \<Rightarrow> nat \<times> (byte list \<Rightarrow> 'v option list)" where
  "store_abs (h, None) = (length (free_hash_buckets h), \<lambda>_. [])"
| "store_abs (h, Some t) = (length (free_hash_buckets h), stack t)"

fun arg_ok :: "hash_fn \<Rightarrow> byte list \<times> nat \<Rightarrow> bool" where
  "arg_ok f (key, len) = (case key_length f key len of Ret n \<Rightarrow> key_ok f key n | _ \<Rightarrow> False)"

fun arg_key :: "hash_fn \<Rightarrow> byte list \<times> nat \<Rightarrow> byte list" where
  "arg_key f (key, len) = (case key_length f key len of Ret n \<Rightarrow> key_of (cmp_of f) key n | _ \<Rightarrow> [])"

fun table_add ::
  "byte list \<times> nat \<Rightarrow> 'v option \<Rightarrow> bool \<Rightarrow> 'v hash_state \<times> 'v hash_table option
    \<Rightarrow> ('v hash_state \<times> 'v hash_table option) cres" where
  "table_add (key, len) v alloc (h, table) = add_hash alloc h table key len v"

fun table_delete ::
  "byte list \<times> nat \<Rightarrow> 'v hash_state \<times> 'v hash_table option
    \<Rightarrow> ('v hash_state \<times> 'v hash_table option) cres" where
  "table_delete (key, len) (h, table) = delete_hash_entry h table key len"

fun table_look ::
  "byte list \<times> nat \<Rightarrow> 'v hash_state \<times> 'v hash_table option \<Rightarrow> 'v option option cres" where
  "table_look (key, len) (h, table) =
     bindC (hash_lookup h None table key len) (\<lambda>(_, found, v). Ret (if found then Some v else None))"

lemma arg_okE:
  assumes "arg_ok f a" "table_inv f t"
  obtains key len n i where "a = (key, len)" "key_length f key len = Ret n" "key_ok f key n"
    "arg_key f a = key_of (cmp_of f) key n" "run_hash f key n (hash_count t) = Ret i" "i < hash_count t"
    "i < length (buckets t)" "do_hash t = f" "cmp_t t = cmp_of f"
proof -
  obtain key len where a: "a = (key, len)" by (cases a)
  with assms obtain n where n: "key_length f key len = Ret n" "key_ok f key n" by (auto split: cres.splits)
  obtain i where "i < hash_count t" "run_hash f key n (hash_count t) = Ret i"
    using run_hash_range [OF n(2), of "hash_count t"] assms(2) by (auto simp: table_inv_def)
  then show ?thesis using that [OF a n] a n assms(2) by (simp add: table_inv_def)
qed

text \<open>Both the bucket taken from the free list and the bucket put back keep the pairing.\<close>

lemma new_bucket_spec:
  assumes "refs_paired h t"
  shows "case new_hash_bucket alloc h of
      None \<Rightarrow> free_hash_buckets h = [] \<and> \<not> alloc
    | Some (old, h1) \<Rightarrow> (free_hash_buckets h \<noteq> [] \<or> alloc) \<and> refs_paired h1 t \<and> (referencer t \<longrightarrow> old = None)
        \<and> refs h1 = refs h
        \<and> length (free_hash_buckets h1) = (if length (free_hash_buckets h) = 0 then 126
            else length (free_hash_buckets h) - 1)"
  using assms by (auto simp: new_hash_bucket_def refs_paired_def clean_def split: list.splits)

lemma reference_clear: "reference None p h = (p, add_ref p 1 h)"
  by (simp add: reference_def add_ref_def)

lemma free_list_add_ref [simp]: "free_hash_buckets (add_ref p d h) = free_hash_buckets h"
  by (simp add: add_ref_def split: option.splits)


lemma refs_paired_add_ref [simp]: "refs_paired (add_ref p d h) t = refs_paired h t"
  by (simp add: refs_paired_def clean_def)

lemma refs_paired_buckets [simp]: "refs_paired h (t\<lparr>buckets := bs\<rparr>) = refs_paired h t"
  by (simp add: refs_paired_def)

lemma add_bucket_spec:
  assumes "refs_paired h t" "key_length (do_hash t) key len = Ret n"
    "run_hash (do_hash t) key n (hash_count t) = Ret i" "i < length (buckets t)"
  shows "if free_hash_buckets h = [] \<and> \<not> alloc then add_hash alloc h (Some t) key len v = Ret (h, Some t)
    else \<exists>h1. add_hash alloc h (Some t) key len v
        = Ret (if referencer t then add_ref v 1 h1 else h1,
            Some (t\<lparr>buckets := (buckets t)[i := \<lparr>name_b = key, len_b = n, value_b = v\<rparr> # buckets t ! i]\<rparr>))
      \<and> refs_paired h1 t \<and> refs h1 = refs h
      \<and> length (free_hash_buckets h1) = (if length (free_hash_buckets h) = 0 then 126
            else length (free_hash_buckets h) - 1)"
  using new_bucket_spec [OF assms(1), of alloc] assms(2-4)
  by (auto simp: add_hash_def reference_clear Let_def split: option.splits)

lemma free_entry_spec:
  assumes "refs_paired h t"
  shows "refs_paired (free_entry t bp h) t"
    "length (free_hash_buckets (free_entry t bp h)) = Suc (length (free_hash_buckets h))"
    "dereferencer t \<Longrightarrow> refs (free_entry t bp h) = refs (add_ref (value_b bp) (- 1) h)"
  using assms
  by (auto simp: free_entry_def refs_paired_def clean_def free_hash_bucket_def dereference_def add_ref_def)

lemma table_add_law:
  assumes inv: "store_inv f st" and "arg_ok f a"
  shows "\<exists>st'. table_add a v alloc st = Ret st' \<and> store_inv f st'
    \<and> store_abs st' = apply_op (arg_key f) (Add_op a v alloc) (store_abs st)"
proof -
  obtain h t where st: "st = (h, Some t)" "table_inv f t" "refs_paired h t"
    using inv by (cases st; cases "snd st") auto
  obtain key len n i where a: "a = (key, len)" "key_length f key len = Ret n" "key_ok f key n"
    "arg_key f a = key_of (cmp_of f) key n" "run_hash f key n (hash_count t) = Ret i" "i < hash_count t"
    "i < length (buckets t)" "do_hash t = f" "cmp_t t = cmp_of f" using arg_okE [OF assms(2) st(2)] .
  let ?b = "\<lparr>name_b = key, len_b = n, value_b = v\<rparr>"
  let ?t = "t\<lparr>buckets := (buckets t)[i := ?b # buckets t ! i]\<rparr>"
  have "table_inv f ?t \<and> stack ?t = (stack t)(arg_key f a := v # stack t (arg_key f a))"
    unfolding a(4) stack_bucket [OF st(2) a(3,5,6)]
    using upd_bucket [OF st(2) a(3,5,6), of "?b # buckets t ! i"] bucket_keys_ok [OF st(2) a(6)] a(3,5,9)
    by (auto simp: bkey_def)
  then show ?thesis
    using add_bucket_spec [OF st(3), of key len n i alloc v] a(1,2,5,7,8) st
    by (auto split: if_splits)
qed

lemma table_delete_law:
  assumes inv: "store_inv f st" and "arg_ok f a"
  shows "\<exists>st'. table_delete a st = Ret st' \<and> store_inv f st'
    \<and> store_abs st' = apply_op (arg_key f) (Delete_op a) (store_abs st)"
proof -
  obtain h t where st: "st = (h, Some t)" "table_inv f t" "refs_paired h t"
    using inv by (cases st; cases "snd st") auto
  obtain key len n i where a: "a = (key, len)" "key_length f key len = Ret n" "key_ok f key n"
    "arg_key f a = key_of (cmp_of f) key n" "run_hash f key n (hash_count t) = Ret i" "i < hash_count t"
    "i < length (buckets t)" "do_hash t = f" "cmp_t t = cmp_of f" using arg_okE [OF assms(2) st(2)] .
  let ?P = "\<lambda>b. bkey t b = key_of (cmp_of f) key n"
  obtain rest where rest: "delete_from_chain (cmp_of f) key n (buckets t ! i) = Ret (rest, find ?P (buckets t ! i))"
      "set rest \<subseteq> set (buckets t ! i)" "filter ?P rest = tl (filter ?P (buckets t ! i))"
      "\<forall>Q. (\<forall>b. Q b \<longrightarrow> \<not> ?P b) \<longrightarrow> filter Q rest = filter Q (buckets t ! i)"
    using delete_from_chain_spec [of "buckets t ! i" n key "cmp_of f"] bucket_keys_ok(1) [OF st(2) a(6)] a(3,9)
    by (auto simp: key_ok_def bkey_def)
  let ?t = "t\<lparr>buckets := (buckets t)[i := rest]\<rparr>"
  have "\<exists>h'. table_delete a st = Ret (h', Some ?t) \<and> refs_paired h' t
      \<and> length (free_hash_buckets h') = (if stack t (arg_key f a) = [] then length (free_hash_buckets h)
          else length (free_hash_buckets h) + 1)"
    unfolding a(4) stack_bucket [OF st(2) a(3,5,6)]
    using a st rest(1) free_entry_spec [OF st(3)]
    by (simp add: delete_hash_entry_def find_filter split: list.splits)
  moreover have "table_inv f ?t \<and> stack ?t = (stack t)(arg_key f a := tl (stack t (arg_key f a)))"
  proof -
    have chain: "\<forall>b \<in> set rest. key_ok f (name_b b) (len_b b) \<and> run_hash f (name_b b) (len_b b) (hash_count t) = Ret i"
      using bucket_keys_ok [OF st(2) a(6)] rest(2) by blast
    have here: "map value_b (filter ?P rest) = tl (map value_b (filter ?P (buckets t ! i)))"
      by (simp only: rest(3) map_tl)
    have other: "filter (\<lambda>b. bkey t b = k) rest = filter (\<lambda>b. bkey t b = k) (buckets t ! i)"
      if "k \<noteq> key_of (cmp_of f) key n" for k
    proof -
      have "\<forall>b. bkey t b = k \<longrightarrow> \<not> ?P b" using that by simp
      then show ?thesis by (rule rest(4) [THEN spec, of "\<lambda>b. bkey t b = k", THEN mp])
    qed
    show ?thesis
      unfolding a(4) stack_bucket [OF st(2) a(3,5,6)]
      using upd_bucket [OF st(2) a(3,5,6) chain here other] by blast
  qed
  ultimately show ?thesis using st(1) by auto
qed

lemma table_look_law:
  assumes inv: "store_inv f st" and "arg_ok f a"
  shows "table_look a st = Ret (case snd (store_abs st) (arg_key f a) of [] \<Rightarrow> None | v # _ \<Rightarrow> Some v)"
proof -
  obtain h t where st: "st = (h, Some t)" "table_inv f t" using inv by (cases st; cases "snd st") auto
  obtain key len n i where a: "a = (key, len)" "key_length f key len = Ret n" "key_ok f key n"
    "arg_key f a = key_of (cmp_of f) key n" "run_hash f key n (hash_count t) = Ret i" "i < hash_count t"
    "i < length (buckets t)" "do_hash t = f" "cmp_t t = cmp_of f" using arg_okE [OF assms(2) st(2)] .
  have "lookup_in_chain (cmp_of f) key n (buckets t ! i)
      = Ret (find (\<lambda>b. bkey t b = key_of (cmp_of f) key n) (buckets t ! i))"
    using lookup_in_chain_spec [of "buckets t ! i" n key "cmp_of f"] bucket_keys_ok(1) [OF st(2) a(6)] a(3,9)
    by (auto simp: key_ok_def bkey_def)
  then show ?thesis
    using a st stack_bucket [OF st(2) a(3,5,6)]
    by (simp add: hash_lookup_def reference_clear find_filter split: list.splits)
qed

interpretation hashed: key_store "store_inv f" store_abs "arg_ok f" "arg_key f" table_add table_delete table_look for f
  by unfold_locales (rule table_add_law table_delete_law table_look_law; assumption)+

lemma new_hash_fresh:
  assumes "new_hash True r d sz f = Some t"
  shows "table_inv f t" "stack t = (\<lambda>_. [])"
proof -
  define n where "n = (if sz = 0 then DEFAULT_HASH_SIZE else sz)"
  have n: "0 < n" by (simp add: n_def DEFAULT_HASH_SIZE_def)
  have "new_hash_table True n = Some n" using n by (auto simp: new_hash_table_def le_Suc_eq)
  then have t: "t = \<lparr>hash_count = n, referencer = r, dereferencer = d, cmp_t = cmp_of f, do_hash = f,
      buckets = replicate n []\<rparr>"
    using assms unfolding new_hash_def n_def [symmetric] by (simp add: Let_def cmp_of_def)
  show "table_inv f t" using n by (simp add: t table_inv_def)
  show "stack t = (\<lambda>_. [])" by (rule ext) (simp add: t stack_def)
qed

text \<open>C6: A hash table is a store of stacks. Start from a table made by \<open>new_hash\<close> with any of
  the hash functions and any size, and run additions and deletions with keys of at least one byte
  (four for \<open>do_number_hash\<close> and \<open>do_ip4_hash\<close>), each addition with its own allocation outcome:
  every operation returns, and a lookup then finds the value last added for the key (up to letter
  case with \<open>do_case_hash\<close>) that has not been deleted, or nothing. An addition that finds the free
  list empty and gets no memory is dropped and changes nothing; the free list is tracked to say
  when that is. A table that references its values also dereferences them, and the free buckets
  hold no values at the start, as otherwise a bucket used again keeps its old value.\<close>

theorem hash_table_refines_stacks:
  fixes h :: "'v hash_state"
  assumes "\<forall>p \<in> set ops. arg_ok f (op_arg p)" "arg_ok f a" "ref \<longrightarrow> deref \<and> clean h"
  shows "bindC (run_store table_add table_delete ops (h, new_hash True ref deref sz f)) (table_look a)
    = Ret (case snd (fold (apply_op (arg_key f)) ops (length (free_hash_buckets h), \<lambda>_. [])) (arg_key f a) of
             [] \<Rightarrow> None | v # _ \<Rightarrow> Some v)"
proof -
  obtain t :: "'v hash_table" where t: "new_hash True ref deref sz f = Some t"
    by (simp add: new_hash_def new_hash_table_def Let_def)
  have "referencer t = ref" "dereferencer t = deref" using t by (auto simp: new_hash_def new_hash_table_def Let_def)
  then have "store_inv f (h, Some t)" using assms(3) new_hash_fresh(1) [OF t] by (simp add: refs_paired_def)
  then show ?thesis
    unfolding t using hashed.look_after_run [of f "(h, Some t)" ops a] new_hash_fresh(2) [OF t] assms(1,2) by simp
qed

text \<open>The first addition is dropped for want of memory; the second allocates buckets.\<close>

theorem hash_table_refines_stacks_witness:
  "bindC (run_store table_add table_delete
       [Add_op ([65, 66, 0], 0) (Some 4) False, Add_op ([65, 98, 0], 0) (Some 1) True,
        Add_op ([99, 0], 0) (Some 2) False, Add_op ([97, 98, 0], 0) (Some 3) True, Delete_op ([97, 66, 0], 0)]
       (\<lparr>free_hash_buckets = [], refs = \<lambda>_. 0\<rparr>, new_hash True True True 5 Do_case_hash))
     (table_look ([65, 66, 0], 0)) = Ret (Some (Some (1 :: nat)))"
  by (subst hash_table_refines_stacks)
    (simp_all add: key_length_def find_length_def key_ok_def key_of_def fold_byte_def cmp_of_def lower_def clean_def)

text \<open>C25: Every hash function returns a bucket index below the size of the table and reads only
  inside the key.\<close>

theorem hash_value_in_range:
  assumes "key_ok f key n" "0 < sz"
  shows "\<exists>i < sz. run_hash f key n sz = Ret i"
  using run_hash_range [OF assms] .

theorem hash_value_in_range_witness:
  "\<exists>i < 7. run_hash Do_id_hash [1, 2, 3, 4, 5] 5 7 = Ret i"
  by (rule hash_value_in_range) (simp_all add: key_ok_def)

section \<open>Reference counts\<close>








end
