(* ===== verification/Ns_Name.thy ===== *)
theory Ns_Name
  imports Dhcp_Prelude
begin

text \<open>
  Model of \<open>common/ns_name.c\<close>: domain names between their wire format (RFC 1035, with
  compression pointers) and text. Buffers are byte lists, pointers are indices into them, and
  the end pointers \<open>eom\<close> and \<open>dstlim\<close> are the indices the code computes. A result \<open>-1\<close>
  stands for the error return with \<open>errno\<close> set; the buffer is returned with it as it was left.
\<close>

section \<open>Characters\<close>

definition NS_CMPRSFLGS :: byte where
  "NS_CMPRSFLGS = 0xC0"

definition MAXCDNAME :: nat where
  "MAXCDNAME = 255"

definition special :: "byte \<Rightarrow> bool" where
  "special ch \<longleftrightarrow> ch \<in> {0x22, 0x2E, 0x3B, 0x5C, 0x40, 0x24}"

definition printable :: "byte \<Rightarrow> bool" where
  "printable ch \<longleftrightarrow> ch > 0x20 \<and> ch < 0x7F"

definition mklower :: "byte \<Rightarrow> byte" where
  "mklower ch = (if ch \<ge> 0x41 \<and> ch \<le> 0x5A then ch + 0x20 else ch)"

text \<open>\<open>digits[k]\<close>, and \<open>strchr(digits, c) - digits\<close> for a character that is not NUL.\<close>

definition digit :: "nat \<Rightarrow> byte" where
  "digit k = of_nat (48 + k)"

definition digit_value :: "byte \<Rightarrow> nat option" where
  "digit_value c = (if 48 \<le> c \<and> c \<le> 57 then Some (unat c - 48) else None)"

section \<open>From the wire to text\<close>

text \<open>The inner loop of \<open>MRns_name_ntop\<close>: \<open>Inl\<close> is the error return.\<close>

fun ntop_chars ::
  "byte list \<Rightarrow> nat \<Rightarrow> nat \<Rightarrow> nat \<Rightarrow> byte list \<Rightarrow> nat \<Rightarrow> (byte list + nat \<times> byte list \<times> nat) cres" where
  "ntop_chars src eom 0 cp dst dn = Ret (Inr (cp, dst, dn))"
| "ntop_chars src eom (Suc n) cp dst dn =
     bindC (rd src cp) (\<lambda>c.
     if special c then
       if dn + 1 \<ge> eom then Ret (Inl dst)
       else bindC (wrn dst dn [0x5C, c]) (\<lambda>dst. ntop_chars src eom n (cp + 1) dst (dn + 2))
     else if \<not> printable c then
       if dn + 3 \<ge> eom then Ret (Inl dst)
       else bindC (wrn dst dn [0x5C, digit (unat c div 100), digit (unat c mod 100 div 10), digit (unat c mod 10)])
              (\<lambda>dst. ntop_chars src eom n (cp + 1) dst (dn + 4))
     else
       if dn \<ge> eom then Ret (Inl dst)
       else bindC (wr dst dn c) (\<lambda>dst. ntop_chars src eom n (cp + 1) dst (dn + 1)))"

lemma ntop_chars_cp:
  "ntop_chars src eom n cp dst dn = Ret (Inr (cp', dst', dn')) \<Longrightarrow> cp' = cp + n"
  by (induction n arbitrary: cp dst dn) (auto simp: cres_simps split: if_splits, fastforce+)

function ntop_loop ::
  "byte list \<Rightarrow> nat \<Rightarrow> nat \<Rightarrow> byte list \<Rightarrow> nat \<Rightarrow> (byte list + byte list \<times> nat) cres" where
  "ntop_loop src eom cp dst dn =
     bindC (rd src cp) (\<lambda>n.
     if n = 0 then Ret (Inr (dst, dn))
     else if n AND NS_CMPRSFLGS \<noteq> 0 then Ret (Inl dst)
     else if dn \<noteq> 0 \<and> dn \<ge> eom then Ret (Inl dst)
     else bindC (if dn \<noteq> 0 then bindC (wr dst dn 0x2E) (\<lambda>dst. Ret (dst, dn + 1)) else Ret (dst, dn)) (\<lambda>(dst, dn).
       if dn + unat n \<ge> eom then Ret (Inl dst)
       else bindC (ntop_chars src eom (unat n) (cp + 1) dst dn) (\<lambda>r.
         case r of Inl dst \<Rightarrow> Ret (Inl dst)
         | Inr (cp', dst, dn) \<Rightarrow> ntop_loop src eom cp' dst dn)))"
  by pat_completeness auto
termination
  by (relation "measure (\<lambda>(src, eom, cp, dst, dn). length src - cp)") (auto simp: buf_simps dest: ntop_chars_cp)

declare ntop_loop.simps [simp del]

definition MRns_name_ntop :: "byte list \<Rightarrow> byte list \<Rightarrow> nat \<Rightarrow> (int \<times> byte list) cres" where
  "MRns_name_ntop src dst dstsiz =
     bindC (ntop_loop src dstsiz 0 dst 0) (\<lambda>r.
     case r of Inl dst \<Rightarrow> Ret (- 1, dst)
     | Inr (dst, dn) \<Rightarrow>
         if dn = 0 \<and> dn \<ge> dstsiz then Ret (- 1, dst)
         else bindC (if dn = 0 then bindC (wr dst dn 0x2E) (\<lambda>dst. Ret (dst, dn + 1)) else Ret (dst, dn)) (\<lambda>(dst, dn).
           if dn \<ge> dstsiz then Ret (- 1, dst)
           else bindC (wr dst dn 0) (\<lambda>dst. Ret (int (dn + 1), dst))))"

section \<open>From text to the wire\<close>

text \<open>
  \<open>MRns_name_pton\<close> stores the length of a label when it ends, at index \<open>label\<close>. The first
  argument is the rest of the string from \<open>src\<close> on. The results are those of the source, 1 for
  a fully qualified name.
\<close>

definition pton_end :: "nat \<Rightarrow> byte list \<Rightarrow> nat \<Rightarrow> nat \<Rightarrow> int \<Rightarrow> (int \<times> byte list) cres" where
  "pton_end eom dst c bp rv =
     (if c \<noteq> 0 \<and> bp \<ge> eom then Ret (- 1, dst)
      else bindC (if c \<noteq> 0 then bindC (wr dst bp 0) (\<lambda>dst. Ret (dst, bp + 1)) else Ret (dst, bp)) (\<lambda>(dst, bp).
        if bp > MAXCDNAME then Ret (- 1, dst) else Ret (rv, dst)))"

text \<open>The test for a label that is too big looks at two bits of an \<open>int\<close>.\<close>

definition label_too_big :: "nat \<Rightarrow> bool" where
  "label_too_big c \<longleftrightarrow> c AND 0xC0 \<noteq> 0"

fun pton_loop ::
  "byte list \<Rightarrow> nat \<Rightarrow> byte list \<Rightarrow> nat \<Rightarrow> nat \<Rightarrow> bool \<Rightarrow> (int \<times> byte list) cres" where
  "pton_loop [] eom dst label bp escaped = Undef"
| "pton_loop (c # src) eom dst label bp escaped =
     (if c = 0 then
        let c = bp - label - 1 in
        if label_too_big c then Ret (- 1, dst)
        else if label \<ge> eom then Ret (- 1, dst)
        else bindC (wr dst label (of_nat c)) (\<lambda>dst. pton_end eom dst c bp 0)
      else if escaped then
        (case digit_value c of
           Some n1 \<Rightarrow>
             (case src of [] \<Rightarrow> Undef
              | c2 # src2 \<Rightarrow>
                  (case (if c2 = 0 then None else digit_value c2) of
                     None \<Rightarrow> Ret (- 1, dst)
                   | Some n2 \<Rightarrow>
                       (case src2 of [] \<Rightarrow> Undef
                        | c3 # src3 \<Rightarrow>
                            (case (if c3 = 0 then None else digit_value c3) of
                               None \<Rightarrow> Ret (- 1, dst)
                             | Some n3 \<Rightarrow>
                                 let n = n1 * 100 + n2 * 10 + n3 in
                                 if n > 255 then Ret (- 1, dst)
                                 else if bp \<ge> eom then Ret (- 1, dst)
                                 else bindC (wr dst bp (of_nat n)) (\<lambda>dst.
                                        pton_loop src3 eom dst label (bp + 1) False)))))
         | None \<Rightarrow>
             if bp \<ge> eom then Ret (- 1, dst)
             else bindC (wr dst bp c) (\<lambda>dst. pton_loop src eom dst label (bp + 1) False))
      else if c = 0x5C then pton_loop src eom dst label bp True
      else if c = 0x2E then
        let n = bp - label - 1 in
        if label_too_big n then Ret (- 1, dst)
        else if label \<ge> eom then Ret (- 1, dst)
        else bindC (wr dst label (of_nat n)) (\<lambda>dst.
          case src of [] \<Rightarrow> Undef
          | nxt # _ \<Rightarrow>
              if nxt = 0 then pton_end eom dst n bp 1
              else if n = 0 \<or> nxt = 0x2E then Ret (- 1, dst)
              else pton_loop src eom dst bp (bp + 1) False)
      else if bp \<ge> eom then Ret (- 1, dst)
      else bindC (wr dst bp c) (\<lambda>dst. pton_loop src eom dst label (bp + 1) False))"

definition MRns_name_pton :: "byte list \<Rightarrow> byte list \<Rightarrow> nat \<Rightarrow> (int \<times> byte list) cres" where
  "MRns_name_pton src dst dstsiz = pton_loop src dstsiz dst 0 1 False"

section \<open>Lower case\<close>

fun ntol_chars :: "byte list \<Rightarrow> nat \<Rightarrow> nat \<Rightarrow> byte list \<Rightarrow> nat \<Rightarrow> byte list cres" where
  "ntol_chars src 0 cp dst dn = Ret dst"
| "ntol_chars src (Suc n) cp dst dn =
     bindC (rd src cp) (\<lambda>c. bindC (wr dst dn (mklower c)) (\<lambda>dst. ntol_chars src n (cp + 1) dst (dn + 1)))"

function ntol_loop :: "byte list \<Rightarrow> nat \<Rightarrow> nat \<Rightarrow> byte list \<Rightarrow> nat \<Rightarrow> (int \<times> byte list) cres" where
  "ntol_loop src eom cp dst dn =
     bindC (rd src cp) (\<lambda>n.
     if n = 0 then bindC (wr dst dn 0) (\<lambda>dst. Ret (int (dn + 1), dst))
     else if n AND NS_CMPRSFLGS \<noteq> 0 then Ret (- 1, dst)
     else bindC (wr dst dn n) (\<lambda>dst.
       if dn + 1 + unat n \<ge> eom then Ret (- 1, dst)
       else bindC (ntol_chars src (unat n) (cp + 1) dst (dn + 1)) (\<lambda>dst.
         ntol_loop src eom (cp + 1 + unat n) dst (dn + 1 + unat n))))"
  by pat_completeness auto
termination
  by (relation "measure (\<lambda>(src, eom, cp, dst, dn). length src - cp)") (auto simp: buf_simps)

declare ntol_loop.simps [simp del]

definition MRns_name_ntol :: "byte list \<Rightarrow> byte list \<Rightarrow> nat \<Rightarrow> (int \<times> byte list) cres" where
  "MRns_name_ntol src dst dstsiz = (if 0 \<ge> dstsiz then Ret (- 1, dst) else ntol_loop src dstsiz 0 dst 0)"

section \<open>Compressed names\<close>

text \<open>The offset in a compression pointer.\<close>

definition ptr_offset :: "byte \<Rightarrow> byte \<Rightarrow> nat" where
  "ptr_offset n lo = unat (n AND 0x3F) * 256 + unat lo"

text \<open>
  The loop of \<open>MRns_name_unpack\<close>. The message starts at index 0 of \<open>msg\<close> and ends before index
  \<open>eom\<close>. Following a pointer adds to \<open>checked\<close>, which stays below the length of the message.
\<close>

function unpack_loop ::
  "byte list \<Rightarrow> nat \<Rightarrow> nat \<Rightarrow> nat \<Rightarrow> nat \<Rightarrow> nat \<Rightarrow> byte list \<Rightarrow> int \<Rightarrow> nat \<Rightarrow> (int \<times> byte list) cres" where
  "unpack_loop msg eom src dstlim srcp dstp dst len checked =
     bindC (rd msg srcp) (\<lambda>n.
     if n = 0 then
       bindC (wr dst dstp 0) (\<lambda>dst. Ret (if len < 0 then int (srcp + 1) - int src else len, dst))
     else if n AND NS_CMPRSFLGS = 0 then
       if dstp + unat n + 1 \<ge> dstlim \<or> srcp + 1 + unat n \<ge> eom then Ret (- 1, dst)
       else bindC (rdn msg (srcp + 1) (unat n)) (\<lambda>bs.
            bindC (wrn dst dstp (n # bs)) (\<lambda>dst.
              unpack_loop msg eom src dstlim (srcp + 1 + unat n) (dstp + 1 + unat n) dst len (checked + unat n + 1)))
     else if n AND NS_CMPRSFLGS = NS_CMPRSFLGS then
       if srcp + 1 \<ge> eom then Ret (- 1, dst)
       else bindC (rd msg (srcp + 1)) (\<lambda>lo.
         if ptr_offset n lo \<ge> eom then Ret (- 1, dst)
         else if checked + 2 \<ge> eom then Ret (- 1, dst)
         else unpack_loop msg eom src dstlim (ptr_offset n lo) dstp dst
                (if len < 0 then int (srcp + 1) - int src + 1 else len) (checked + 2))
     else Ret (- 1, dst))"
  by pat_completeness auto
termination
  by (relation "measures [\<lambda>(msg, eom, src, dstlim, srcp, dstp, dst, len, checked). eom - checked,
      \<lambda>(msg, eom, src, dstlim, srcp, dstp, dst, len, checked). eom - srcp]") auto

declare unpack_loop.simps [simp del]

definition MRns_name_unpack :: "byte list \<Rightarrow> nat \<Rightarrow> nat \<Rightarrow> byte list \<Rightarrow> nat \<Rightarrow> (int \<times> byte list) cres" where
  "MRns_name_unpack msg eom src dst dstsiz =
     (if src \<ge> eom then Ret (- 1, dst) else unpack_loop msg eom src dstsiz src 0 dst (- 1) 0)"

text \<open>\<open>tmp\<close> is the local buffer of 255 bytes, whose contents are arbitrary.\<close>

definition MRns_name_uncompress ::
  "byte list \<Rightarrow> byte list \<Rightarrow> nat \<Rightarrow> nat \<Rightarrow> byte list \<Rightarrow> nat \<Rightarrow> (int \<times> byte list) cres" where
  "MRns_name_uncompress tmp msg eom src dst dstsiz =
     bindC (MRns_name_unpack msg eom src tmp MAXCDNAME) (\<lambda>(n, tmp).
     if n = - 1 then Ret (- 1, dst)
     else bindC (MRns_name_ntop tmp dst dstsiz) (\<lambda>(r, dst).
       if r = - 1 then Ret (- 1, dst) else Ret (n, dst)))"

text \<open>
  The loop of \<open>MRns_name_uncompress_list\<close>. \<open>dst\<close> is the index of the next byte to write in
  \<open>dst_buf\<close>. A name always takes at least one byte of the input; \<open>None\<close> is a loop that does not
  end.
\<close>

partial_function (option) uncompress_list_loop ::
  "byte list \<Rightarrow> byte list \<Rightarrow> nat \<Rightarrow> nat \<Rightarrow> byte list \<Rightarrow> nat \<Rightarrow> int \<Rightarrow> bool \<Rightarrow> (int \<times> byte list) cres option" where
  "uncompress_list_loop tmp buf buflen src dst_buf dst dst_remaining first_pass =
     (if src < buflen then
        if dst_remaining \<le> 0 then Some (Ret (- 1, dst_buf))
        else
          (case (if first_pass then Ret (dst_buf, dst, dst_remaining)
                 else bindC (wr dst_buf dst 0x2C) (\<lambda>b. bindC (wr b (dst + 1) 0) (\<lambda>b.
                   Ret (b, dst + 1, dst_remaining - 1)))) of
             Fatal \<Rightarrow> Some Fatal
           | Undef \<Rightarrow> Some Undef
           | Ret (b, dst, dst_remaining) \<Rightarrow>
               (case bindC (MRns_name_uncompress tmp buf buflen src (drop dst b) (nat dst_remaining)) (\<lambda>(consumed, d).
                      let b = take dst b @ d in
                      if consumed < 0 then Ret (consumed, b, 0)
                      else bindC (strlen_from (drop dst b)) (\<lambda>added_len. Ret (consumed, b, added_len))) of
                  Fatal \<Rightarrow> Some Fatal
                | Undef \<Rightarrow> Some Undef
                | Ret (consumed, b, added_len) \<Rightarrow>
                    if consumed < 0 then Some (Ret (- 1, b))
                    else if consumed > 0 then
                      uncompress_list_loop tmp buf buflen (src + nat consumed) b (dst + added_len)
                        (dst_remaining - int added_len) False
                    else Some (bindC (wr b (dst + added_len) 0) (\<lambda>b.
                           bindC (strlen_from b) (\<lambda>n. Ret (int n, b))))))
      else Some (bindC (wr dst_buf dst 0) (\<lambda>b. bindC (strlen_from b) (\<lambda>n. Ret (int n, b)))))"

text \<open>\<open>int dst_remaining = dst_size\<close>: the conversion of a \<open>size_t\<close> to \<open>int\<close> keeps the low 32 bits.\<close>

definition int_of_size :: "nat \<Rightarrow> int" where
  "int_of_size n = sint (of_nat n :: 32 word)"

definition MRns_name_uncompress_list ::
  "byte list \<Rightarrow> byte list option \<Rightarrow> nat \<Rightarrow> byte list \<Rightarrow> nat \<Rightarrow> (int \<times> byte list) cres option" where
  "MRns_name_uncompress_list tmp buf buflen dst_buf dst_size =
     (case buf of None \<Rightarrow> Some (bindC (wr dst_buf 0 0) (\<lambda>b. Ret (0, b)))
      | Some buf \<Rightarrow>
          if buflen = 0 then Some (bindC (wr dst_buf 0 0) (\<lambda>b. Ret (0, b)))
          else (case rd buf 0 of
              Fatal \<Rightarrow> Some Fatal
            | Undef \<Rightarrow> Some Undef
            | Ret c \<Rightarrow>
                if c = 0 then Some (bindC (wr dst_buf 0 0) (\<lambda>b. Ret (0, b)))
                else uncompress_list_loop tmp buf buflen 0 dst_buf 0 (int_of_size dst_size) True))"

text \<open>\<open>MRns_name_skip\<close>: \<open>Some cp\<close> is the new value of \<open>*ptrptr\<close>, \<open>None\<close> the error.\<close>

function skip_loop :: "byte list \<Rightarrow> nat \<Rightarrow> nat \<Rightarrow> nat option cres" where
  "skip_loop msg eom cp =
     (if cp < eom then
        bindC (rd msg cp) (\<lambda>n.
        if n = 0 then Ret (if cp + 1 > eom then None else Some (cp + 1))
        else if n AND NS_CMPRSFLGS = 0 then skip_loop msg eom (cp + 1 + unat n)
        else if n AND NS_CMPRSFLGS = NS_CMPRSFLGS then Ret (if cp + 2 > eom then None else Some (cp + 2))
        else Ret None)
      else Ret (if cp > eom then None else Some cp))"
  by pat_completeness auto
termination
  by (relation "measure (\<lambda>(msg, eom, cp). eom - cp)") auto

declare skip_loop.simps [simp del]

definition MRns_name_skip :: "byte list \<Rightarrow> nat \<Rightarrow> nat \<Rightarrow> nat option cres" where
  "MRns_name_skip msg ptr eom = skip_loop msg eom ptr"

section \<open>Compression\<close>

text \<open>
  While names are packed, the message is the memory \<open>mem\<close>; \<open>dnptrs\<close> is the array of pointers
  to the names already in it, as indices into \<open>mem\<close>. Its first element is the start of the
  message. A label is compared byte by byte.
\<close>

fun dn_chars :: "byte list \<Rightarrow> nat \<Rightarrow> byte list \<Rightarrow> nat \<Rightarrow> nat \<Rightarrow> bool cres" where
  "dn_chars src dn mem cp 0 = Ret True"
| "dn_chars src dn mem cp (Suc n) =
     bindC (rd src dn) (\<lambda>a. bindC (rd mem cp) (\<lambda>b.
       if mklower a \<noteq> mklower b then Ret False else dn_chars src (dn + 1) mem (cp + 1) n))"

datatype dn_outcome = Dn_found | Dn_next | Dn_illegal

text \<open>One turn of the \<open>while\<close> loop of \<open>dn_find\<close> for a label: \<open>Inl\<close> leaves the loop, \<open>Inr\<close> are the
  new \<open>dn\<close> and \<open>cp\<close>.\<close>

definition dn_step ::
  "byte list \<Rightarrow> byte list \<Rightarrow> nat \<Rightarrow> nat \<Rightarrow> nat \<Rightarrow> (dn_outcome + nat \<times> nat) cres" where
  "dn_step src mem msg dn cp =
     bindC (rd mem cp) (\<lambda>n.
     if n = 0 then Ret (Inl Dn_next)
     else if n AND NS_CMPRSFLGS = 0 then
       bindC (rd src dn) (\<lambda>m.
       if n \<noteq> m then Ret (Inl Dn_next)
       else bindC (dn_chars src (dn + 1) mem (cp + 1) (unat n)) (\<lambda>same.
         if \<not> same then Ret (Inl Dn_next)
         else bindC (rd src (dn + 1 + unat n)) (\<lambda>d. bindC (rd mem (cp + 1 + unat n)) (\<lambda>c.
           if d = 0 \<and> c = 0 then Ret (Inl Dn_found)
           else if d \<noteq> 0 then Ret (Inr (dn + 1 + unat n, cp + 1 + unat n))
           else Ret (Inl Dn_next)))))
     else if n AND NS_CMPRSFLGS = NS_CMPRSFLGS then
       bindC (rd mem (cp + 1)) (\<lambda>lo. Ret (Inr (dn, msg + ptr_offset n lo)))
     else Ret (Inl Dn_illegal))"

partial_function (option) dn_match ::
  "byte list \<Rightarrow> byte list \<Rightarrow> nat \<Rightarrow> nat \<Rightarrow> nat \<Rightarrow> dn_outcome cres option" where
  "dn_match src mem msg dn cp =
     (case dn_step src mem msg dn cp of
        Fatal \<Rightarrow> Some Fatal
      | Undef \<Rightarrow> Some Undef
      | Ret r \<Rightarrow> (case r of Inl out \<Rightarrow> Some (Ret out) | Inr (dn', cp') \<Rightarrow> dn_match src mem msg dn' cp'))"

text \<open>The offset \<open>dn_find\<close> returns, or \<open>None\<close> for -1.\<close>

fun dn_find :: "byte list \<Rightarrow> nat \<Rightarrow> byte list \<Rightarrow> nat \<Rightarrow> nat list \<Rightarrow> nat option cres option" where
  "dn_find src domain mem msg [] = Some (Ret None)"
| "dn_find src domain mem msg (p # ps) =
     (case dn_match src mem msg domain p of
        None \<Rightarrow> None
      | Some Fatal \<Rightarrow> Some Fatal
      | Some Undef \<Rightarrow> Some Undef
      | Some (Ret Dn_found) \<Rightarrow> Some (Ret (Some (p - msg)))
      | Some (Ret Dn_next) \<Rightarrow> dn_find src domain mem msg ps
      | Some (Ret Dn_illegal) \<Rightarrow> Some (Ret None))"

text \<open>The loop that checks that the name is legal: \<open>l\<close> is its length so far.\<close>

function legal_name :: "byte list \<Rightarrow> nat \<Rightarrow> nat \<Rightarrow> bool cres" where
  "legal_name src srcp l =
     bindC (rd src srcp) (\<lambda>n.
     if n AND NS_CMPRSFLGS \<noteq> 0 then Ret False
     else if l + unat n + 1 > MAXCDNAME then Ret False
     else if n = 0 then Ret True
     else legal_name src (srcp + unat n + 1) (l + unat n + 1))"
  by pat_completeness auto
termination
  by (relation "measure (\<lambda>(src, srcp, l). length src - srcp)") (auto simp: buf_simps)

declare legal_name.simps [simp del]

text \<open>
  The packing loop. \<open>srch\<close> are the pointers to search, those given by the caller; \<open>ptrs\<close> are
  these and the ones added, and the position of the end mark in the array is one more than their
  number. \<open>lastp\<close> is the index of \<open>lastdnptr\<close> in the array. The result is \<open>-1\<close> after a failure,
  which drops the added pointers.
\<close>

partial_function (option) pack_loop ::
  "byte list \<Rightarrow> nat \<Rightarrow> nat \<Rightarrow> nat option \<Rightarrow> nat list \<Rightarrow> nat option \<Rightarrow> nat \<Rightarrow> byte list \<Rightarrow> nat \<Rightarrow> nat list
    \<Rightarrow> (int \<times> byte list \<times> nat list) cres option" where
  "pack_loop src dst eob msg srch lastp srcp mem dstp ptrs =
     (case rd src srcp of
        Fatal \<Rightarrow> Some Fatal
      | Undef \<Rightarrow> Some Undef
      | Ret n \<Rightarrow>
          (case (if n \<noteq> 0 \<and> msg \<noteq> None then dn_find src srcp mem (the msg) srch else Some (Ret None)) of
             None \<Rightarrow> None
           | Some Fatal \<Rightarrow> Some Fatal
           | Some Undef \<Rightarrow> Some Undef
           | Some (Ret (Some l)) \<Rightarrow>
               if dstp + 1 \<ge> eob then Some (Ret (- 1, mem, srch))
               else Some (bindC (wrn mem dstp [of_nat (l div 256) OR NS_CMPRSFLGS, of_nat (l mod 256)])
                      (\<lambda>mem. Ret (int (dstp + 2) - int dst, mem, ptrs)))
           | Some (Ret None) \<Rightarrow>
               (let ptrs = (if n \<noteq> 0 \<and> msg \<noteq> None
                     \<and> (case lastp of None \<Rightarrow> False | Some k \<Rightarrow> int (length ptrs) + 1 < int k - 1)
                     \<and> int dstp - int (the msg) < 0x4000
                   then ptrs @ [dstp] else ptrs)
                in if n AND NS_CMPRSFLGS \<noteq> 0 then Some (Ret (- 1, mem, srch))
                else if dstp + 1 + unat n \<ge> eob then Some (Ret (- 1, mem, srch))
                else
                  (case bindC (rdn src srcp (unat n + 1)) (\<lambda>bs. wrn mem dstp bs) of
                     Fatal \<Rightarrow> Some Fatal
                   | Undef \<Rightarrow> Some Undef
                   | Ret mem \<Rightarrow>
                       if n \<noteq> 0 then pack_loop src dst eob msg srch lastp (srcp + unat n + 1) mem
                                      (dstp + unat n + 1) ptrs
                       else if dstp + unat n + 1 > eob then Some (Ret (- 1, mem, srch))
                       else Some (Ret (int (dstp + unat n + 1) - int dst, mem, ptrs))))))"

text \<open>\<open>dnptrs\<close> is \<open>None\<close> for NULL, else its first element (possibly NULL) and the others.\<close>

definition MRns_name_pack ::
  "byte list \<Rightarrow> byte list \<Rightarrow> nat \<Rightarrow> nat \<Rightarrow> (nat option \<times> nat list) option \<Rightarrow> nat option
    \<Rightarrow> (int \<times> byte list \<times> nat list) cres option" where
  "MRns_name_pack src mem dst dstsiz dnptrs lastp =
     (let (msg, ptrs) = (case dnptrs of None \<Rightarrow> (None, []) | Some d \<Rightarrow> d)
      in case legal_name src 0 0 of
           Fatal \<Rightarrow> Some Fatal
         | Undef \<Rightarrow> Some Undef
         | Ret False \<Rightarrow> Some (Ret (- 1, mem, ptrs))
         | Ret True \<Rightarrow> pack_loop src dst (dst + dstsiz) msg ptrs lastp 0 mem dst ptrs)"

definition MRns_name_compress ::
  "byte list \<Rightarrow> byte list \<Rightarrow> byte list \<Rightarrow> nat \<Rightarrow> nat \<Rightarrow> (nat option \<times> nat list) option \<Rightarrow> nat option
    \<Rightarrow> (int \<times> byte list \<times> nat list) cres option" where
  "MRns_name_compress tmp src mem dst dstsiz dnptrs lastp =
     (case MRns_name_pton src tmp MAXCDNAME of
        Fatal \<Rightarrow> Some Fatal
      | Undef \<Rightarrow> Some Undef
      | Ret (r, tmp) \<Rightarrow>
          if r = - 1 then Some (Ret (- 1, mem, case dnptrs of None \<Rightarrow> [] | Some d \<Rightarrow> snd d))
          else MRns_name_pack tmp mem dst dstsiz dnptrs lastp)"

text \<open>
  The loop of \<open>MRns_name_compress_list\<close>: \<open>comma - src\<close> or \<open>strlen(src)\<close> is the number of bytes
  before the first comma or NUL.
\<close>

fun name_end :: "byte list \<Rightarrow> nat cres" where
  "name_end [] = Undef"
| "name_end (c # cs) = (if c = 0 \<or> c = 0x2C then Ret 0 else bindC (name_end cs) (\<lambda>n. Ret (n + 1)))"

partial_function (option) compress_list_loop ::
  "byte list \<Rightarrow> byte list \<Rightarrow> nat \<Rightarrow> nat \<Rightarrow> nat \<Rightarrow> byte list \<Rightarrow> nat \<Rightarrow> nat list \<Rightarrow> (int \<times> byte list) cres option" where
  "compress_list_loop tmp buf buflen compbuf_size src compbuf clen ptrs =
     (if src < buflen then
        (case name_end (drop src buf) of
           Fatal \<Rightarrow> Some Fatal
         | Undef \<Rightarrow> Some Undef
         | Ret copylen \<Rightarrow>
             if copylen > MAXCDNAME - 1 then Some (Ret (- 1, compbuf))
             else
               (case MRns_name_compress tmp (take copylen (drop src buf) @ [0]) compbuf clen
                       (compbuf_size - clen) (Some (Some 0, ptrs)) (Some 255) of
                  None \<Rightarrow> None
                | Some Fatal \<Rightarrow> Some Fatal
                | Some Undef \<Rightarrow> Some Undef
                | Some (Ret (result, compbuf, ptrs)) \<Rightarrow>
                    if result < 0 then Some (Ret (- 1, compbuf))
                    else compress_list_loop tmp buf buflen compbuf_size (src + copylen + 1) compbuf
                           (clen + nat result) ptrs))
      else Some (Ret (int clen, compbuf)))"

definition MRns_name_compress_list ::
  "byte list \<Rightarrow> byte list \<Rightarrow> nat \<Rightarrow> byte list \<Rightarrow> nat \<Rightarrow> (int \<times> byte list) cres option" where
  "MRns_name_compress_list tmp buf buflen compbuf compbuf_size =
     (case wrn compbuf 0 (replicate compbuf_size 0) of
        Fatal \<Rightarrow> Some Fatal
      | Undef \<Rightarrow> Some Undef
      | Ret compbuf \<Rightarrow> compress_list_loop tmp buf buflen compbuf_size 0 compbuf 0 [])"

section \<open>Names\<close>

definition wire_label :: "byte list \<Rightarrow> byte list" where
  "wire_label l = of_nat (length l) # l"

definition wire :: "byte list list \<Rightarrow> byte list" where
  "wire ls = concat (map wire_label ls) @ [0]"

definition wf_label :: "byte list \<Rightarrow> bool" where
  "wf_label l \<longleftrightarrow> l \<noteq> [] \<and> length l < 64"

definition esc :: "byte \<Rightarrow> byte list" where
  "esc c = (if special c then [0x5C, c]
     else if \<not> printable c then [0x5C, digit (unat c div 100), digit (unat c mod 100 div 10), digit (unat c mod 10)]
     else [c])"

definition label_text :: "byte list \<Rightarrow> byte list" where
  "label_text l = concat (map esc l)"

text \<open>The text of the labels after the text \<open>pre\<close>, and of a whole name.\<close>

fun dotted :: "byte list list \<Rightarrow> byte list" where
  "dotted [] = []"
| "dotted (l # ls) = label_text l @ (if ls = [] then [] else 0x2E # dotted ls)"

definition name_text :: "byte list list \<Rightarrow> byte list" where
  "name_text ls = (if ls = [] then [0x2E] else dotted ls)"

lemma and_192: "(a :: nat) AND 192 = (a div 64 mod 4) * 64"
proof -
  have "a AND 192 = (a div 64 * 2 ^ 6 + a mod 64) AND (3 * 2 ^ 6 + 0)" by simp
  also have "\<dots> = (a div 64 AND 3) * 2 ^ 6 + (a mod 64 AND 0)" by (rule and_mult_add) auto
  also have "a div 64 AND 3 = a div 64 mod 4"
    using take_bit_eq_mask [of 2 "a div 64"] by (simp add: mask_eq_exp_minus_1 take_bit_eq_mod)
  finally show ?thesis by simp
qed

lemma flags_zero: "n AND NS_CMPRSFLGS = 0 \<longleftrightarrow> unat n < 64"
proof -
  have "unat (n AND NS_CMPRSFLGS) = (unat n div 64 mod 4) * 64"
    by (simp add: NS_CMPRSFLGS_def unsigned_and_eq and_192)
  moreover have "unat n div 64 < 4" by (simp add: div_less_iff_less_mult)
  ultimately have "unat (n AND NS_CMPRSFLGS) = unat n div 64 * 64" by simp
  then show ?thesis using unat_eq_zero [of "n AND NS_CMPRSFLGS"] by auto
qed

lemma label_small: "c < 64 \<Longrightarrow> \<not> label_too_big c"
  by (simp add: label_too_big_def and_192)

lemma wire_label_unat:
  assumes "wf_label l"
  shows "unat (of_nat (length l) :: byte) = length l" "(of_nat (length l) :: byte) \<noteq> 0"
    "of_nat (length l) AND NS_CMPRSFLGS = 0"
proof -
  show u: "unat (of_nat (length l) :: byte) = length l" using assms by (simp add: unat_of_nat_byte wf_label_def)
  then show "(of_nat (length l) :: byte) \<noteq> 0" using assms by (auto simp: wf_label_def)
  show "of_nat (length l) AND NS_CMPRSFLGS = 0" using u assms by (simp add: flags_zero wf_label_def)
qed

lemma length_wire_label [simp]: "length (wire_label l) = length l + 1"
  by (simp add: wire_label_def)

lemma unat_digit: "k < 10 \<Longrightarrow> unat (digit k) = 48 + k"
  unfolding digit_def unat_of_nat_byte by simp

lemma esc_nonempty: "esc c \<noteq> []" "0 \<notin> set (esc c)" "hd (esc c) \<noteq> 0x2E" "hd (esc c) \<noteq> 0"
proof -
  have "digit k \<noteq> 0" if "k < 10" for k
    using unat_digit [OF that] by auto
  moreover have "unat c div 100 < 10" "unat c mod 100 div 10 < 10" using unat_byte_lt [of c] by linarith+
  ultimately show "esc c \<noteq> []" "0 \<notin> set (esc c)" "hd (esc c) \<noteq> 0x2E" "hd (esc c) \<noteq> 0"
    by (auto simp: esc_def special_def printable_def)
qed

section \<open>Printing names\<close>

lemma ntop_chars_spec:
  assumes "cp + n \<le> length src" "eom \<le> length d0" "length t0 \<le> eom"
  defines "out \<equiv> label_text (take n (drop cp src))"
  shows "if length t0 + length out \<le> eom
    then ntop_chars src eom n cp (put d0 0 t0) (length t0)
      = Ret (Inr (cp + n, put d0 0 (t0 @ out), length (t0 @ out)))
    else \<exists>d. ntop_chars src eom n cp (put d0 0 t0) (length t0) = Ret (Inl d) \<and> length d = length d0"
  using assms(1,3) unfolding out_def
proof (induction n arbitrary: cp t0)
  case 0
  then show ?case by (simp add: label_text_def)
next
  case (Suc n)
  have cp: "cp < length src" using Suc.prems by simp
  define c where "c = src ! cp"
  define rest where "rest = label_text (take n (drop (cp + 1) src))"
  have out: "label_text (take (Suc n) (drop cp src)) = esc c @ rest"
    by (simp add: label_text_def c_def rest_def Cons_nth_drop_Suc [OF cp, symmetric])
  have step: "ntop_chars src eom (Suc n) cp (put d0 0 t0) (length t0) =
     (if eom < length t0 + length (esc c) then Ret (Inl (put d0 0 t0))
      else ntop_chars src eom n (cp + 1) (put d0 0 (t0 @ esc c)) (length (t0 @ esc c)))"
  proof -
    have four: "length t0 + 4 = Suc (Suc (Suc (Suc (length t0))))" by simp
    show ?thesis
      using cp wrn_put [of 0 t0 _ d0] wr_put [of 0 t0 d0] assms(2) by (auto simp: four c_def esc_def)
  qed
  show ?case
  proof (cases "eom < length t0 + length (esc c)")
    case True
    then show ?thesis using Suc.prems(2) assms(2) unfolding step out by auto
  next
    case False
    then show ?thesis
      using Suc.IH [of "cp + 1" "t0 @ esc c"] Suc.prems(1) unfolding step out rest_def [symmetric]
      by (auto simp: add.assoc split: if_splits)
  qed
qed

lemma label_text_nonempty: "l \<noteq> [] \<Longrightarrow> label_text l \<noteq> []"
  using esc_nonempty(1) by (cases l) (auto simp: label_text_def)

lemma length_label_text: "length l \<le> length (label_text l)"
proof (induction l)
  case (Cons c l)
  have "1 \<le> length (esc c)" using esc_nonempty(1) [of c] by (cases "esc c") auto
  then show ?case using Cons by (simp add: label_text_def)
qed (simp add: label_text_def)

text \<open>The text appended for the labels \<open>ls\<close> after the text \<open>t0\<close>.\<close>

definition next_text :: "byte list \<Rightarrow> byte list list \<Rightarrow> byte list" where
  "next_text t0 ls = (if ls = [] then [] else if t0 = [] then dotted ls else 0x2E # dotted ls)"

lemma ntop_loop_Nil:
  assumes "cp < length src" "src ! cp = 0"
  shows "ntop_loop src eom cp d dn = Ret (Inr (d, dn))"
  using assms ntop_loop.simps [of src eom cp d dn] by simp

lemma ntop_loop_Cons:
  assumes l: "wf_label l" and src: "cp + length l + 1 \<le> length src" "take (length l + 1) (drop cp src) = wire_label l"
    and eom: "eom \<le> length d0" "length t0 \<le> eom"
  defines "t1 \<equiv> t0 @ (if t0 = [] then [] else [0x2E]) @ label_text l"
  shows "if length t1 \<le> eom \<and> length t1 - length (label_text l) + length l < eom
    then ntop_loop src eom cp (put d0 0 t0) (length t0) = ntop_loop src eom (cp + length l + 1) (put d0 0 t1) (length t1)
    else \<exists>d. ntop_loop src eom cp (put d0 0 t0) (length t0) = Ret (Inl d) \<and> length d = length d0"
proof -
  have cp: "cp < length src" "src ! cp = of_nat (length l)" "take (length l) (drop (cp + 1) src) = l"
  proof -
    show "cp < length src" using src(1) by simp
    then have "drop cp src = src ! cp # drop (cp + 1) src" using Cons_nth_drop_Suc [of cp src] by simp
    then have "src ! cp # take (length l) (drop (cp + 1) src) = wire_label l" using src(2) by simp
    then show "src ! cp = of_nat (length l)" "take (length l) (drop (cp + 1) src) = l" by (auto simp: wire_label_def)
  qed
  note n = wire_label_unat [OF l]
  let ?s = "t0 @ (if t0 = [] then [] else [0x2E])"
  have chars: "if length ?s + length (label_text l) \<le> eom
    then ntop_chars src eom (length l) (cp + 1) (put d0 0 ?s) (length ?s)
      = Ret (Inr (cp + 1 + length l, put d0 0 (?s @ label_text l), length (?s @ label_text l)))
    else \<exists>d. ntop_chars src eom (length l) (cp + 1) (put d0 0 ?s) (length ?s) = Ret (Inl d) \<and> length d = length d0"
    if "length ?s \<le> eom"
  proof -
    have "cp + 1 + length l \<le> length src" using src(1) by simp
    from ntop_chars_spec [OF this eom(1) that] show ?thesis unfolding cp(3) .
  qed
  have loop: "ntop_loop src eom cp (put d0 0 t0) (length t0) =
     (if t0 \<noteq> [] \<and> length t0 \<ge> eom then Ret (Inl (put d0 0 t0))
      else if length ?s + length l \<ge> eom then Ret (Inl (put d0 0 ?s))
      else bindC (ntop_chars src eom (length l) (cp + 1) (put d0 0 ?s) (length ?s)) (\<lambda>r.
         case r of Inl dst \<Rightarrow> Ret (Inl dst) | Inr (cp', dst, dn) \<Rightarrow> ntop_loop src eom cp' dst dn))"
    using ntop_loop.simps [of src eom cp "put d0 0 t0" "length t0"] cp n wr_put [of 0 t0 d0 "0x2E"] eom
    by (cases t0) auto
  show ?thesis
  proof (cases "(t0 \<noteq> [] \<and> length t0 \<ge> eom) \<or> length ?s + length l \<ge> eom")
    case True
    then have "\<not> (length t1 \<le> eom \<and> length t1 - length (label_text l) + length l < eom)"
      using length_label_text [of l] l by (auto simp: t1_def wf_label_def)
    moreover have "length ?s \<le> eom" if "\<not> (t0 \<noteq> [] \<and> length t0 \<ge> eom)" using that eom(2) by auto
    ultimately show ?thesis using True eom unfolding loop by auto
  next
    case False
    then have "length ?s \<le> eom" by auto
    from chars [OF this] False show ?thesis
      unfolding loop t1_def by (auto simp: add.assoc add.commute [of 1])
  qed
qed

lemma wire_Cons: "wire (l # ls) = wire_label l @ wire ls"
  by (simp add: wire_def)

lemma ntop_loop_spec:
  assumes "\<forall>l \<in> set ls. wf_label l" "cp + length (wire ls) \<le> length src" "take (length (wire ls)) (drop cp src) = wire ls"
    and "eom \<le> length d0" "length t0 \<le> eom"
  shows "let n = length t0 + length (next_text t0 ls) in
    if n < eom then ntop_loop src eom cp (put d0 0 t0) (length t0)
      = Ret (Inr (put d0 0 (t0 @ next_text t0 ls), n))
    else \<exists>d. length d = length d0 \<and> (ntop_loop src eom cp (put d0 0 t0) (length t0) = Ret (Inl d)
      \<or> (\<exists>dn. eom \<le> dn \<and> (ls \<noteq> [] \<or> t0 \<noteq> [] \<longrightarrow> dn \<noteq> 0)
            \<and> ntop_loop src eom cp (put d0 0 t0) (length t0) = Ret (Inr (d, dn))))"
  using assms(1-3,5)
proof (induction ls arbitrary: cp t0)
  case Nil
  then have "cp < length src" "src ! cp = 0"
    by (auto simp: wire_def take_Suc_conv_app_nth hd_drop_conv_nth)
  then show ?case using ntop_loop_Nil [of cp src eom "put d0 0 t0" "length t0"] Nil.prems(4) assms(4)
    by (auto simp: next_text_def Let_def)
next
  case (Cons l ls)
  define t1 where "t1 = t0 @ (if t0 = [] then [] else [0x2E]) @ label_text l"
  have l: "wf_label l" using Cons.prems(1) by simp
  have t1: "t1 \<noteq> []" using label_text_nonempty [of l] l by (auto simp: t1_def wf_label_def)
  have src: "cp + length l + 1 \<le> length src" "take (length l + 1) (drop cp src) = wire_label l"
    "take (length (wire ls)) (drop (cp + length l + 1) src) = wire ls"
    "cp + length l + 1 + length (wire ls) \<le> length src"
  proof -
    have eq: "take (length l + 1 + length (wire ls)) (drop cp src) = wire_label l @ wire ls"
      using Cons.prems(3) by (simp add: wire_Cons)
    then show "take (length l + 1) (drop cp src) = wire_label l"
      by (metis append_eq_conv_conj length_wire_label take_add take_take min.absorb1 le_add1)
    have "take (length (wire ls)) (drop (length l + 1) (drop cp src)) = wire ls"
      using arg_cong [OF eq, of "drop (length l + 1)"] by (simp add: drop_take)
    then show "take (length (wire ls)) (drop (cp + length l + 1) src) = wire ls"
      by (simp add: add.commute add.left_commute)
  qed (use Cons.prems(2) in \<open>simp_all add: wire_Cons\<close>)
  have nt: "t0 @ next_text t0 (l # ls) = t1 @ next_text t1 ls" using t1 by (simp add: next_text_def t1_def)
  then have len: "length t0 + length (next_text t0 (l # ls)) = length t1 + length (next_text t1 ls)"
    by (metis length_append)
  note step = ntop_loop_Cons [OF l src(1,2) assms(4) Cons.prems(4), folded t1_def]
  show ?case
  proof (cases "length t1 \<le> eom \<and> length t1 - length (label_text l) + length l < eom")
    case True
    then show ?thesis
      using step Cons.IH [of "cp + length l + 1" t1] Cons.prems(1) src(3,4) t1 unfolding nt len Let_def by auto
  next
    case False
    have "\<not> length t1 + length (next_text t1 ls) < eom"
      using False length_label_text [of l] by (auto simp: t1_def)
    then show ?thesis using step False unfolding nt len Let_def by auto
  qed
qed

lemma ntop_spec:
  assumes "\<forall>l \<in> set ls. wf_label l" "length (wire ls) \<le> length src" "take (length (wire ls)) src = wire ls"
    and "sz \<le> length d0"
  shows "if length (name_text ls) < sz
    then MRns_name_ntop src d0 sz = Ret (int (length (name_text ls)) + 1, put d0 0 (name_text ls @ [0]))
    else \<exists>d. MRns_name_ntop src d0 sz = Ret (- 1, d) \<and> length d = length d0"
proof (cases ls)
  case Nil
  then have src: "0 < length src" "src ! 0 = 0" using assms(2,3) by (cases src; auto simp: wire_def)+
  have "ntop_loop src sz 0 d0 0 = Ret (Inr (d0, 0))" using ntop_loop_Nil [OF src] .
  moreover have "wr d0 0 0x2E = Ret (put d0 0 [0x2E])" if "0 < sz"
    using wr_put [of 0 "[]" d0 "0x2E"] that assms(4) by (simp only: list.size add_0_right append_Nil put_Nil)
  moreover have "wr (put d0 0 [0x2E]) (Suc 0) 0 = Ret (put d0 0 [0x2E, 0])" if "Suc 0 < sz"
    using wr_put [of 0 "[0x2E]" d0 0] that assms(4) by simp
  ultimately show ?thesis
    using Nil assms(4) by (auto simp: MRns_name_ntop_def name_text_def)
next
  case (Cons l ls')
  have nt: "next_text [] ls = name_text ls" "name_text ls \<noteq> []"
    using Cons assms(1) label_text_nonempty [of l] by (auto simp: next_text_def name_text_def wf_label_def)
  show ?thesis
    using ntop_loop_spec [of ls 0 src sz d0 "[]"] assms nt wr_put [of 0 "name_text ls" d0 0] Cons
    by (auto simp: MRns_name_ntop_def Let_def split: if_splits)
qed

section \<open>Reading names\<close>

lemma digit_value_digit: "k < 10 \<Longrightarrow> digit_value (digit k) = Some k" "k < 10 \<Longrightarrow> digit k \<noteq> 0"
  using unat_digit [of k] by (auto simp: digit_value_def word_le_nat_alt)

lemma special_not_digit: "special c \<Longrightarrow> digit_value c = None" "special c \<Longrightarrow> c \<noteq> 0"
  by (auto simp: special_def digit_value_def)

lemma pton_esc:
  assumes "bp < eom"
  shows "pton_loop (esc c @ rest) eom d label bp False
    = bindC (wr d bp c) (\<lambda>d. pton_loop rest eom d label (bp + 1) False)"
proof -
  consider "special c" | "\<not> special c" "\<not> printable c" | "\<not> special c" "printable c" by blast
  then show ?thesis
  proof cases
    case 1
    then show ?thesis using assms special_not_digit [of c] by (simp add: esc_def)
  next
    case 2
    let ?n = "unat c"
    have d: "?n div 100 < 10" "?n mod 100 div 10 < 10" "?n mod 10 < 10" using unat_byte_lt [of c] by linarith+
    have "?n div 100 * 100 + ?n mod 100 div 10 * 10 + ?n mod 10 = ?n"
    proof -
      have "?n mod 100 mod 10 = ?n mod 10" by (simp add: mod_mod_cancel)
      then show ?thesis using div_mult_mod_eq [of ?n 100] div_mult_mod_eq [of "?n mod 100" 10] by linarith
    qed
    moreover have "\<not> 255 < ?n" using unat_byte_lt [of c] by linarith
    ultimately show ?thesis
      using 2 assms digit_value_digit [OF d(1)] digit_value_digit [OF d(2)] digit_value_digit [OF d(3)]
      by (simp add: esc_def Let_def)
  next
    case 3
    then have "c \<noteq> 0" "c \<noteq> 0x5C" "c \<noteq> 0x2E" by (auto simp: special_def printable_def)
    then show ?thesis using 3 assms by (simp add: esc_def)
  qed
qed

text \<open>The buffer holds the finished labels \<open>w\<close>, one byte for the length of the current label, and
  the bytes \<open>l0\<close> of the current label.\<close>

lemma pton_label:
  assumes "length w + 1 + length l0 + length l \<le> eom" "eom \<le> length d0"
  shows "pton_loop (label_text l @ rest) eom (put d0 0 (w @ x # l0)) (length w) (length w + 1 + length l0) False
    = pton_loop rest eom (put d0 0 (w @ x # l0 @ l)) (length w) (length w + 1 + length l0 + length l) False"
  using assms(1)
proof (induction l arbitrary: l0)
  case (Cons c l)
  have wr: "wr (put d0 0 (w @ x # l0)) (length w + 1 + length l0) c = Ret (put d0 0 (w @ x # (l0 @ [c])))"
    using wr_put [of 0 "w @ x # l0" d0 c] Cons.prems assms(2) by simp
  have "pton_loop (label_text (c # l) @ rest) eom (put d0 0 (w @ x # l0)) (length w) (length w + 1 + length l0) False
    = pton_loop (label_text l @ rest) eom (put d0 0 (w @ x # (l0 @ [c]))) (length w) (length w + 1 + length (l0 @ [c])) False"
    using pton_esc [of "length w + 1 + length l0" eom c "label_text l @ rest"] Cons.prems wr
    by (simp add: label_text_def del: pton_loop.simps)
  also have "\<dots> = pton_loop rest eom (put d0 0 (w @ x # l0 @ c # l)) (length w) (length w + 1 + length l0 + length (c # l)) False"
    using Cons.IH [of "l0 @ [c]"] Cons.prems by (simp del: pton_loop.simps)
  finally show ?case .
qed (simp add: label_text_def)

lemma pton_dot:
  assumes "\<not> label_too_big (bp - label - 1)" "bp - label - 1 \<noteq> 0" "label < eom" "h \<noteq> 0" "h \<noteq> 0x2E"
  shows "pton_loop (0x2E # h # t) eom d label bp False
    = bindC (wr d label (of_nat (bp - label - 1))) (\<lambda>d. pton_loop (h # t) eom d bp (bp + 1) False)"
  using assms pton_loop.simps(2) [of "0x2E" "h # t" eom d label bp False] by (simp del: pton_loop.simps add: Let_def)

lemma pton_names:
  assumes "\<forall>l \<in> set ls. wf_label l" "ls \<noteq> []" "length w + length (wire ls) \<le> eom"
    and "eom \<le> length d0" "length w + length (wire ls) \<le> MAXCDNAME"
  shows "pton_loop (dotted ls @ 0 # rest) eom (put d0 0 (w @ [x])) (length w) (length w + 1) False
    = Ret (0, put d0 0 (w @ wire ls))"
  using assms(1,2,3,5)
proof (induction ls arbitrary: w x)
  case (Cons l ls)
  have l: "wf_label l" using Cons.prems(1) by simp
  have len: "length (wire (l # ls)) = length l + 1 + length (wire ls)" "1 \<le> length (wire ls)"
    by (simp_all add: wire_Cons) (simp add: wire_def)
  have fits: "length w + 1 + length l < eom" "length w + 1 + length l < length d0"
    using Cons.prems(3) len assms(4) by auto
  have tx: "pton_loop (label_text l @ r) eom (put d0 0 (w @ [x])) (length w) (length w + 1) False
      = pton_loop r eom (put d0 0 (w @ x # l)) (length w) (length w + 1 + length l) False" for r
    using pton_label [of w "[]" l eom d0 r x] fits assms(4) by (simp del: pton_loop.simps)
  have setlen: "wr (put d0 0 (w @ x # l)) (length w) y = Ret (put d0 0 (w @ y # l))" for y
    using wr_put_inside [of 0 w l d0 x y] fits by simp
  have lsmall: "\<not> label_too_big (length l)" "0 < length l" using l label_small by (auto simp: wf_label_def)
  show ?case
  proof (cases ls)
    case Nil
    have "wr (put d0 0 (w @ of_nat (length l) # l)) (length w + 1 + length l) 0
        = Ret (put d0 0 (w @ of_nat (length l) # l @ [0]))"
      using wr_put [of 0 "w @ of_nat (length l) # l" d0 0] fits by simp
    then show ?thesis
      unfolding Nil dotted.simps append.assoc tx if_True append_Nil
      using Nil Cons.prems(3,4) lsmall setlen fits
      by (simp add: pton_end_def wire_def wire_label_def Let_def)
  next
    case ls: (Cons l2 ls2)
    have "l2 \<noteq> []" using Cons.prems(1) ls by (auto simp: wf_label_def)
    then obtain c cs where "l2 = c # cs" by (cases l2) auto
    then obtain h tl where h: "dotted ls = h # tl" "h \<noteq> 0" "h \<noteq> 0x2E"
      using esc_nonempty [of c] ls by (cases "esc c") (auto simp: label_text_def)
    let ?w = "w @ wire_label l"
    have w: "length ?w < length d0" "length ?w = length w + 1 + length l" using fits by simp_all
    have "put d0 0 (w @ of_nat (length l) # l) = put d0 0 (?w @ [d0 ! length ?w])"
      using put_extend [of 0 ?w d0] w(1) by (simp add: wire_label_def)
    moreover have "dotted (l # ls) @ 0 # rest = label_text l @ 0x2E # h # tl @ 0 # rest" using ls h(1) by simp
    ultimately have "pton_loop (dotted (l # ls) @ 0 # rest) eom (put d0 0 (w @ [x])) (length w) (length w + 1) False
      = pton_loop (dotted ls @ 0 # rest) eom (put d0 0 (?w @ [d0 ! length ?w])) (length ?w) (length ?w + 1) False"
      using tx [of "0x2E # h # tl @ 0 # rest"] h lsmall setlen [of "of_nat (length l)"] fits w(2)
        pton_dot [of "length w + 1 + length l" "length w" eom h "tl @ 0 # rest" "put d0 0 (w @ x # l)"]
      by (simp del: pton_loop.simps dotted.simps)
    also have "\<dots> = Ret (0, put d0 0 (?w @ wire ls))"
      using Cons.IH [of ?w] Cons.prems ls len w(2) by (simp del: pton_loop.simps)
    finally show ?thesis by (simp add: wire_Cons)
  qed
qed simp

lemma pton_text:
  assumes "\<forall>l \<in> set ls. wf_label l" "length (wire ls) \<le> sz" "sz \<le> length d0" "length (wire ls) \<le> MAXCDNAME"
  shows "MRns_name_pton (name_text ls @ 0 # rest) d0 sz = Ret (if ls = [] then 1 else 0, put d0 0 (wire ls))"
proof (cases "ls = []")
  case True
  have "wr d0 0 0 = Ret (put d0 0 [0])"
    using wr_put [of 0 "[]" d0 0] assms True by (cases d0) (simp_all add: wire_def del: wr_in)
  then show ?thesis
    using True assms by (simp add: MRns_name_pton_def name_text_def wire_def label_small pton_end_def MAXCDNAME_def)
next
  case False
  have "0 < length d0" using assms(2,3) by (auto simp: wire_def)
  then have "put d0 0 ([] @ [d0 ! 0]) = d0" using put_extend [of 0 "[]" d0] by simp
  then show ?thesis
    using pton_names [of ls "[]" sz d0 rest "d0 ! 0"] False assms by (simp add: MRns_name_pton_def name_text_def)
qed

text \<open>C14: Printing a domain name and reading the text back gives the name: for a name with
  labels of 1 to 63 arbitrary bytes (dots, quotes, control characters and NUL included) and at
  most 255 bytes on the wire, when the buffers are large enough. The root reads back as fully
  qualified.\<close>

theorem pton_of_ntop:
  assumes "\<forall>l \<in> set ls. wf_label l" "length (wire ls) \<le> MAXCDNAME"
    and "length (name_text ls) < sz" "sz \<le> length d" "length (wire ls) \<le> sz2" "sz2 \<le> length d2"
  shows "\<exists>d' d2'. MRns_name_ntop (wire ls @ junk) d sz = Ret (int (length (name_text ls)) + 1, d')
    \<and> MRns_name_pton d' d2 sz2 = Ret (if ls = [] then 1 else 0, d2') \<and> take (length (wire ls)) d2' = wire ls"
proof -
  have "MRns_name_ntop (wire ls @ junk) d sz = Ret (int (length (name_text ls)) + 1, put d 0 (name_text ls @ [0]))"
    using ntop_spec [of ls "wire ls @ junk" sz d] assms by simp
  moreover have "put d 0 (name_text ls @ [0]) = name_text ls @ 0 # drop (length (name_text ls) + 1) d"
    by (simp add: put_def)
  ultimately show ?thesis
    using pton_text [OF assms(1,5,6,2), of "drop (length (name_text ls) + 1) d"] assms(5,6) by simp
qed

theorem pton_of_ntop_witness:
  "\<exists>d' d2'. MRns_name_ntop [3, 97, 46, 0, 1, 98, 0] (replicate 20 7) 20 = Ret (int 10 , d')
    \<and> MRns_name_pton d' (replicate 9 1) 9 = Ret (0, d2') \<and> take (length [3, 97, 46, 0, 1, 98, 0 :: byte]) d2' = [3, 97, 46, 0, 1, 98, 0]"
  using pton_of_ntop [of "[[97, 46, 0], [98]]" 20 "replicate 20 7" 9 "replicate 9 1" "[]"]
  by (simp add: wf_label_def wire_def wire_label_def MAXCDNAME_def name_text_def label_text_def esc_def special_def
      printable_def)

section \<open>Uncompressing names\<close>

definition labels :: "byte list list \<Rightarrow> byte list" where
  "labels ls = concat (map wire_label ls)"

text \<open>What the unpacking loop leaves after the labels \<open>ls\<close> have been written.\<close>

definition unpacked :: "byte list \<Rightarrow> nat \<Rightarrow> int \<Rightarrow> int \<Rightarrow> byte list list \<Rightarrow> int \<times> byte list \<Rightarrow> bool" where
  "unpacked d0 lim avail len ls = (\<lambda>(r, d). length d = length d0
    \<and> (r = - 1 \<or> (\<exists>more. (\<forall>l \<in> set more. wf_label l) \<and> d = put d0 0 (wire (ls @ more))
        \<and> length (wire (ls @ more)) \<le> lim \<and> (if len < 0 then 0 < r \<and> r \<le> avail else r = len))))"

lemma unpacked_failed: "length d = length d0 \<Longrightarrow> unpacked d0 lim avail len ls (- 1, d)"
  by (simp add: unpacked_def)

lemma unpacked_label: "unpacked d0 lim avail len (ls @ [l]) u \<Longrightarrow> wf_label l \<Longrightarrow> unpacked d0 lim avail len ls u"
  by (cases u) (fastforce simp: unpacked_def)

lemma unpack_label_step:
  assumes "eom \<le> length msg" "dst = put d0 0 (labels ls)" "dstp = length (labels ls)" "dstlim \<le> length d0"
    and n: "n \<noteq> 0" "n AND NS_CMPRSFLGS = 0" and room: "\<not> (dstp + unat n + 1 \<ge> dstlim \<or> srcp + 1 + unat n \<ge> eom)"
  defines "l \<equiv> take (unat n) (drop (srcp + 1) msg)"
  shows "wf_label l" "rdn msg (srcp + 1) (unat n) = Ret l" "wrn dst dstp (n # l) = Ret (put d0 0 (labels (ls @ [l])))"
    "length (labels (ls @ [l])) = dstp + 1 + unat n"
proof -
  have len: "length l = unat n" using room assms(1) by (auto simp: l_def)
  show "wf_label l" using len n unat_eq_zero [of n] by (auto simp: wf_label_def flags_zero)
  have "wire_label l = n # l" by (simp add: wire_label_def len)
  then show "wrn dst dstp (n # l) = Ret (put d0 0 (labels (ls @ [l])))"
    using wrn_put [of 0 "labels ls" "n # l" d0] assms(2-4) room len by (simp add: labels_def)
  show "rdn msg (srcp + 1) (unat n) = Ret l" using room assms(1) by (simp add: rdn_def l_def)
  show "length (labels (ls @ [l])) = dstp + 1 + unat n" using assms(3) len by (simp add: labels_def)
qed

lemma unpack_loop_spec:
  assumes "eom \<le> length msg" "srcp < eom" "dst = put d0 0 (labels ls)" "dstp = length (labels ls)"
    and "dstp < dstlim" "dstlim \<le> length d0" "len < 0 \<longrightarrow> src \<le> srcp"
  shows "\<exists>u. unpack_loop msg eom src dstlim srcp dstp dst len checked = Ret u
    \<and> unpacked d0 dstlim (int eom - int src) len ls u"
  using assms
proof (induction msg eom src dstlim srcp dstp dst len checked arbitrary: ls rule: unpack_loop.induct)
  case (1 msg eom src dstlim srcp dstp dst len checked)
  define n where "n = msg ! srcp"
  have rd: "rd msg srcp = Ret n" using "1.prems"(1,2) by (simp add: n_def)
  have failed: "unpacked d0 dstlim (int eom - int src) len ls (- 1, dst)"
    using "1.prems"(3-6) by (intro unpacked_failed) simp
  note loop = unpack_loop.simps [of msg eom src dstlim srcp dstp dst len checked, unfolded rd bindC.simps]
  consider (zero) "n = 0" | (lab) "n \<noteq> 0" "n AND NS_CMPRSFLGS = 0"
    | (ptr) "n \<noteq> 0" "n AND NS_CMPRSFLGS = NS_CMPRSFLGS" "n AND NS_CMPRSFLGS \<noteq> 0"
    | (bad) "n \<noteq> 0" "n AND NS_CMPRSFLGS \<noteq> NS_CMPRSFLGS" "n AND NS_CMPRSFLGS \<noteq> 0" by blast
  then show ?case
  proof cases
    case zero
    have "wr dst dstp 0 = Ret (put d0 0 (wire ls))"
      using wr_put [of 0 "labels ls" d0 0] "1.prems"(3-6) by (simp add: wire_def labels_def)
    moreover have "length (wire ls) \<le> dstlim" "length (wire ls) \<le> length d0"
      using "1.prems"(4-6) by (simp_all add: wire_def labels_def)
    ultimately show ?thesis
      unfolding loop using zero "1.prems"(2,7) by (auto simp: unpacked_def intro!: exI [of _ "[]"])
  next
    case lab
    show ?thesis
    proof (cases "dstp + unat n + 1 \<ge> dstlim \<or> srcp + 1 + unat n \<ge> eom")
      case False
      define l where "l = take (unat n) (drop (srcp + 1) msg)"
      note st = unpack_label_step [OF "1.prems"(1,3,4,6) lab False, folded l_def]
      have "\<exists>u. unpack_loop msg eom src dstlim (srcp + 1 + unat n) (dstp + 1 + unat n)
            (put d0 0 (labels (ls @ [l]))) len (checked + unat n + 1) = Ret u
          \<and> unpacked d0 dstlim (int eom - int src) len (ls @ [l]) u"
        by (rule "1.IH"(1) [OF rd lab False st(2,3)]) (use "1.prems" False st(4) in auto)
      then show ?thesis
        unfolding loop using lab False st(2,3) unpacked_label [OF _ st(1)] by auto
    qed (use loop lab failed in auto)
  next
    case ptr
    show ?thesis
    proof (cases "srcp + 1 \<ge> eom")
      case False
      define lo where "lo = msg ! (srcp + 1)"
      have rd2: "rd msg (srcp + 1) = Ret lo" using False "1.prems"(1) by (simp add: lo_def)
      let ?len = "if len < 0 then int (srcp + 1) - int src + 1 else len"
      show ?thesis
      proof (cases "ptr_offset n lo \<ge> eom \<or> checked + 2 \<ge> eom")
        case ok: False
        have "\<exists>u. unpack_loop msg eom src dstlim (ptr_offset n lo) dstp dst ?len (checked + 2) = Ret u
            \<and> unpacked d0 dstlim (int eom - int src) ?len ls u"
          by (rule "1.IH"(2) [OF rd ptr(1,3,2) False rd2]) (use "1.prems" ok in auto)
        then obtain u where "unpack_loop msg eom src dstlim (ptr_offset n lo) dstp dst ?len (checked + 2) = Ret u"
            "unpacked d0 dstlim (int eom - int src) ?len ls u" by blast
        moreover have "unpacked d0 dstlim (int eom - int src) len ls u"
          using calculation(2) False "1.prems"(7) by (auto simp: unpacked_def split: if_splits)
        ultimately show ?thesis unfolding loop using ptr False rd2 ok by auto
      qed (use loop ptr failed False rd2 in auto)
    qed (use loop ptr failed in auto)
  next
    case bad
    then show ?thesis unfolding loop using failed by auto
  qed
qed

lemma unpack_spec:
  assumes "eom \<le> length msg" "0 < sz" "sz \<le> length d0"
  shows "\<exists>r d. MRns_name_unpack msg eom src d0 sz = Ret (r, d) \<and> length d = length d0
    \<and> (r = - 1 \<or> (\<exists>ls. (\<forall>l \<in> set ls. wf_label l) \<and> d = put d0 0 (wire ls) \<and> length (wire ls) \<le> sz
        \<and> 0 < r \<and> r \<le> int eom - int src))"
  using unpack_loop_spec [of eom msg src d0 d0 "[]" 0 sz "- 1" src 0] assms
  by (auto simp: MRns_name_unpack_def labels_def unpacked_def not_le)

lemma name_text_nonzero: "0 \<notin> set (name_text ls)"
proof -
  have "0 \<notin> set (label_text l)" for l using esc_nonempty(2) by (auto simp: label_text_def)
  then have "0 \<notin> set (dotted ls)" by (induction ls) auto
  then show ?thesis by (simp add: name_text_def)
qed

lemma uncompress_spec:
  assumes "length tmp = MAXCDNAME" "eom \<le> length msg" "sz \<le> length d0"
  shows "\<exists>r d. MRns_name_uncompress tmp msg eom src d0 sz = Ret (r, d) \<and> length d = length d0
    \<and> (r = - 1 \<or> (\<exists>ls. (\<forall>l \<in> set ls. wf_label l) \<and> d = put d0 0 (name_text ls @ [0])
        \<and> length (name_text ls) < sz \<and> 0 < r \<and> r \<le> int eom - int src))"
proof -
  obtain r d where u: "MRns_name_unpack msg eom src tmp MAXCDNAME = Ret (r, d)" "length d = length tmp"
      "r = - 1 \<or> (\<exists>ls. (\<forall>l \<in> set ls. wf_label l) \<and> d = put tmp 0 (wire ls) \<and> length (wire ls) \<le> MAXCDNAME
        \<and> 0 < r \<and> r \<le> int eom - int src)"
    using unpack_spec [OF assms(2), of MAXCDNAME tmp src] assms(1) by (auto simp: MAXCDNAME_def)
  show ?thesis
  proof (cases "r = - 1")
    case True
    then show ?thesis using u by (auto simp: MRns_name_uncompress_def)
  next
    case False
    then obtain ls where ls: "\<forall>l \<in> set ls. wf_label l" "d = put tmp 0 (wire ls)" "length (wire ls) \<le> MAXCDNAME"
        "0 < r" "r \<le> int eom - int src" using u(3) by auto
    have "length (wire ls) \<le> length d" "take (length (wire ls)) d = wire ls"
      using ls(2,3) assms(1) u(2) by auto
    from ntop_spec [OF ls(1) this assms(3)] show ?thesis
      using u(1) False ls assms(3) by (auto simp: MRns_name_uncompress_def split: if_splits)
  qed
qed

text \<open>C2: Uncompressing a name from any message is safe and ends: whatever the bytes of the
  message, pointer loops included, \<open>MRns_name_uncompress\<close> returns without reading outside the
  message or writing outside the output buffer, and it either fails or has consumed between 1
  and the remaining number of bytes and written a NUL-terminated text of a well-formed name.\<close>

theorem uncompress_any_message:
  assumes "length tmp = MAXCDNAME" "eom \<le> length msg" "sz \<le> length d0"
  shows "\<exists>r d. MRns_name_uncompress tmp msg eom src d0 sz = Ret (r, d) \<and> length d = length d0
    \<and> (r = - 1 \<or> 0 < r \<and> r \<le> int eom - int src
        \<and> (\<exists>ls. (\<forall>l \<in> set ls. wf_label l) \<and> strlen_from d = Ret (length (name_text ls))
            \<and> take (length (name_text ls)) d = name_text ls \<and> length (name_text ls) < sz))"
proof -
  obtain r d where u: "MRns_name_uncompress tmp msg eom src d0 sz = Ret (r, d)" "length d = length d0"
      "r = - 1 \<or> (\<exists>ls. (\<forall>l \<in> set ls. wf_label l) \<and> d = put d0 0 (name_text ls @ [0])
        \<and> length (name_text ls) < sz \<and> 0 < r \<and> r \<le> int eom - int src)"
    using uncompress_spec [OF assms] by blast
  have "strlen_from (put d0 0 (name_text ls @ [0])) = Ret (length (name_text ls))" for ls
    using name_text_nonzero [of ls] by (simp add: put_def)
  moreover have "take (length (name_text ls)) (put d0 0 (name_text ls @ [0])) = name_text ls" for ls
    by (simp add: put_def)
  ultimately show ?thesis using u by auto
qed

theorem uncompress_any_message_witness:
  "\<exists>r d. MRns_name_uncompress (replicate 255 0) [0xC0, 0, 0xC0, 2] 4 0 (replicate 8 0) 8 = Ret (r, d) \<and> length d = 8"
  using uncompress_any_message [of "replicate 255 0" 4 "[0xC0, 0, 0xC0, 2]" 8 "replicate 8 0" 0]
  by (auto simp: MAXCDNAME_def)

section \<open>Lists of names\<close>

lemma finish_list:
  assumes "k < length b" "0 \<notin> set (take k b)"
  shows "\<exists>b'. bindC (wr b k 0) (\<lambda>b. bindC (strlen_from b) (\<lambda>n. Ret (int n, b))) = Ret (int k, b') \<and> length b' = length b
    \<and> strlen_from b' = Ret k"
proof -
  have "b[k := 0] = take k b @ 0 # drop (k + 1) b" using assms(1) by (simp add: upd_conv_take_nth_drop)
  moreover have "length (take k b) = k" using assms(1) by simp
  ultimately have "strlen_from (b[k := 0]) = Ret k" using strlen_append [OF assms(2), of "drop (k + 1) b"] by simp
  then show ?thesis using assms(1) by simp
qed

lemma uncompress_list_loop_spec:
  assumes "length tmp = MAXCDNAME" "buflen \<le> length buf"
    and "dst + nat rem < length b" "first_pass \<or> 0 < rem" "0 \<notin> set (take dst b)"
  shows "\<exists>r d. uncompress_list_loop tmp buf buflen src b dst rem first_pass = Some (Ret (r, d)) \<and> length d = length b
    \<and> (r = - 1 \<or> 0 \<le> r \<and> strlen_from d = Ret (nat r))"
  using assms(3-5)
proof (induction "buflen - src" arbitrary: src b dst rem first_pass rule: less_induct)
  case less
  note loop = uncompress_list_loop.simps [of tmp buf buflen src b dst rem first_pass]
  show ?case
  proof (cases "src < buflen \<and> 0 < rem")
    case False
    then show ?thesis
      using finish_list [of dst b] less.prems loop by (auto simp del: strlen_append)
  next
    case True
    define b1 where "b1 = (if first_pass then b else b[dst := 0x2C, dst + 1 := 0])"
    define k where "k = (if first_pass then dst else dst + 1)"
    define rem1 where "rem1 = (if first_pass then rem else rem - 1)"
    have pre: "(if first_pass then Ret (b, dst, rem)
        else bindC (wr b dst 0x2C) (\<lambda>b. bindC (wr b (dst + 1) 0) (\<lambda>b. Ret (b, dst + 1, rem - 1)))) = Ret (b1, k, rem1)"
      using less.prems(1) True by (auto simp: b1_def k_def rem1_def)
    have b1: "length b1 = length b" "k + nat rem1 < length b" "k \<le> length b1" "0 \<notin> set (take k b1)"
    proof -
      show "length b1 = length b" by (simp add: b1_def)
      then show "k + nat rem1 < length b" "k \<le> length b1" using less.prems(1) True by (auto simp: k_def rem1_def)
      have "take (Suc dst) (b[dst := 0x2C, Suc dst := 0]) = take dst b @ [0x2C]"
        using less.prems(1) True by (simp add: take_Suc_conv_app_nth)
      then show "0 \<notin> set (take k b1)" using less.prems(3) by (auto simp: b1_def k_def)
    qed
    have "nat rem1 \<le> length (drop k b1)" using b1(1,2) by simp
    then obtain r d where u: "MRns_name_uncompress tmp buf buflen src (drop k b1) (nat rem1) = Ret (r, d)"
        "length d = length (drop k b1)"
        "r = - 1 \<or> (\<exists>ls. (\<forall>l \<in> set ls. wf_label l) \<and> d = put (drop k b1) 0 (name_text ls @ [0])
          \<and> length (name_text ls) < nat rem1 \<and> 0 < r \<and> r \<le> int buflen - int src)"
      using uncompress_spec [OF assms(1,2)] by blast
    let ?b = "take k b1 @ d"
    have lb: "length ?b = length b" using u(2) b1(1,3) by simp
    show ?thesis
    proof (cases "r = - 1")
      case True
      then show ?thesis
        using loop pre u(1) lb \<open>src < buflen \<and> 0 < rem\<close> by (simp add: Let_def)
    next
      case False
      then obtain ls where ls: "d = put (drop k b1) 0 (name_text ls @ [0])" "length (name_text ls) < nat rem1"
          "0 < r" "r \<le> int buflen - int src" using u(3) by auto
      let ?n = "length (name_text ls)"
      have d: "d = name_text ls @ 0 # drop (?n + 1) (drop k b1)" using ls(1) by (simp add: put_def)
      then have sl: "strlen_from d = Ret ?n" using name_text_nonzero [of ls] by simp
      have tk: "take (k + ?n) ?b = take k b1 @ name_text ls" using b1(3) d by simp
      have "\<exists>r' d'. uncompress_list_loop tmp buf buflen (src + nat r) ?b (k + ?n) (rem1 - int ?n) False = Some (Ret (r', d'))
          \<and> length d' = length ?b \<and> (r' = - 1 \<or> 0 \<le> r' \<and> strlen_from d' = Ret (nat r'))"
      proof (rule less.hyps)
        show "buflen - (src + nat r) < buflen - src" using ls(3) True by linarith
        show "k + ?n + nat (rem1 - int ?n) < length ?b" using lb b1(2) ls(2) by linarith
        show "False \<or> 0 < rem1 - int ?n" using ls(2) by linarith
        show "0 \<notin> set (take (k + ?n) ?b)" unfolding tk using b1(4) name_text_nonzero [of ls] by simp
      qed
      then show ?thesis
        using loop pre u(1) lb sl ls(3) True b1(3) by (simp add: Let_def)
    qed
  qed
qed

lemma uncompress_list_loop_ends: "\<exists>x. uncompress_list_loop tmp buf buflen src b dst rem first_pass = Some x"
proof (induction "buflen - src" arbitrary: src b dst rem first_pass rule: less_induct)
  case less
  have ih: "\<exists>x. uncompress_list_loop tmp buf buflen (src + nat c) b' d' rem' False = Some x"
    if "src < buflen" "0 < c" for c b' d' rem'
    using less.hyps [of "src + nat c"] that by auto
  show ?case by (subst uncompress_list_loop.simps) (auto simp: ih split: cres.splits prod.splits)
qed

lemma int_of_size_take: "int_of_size n = signed_take_bit 31 (uint (of_nat n :: 32 word))"
  by (simp add: int_of_size_def sint_uint)

lemma int_of_size_le: "int_of_size n \<le> int n"
proof -
  have "int_of_size n \<le> uint (of_nat n :: 32 word)"
    unfolding int_of_size_take by (simp add: signed_take_bit_int_less_eq_self_iff order_trans [OF _ uint_ge_0])
  also have "\<dots> \<le> int n" by (simp add: uint_nat unat_of_nat)
  finally show ?thesis .
qed

lemma int_of_size_small: "n < 2 ^ 31 \<Longrightarrow> int_of_size n = int n"
  unfolding int_of_size_take by (subst signed_take_bit_int_eq_self) (simp_all add: uint_nat unat_of_nat)

text \<open>C29: \<open>MRns_name_uncompress_list\<close> ends for every input and every size. With a temporary buffer of
  \<open>MAXCDNAME\<close> bytes and a list of \<open>buflen\<close> bytes, if the output buffer has at least one byte more than
  the size that is passed, it reads only inside the list and writes only inside the output buffer,
  and a result other than -1 is the length of the string in the buffer. The callers in
  \<open>common/tree.c\<close> pass the whole size of the buffer, for which the extra byte is missing.\<close>

theorem uncompress_list_ends_safely:
  "(\<exists>x. MRns_name_uncompress_list tmp list buflen dst_buf dst_size = Some x)
    \<and> (length tmp = MAXCDNAME \<and> list = Some buf \<and> buflen \<le> length buf \<and> dst_size < length dst_buf
      \<longrightarrow> (\<exists>r d. MRns_name_uncompress_list tmp list buflen dst_buf dst_size = Some (Ret (r, d))
          \<and> length d = length dst_buf \<and> (r = - 1 \<or> 0 \<le> r \<and> strlen_from d = Ret (nat r))))"
proof (intro conjI impI)
  show "\<exists>x. MRns_name_uncompress_list tmp list buflen dst_buf dst_size = Some x"
    using uncompress_list_loop_ends
    by (auto simp: MRns_name_uncompress_list_def split: option.split cres.split)
next
  assume a: "length tmp = MAXCDNAME \<and> list = Some buf \<and> buflen \<le> length buf \<and> dst_size < length dst_buf"
  have w: "\<exists>d. bindC (wr dst_buf 0 0) (\<lambda>b. Ret (0, b)) = Ret (0 :: int, d) \<and> length d = length dst_buf \<and> strlen_from d = Ret 0"
    using a by (cases dst_buf) auto
  have loop: "\<exists>r d. uncompress_list_loop tmp buf buflen 0 dst_buf 0 (int_of_size dst_size) True = Some (Ret (r, d))
      \<and> length d = length dst_buf \<and> (r = - 1 \<or> 0 \<le> r \<and> strlen_from d = Ret (nat r))"
    by (rule uncompress_list_loop_spec) (use a int_of_size_le [of dst_size] in auto)
  show "\<exists>r d. MRns_name_uncompress_list tmp list buflen dst_buf dst_size = Some (Ret (r, d))
      \<and> length d = length dst_buf \<and> (r = - 1 \<or> 0 \<le> r \<and> strlen_from d = Ret (nat r))"
  proof (cases "buflen = 0 \<or> buf ! 0 = 0")
    case True
    then show ?thesis using w a by (auto simp: MRns_name_uncompress_list_def rd_def)
  next
    case False
    then show ?thesis using loop a by (auto simp: MRns_name_uncompress_list_def rd_def)
  qed
qed

theorem uncompress_list_ends_safely_witness:
  "\<exists>r d. MRns_name_uncompress_list (replicate 255 0) (Some [1, 97, 0, 1, 98, 0]) 6 [0, 0, 0] 2 = Some (Ret (r, d))
    \<and> length d = 3"
  using uncompress_list_ends_safely [of "replicate 255 0" "Some [1, 97, 0, 1, 98, 0]" 6 "[0, 0, 0]" 2 "[1, 97, 0, 1, 98, 0]"]
  by (auto simp: MAXCDNAME_def)

section \<open>Packing and skipping\<close>

text \<open>A name in wire format at an index: its first label, and what follows.\<close>

definition name_at :: "byte list \<Rightarrow> nat \<Rightarrow> byte list list \<Rightarrow> bool" where
  "name_at m p ls \<longleftrightarrow> (\<forall>l \<in> set ls. wf_label l) \<and> p + length (wire ls) \<le> length m
     \<and> take (length (wire ls)) (drop p m) = wire ls"

lemma name_at_Nil: "name_at m p [] \<Longrightarrow> p < length m \<and> m ! p = 0"
  by (cases "drop p m") (auto simp: name_at_def wire_def nth_via_drop)

lemma name_at_Cons:
  assumes "name_at m p (l # ls)"
  shows "wf_label l" "p < length m" "m ! p = of_nat (length l)" "take (length l) (drop (p + 1) m) = l"
    "take (length l + 1) (drop p m) = wire_label l" "p + 1 + length l \<le> length m" "name_at m (p + 1 + length l) ls"
proof -
  let ?n = "length l + 1"
  have a: "wf_label l" "p + ?n + length (wire ls) \<le> length m" "take (?n + length (wire ls)) (drop p m) = wire_label l @ wire ls"
    using assms by (auto simp: name_at_def wire_Cons)
  show "wf_label l" by (rule a(1))
  show lt: "p < length m" "p + 1 + length l \<le> length m" using a(2) by auto
  have hd: "take ?n (drop p m) = wire_label l"
    using arg_cong [OF a(3), of "take ?n"] by (simp add: take_take)
  then show "take (length l + 1) (drop p m) = wire_label l" .
  have "drop p m = m ! p # drop (p + 1) m" using Cons_nth_drop_Suc [OF lt(1)] by simp
  with hd show "m ! p = of_nat (length l)" "take (length l) (drop (p + 1) m) = l" by (auto simp: wire_label_def)
  have "take (length (wire ls)) (drop ?n (drop p m)) = wire ls"
    using arg_cong [OF a(3), of "drop ?n"] by (simp add: drop_take)
  then show "name_at m (p + 1 + length l) ls"
    using assms a(2) by (auto simp: name_at_def ac_simps)
qed

lemma length_wire: "length (wire (l # ls)) = length l + 1 + length (wire ls)" "0 < length (wire ls)"
  by (simp_all add: wire_Cons) (simp add: wire_def)

lemma unpack_plain:
  assumes "name_at msg srcp ls" "srcp + length (wire ls) \<le> eom" "eom \<le> length msg"
    and "length w + length (wire ls) \<le> dstlim" "dstlim \<le> length d0"
  shows "unpack_loop msg eom src dstlim srcp (length w) (put d0 0 w) len checked
    = Ret (if len < 0 then int (srcp + length (wire ls)) - int src else len, put d0 0 (w @ wire ls))"
  using assms(1,2,4)
proof (induction ls arbitrary: srcp w checked)
  case Nil
  then show ?case
    using name_at_Nil [of msg srcp] wr_put [of 0 w d0 0] assms(5)
      unpack_loop.simps [of msg eom src dstlim srcp "length w" "put d0 0 w" len checked]
    by (simp add: wire_def)
next
  case (Cons l ls)
  note a = name_at_Cons [OF Cons.prems(1)] and n = wire_label_unat [OF a(1)]
  have fits: "\<not> (length w + length l + 1 \<ge> dstlim \<or> srcp + 1 + length l \<ge> eom)"
    using Cons.prems(2,3) length_wire(1) [of l ls] length_wire(2) [of ls] by linarith
  have wrn: "wrn (put d0 0 w) (length w) (wire_label l) = Ret (put d0 0 (w @ wire_label l))"
    using wrn_put [of 0 w "wire_label l" d0] fits assms(5) by simp
  have rdn: "rdn msg (srcp + 1) (length l) = Ret l" using a(4,6) by (simp add: rdn_def)
  have "unpack_loop msg eom src dstlim srcp (length w) (put d0 0 w) len checked
      = unpack_loop msg eom src dstlim (srcp + 1 + length l) (length (w @ wire_label l)) (put d0 0 (w @ wire_label l))
          len (checked + length l + 1)"
    using unpack_loop.simps [of msg eom src dstlim srcp "length w" "put d0 0 w" len checked] a(2,3) n fits rdn wrn
    by (simp add: wire_label_def)
  then show ?case
    using Cons.IH [OF a(7), of "w @ wire_label l"] Cons.prems(2,3) length_wire(1) [of l ls]
    by (simp add: wire_Cons ac_simps)
qed

lemma legal_name_spec:
  assumes "name_at src p ls" "k + length (wire ls) \<le> MAXCDNAME"
  shows "legal_name src p k = Ret True"
  using assms
proof (induction ls arbitrary: p k)
  case Nil
  then show ?case using name_at_Nil [of src p] legal_name.simps [of src p k] by (simp add: wire_def)
next
  case (Cons l ls)
  note a = name_at_Cons [OF Cons.prems(1)] and n = wire_label_unat [OF a(1)]
  show ?case
    using legal_name.simps [of src p k] a(2,3) n Cons.prems(2) length_wire(1) [of l ls]
      Cons.IH [OF a(7), of "k + length l + 1"] by (simp add: ac_simps)
qed

lemma pack_plain:
  assumes "name_at src p ls" "length w + length (wire ls) < n" "dst + n \<le> length m0"
  shows "pack_loop src dst (dst + n) None srch lastp p (put m0 dst w) (dst + length w) ptrs
    = Some (Ret (int (length (w @ wire ls)), put m0 dst (w @ wire ls), ptrs))"
  using assms(1,2)
proof (induction ls arbitrary: p w)
  case Nil
  then have "wrn (put m0 dst w) (dst + length w) [0] = Ret (put m0 dst (w @ [0]))"
    using wrn_put [of dst w "[0]" m0] assms(3) by (simp add: wire_def)
  moreover have "rdn src p (Suc 0) = Ret [0]"
    using name_at_Nil [OF Nil(1)] by (simp add: rdn_def take_Suc_conv_app_nth hd_drop_conv_nth)
  ultimately show ?case
    using name_at_Nil [OF Nil(1)] Nil(2)
      pack_loop.simps [of src dst "dst + n" None srch lastp p "put m0 dst w" "dst + length w" ptrs]
    by (simp add: wire_def)
next
  case (Cons l ls)
  note a = name_at_Cons [OF Cons.prems(1)] and m = wire_label_unat [OF a(1)]
  have fits: "\<not> dst + length w + 1 + length l \<ge> dst + n"
    using Cons.prems(2) length_wire(1) [of l ls] length_wire(2) [of ls] by linarith
  have wrn: "wrn (put m0 dst w) (dst + length w) (wire_label l) = Ret (put m0 dst (w @ wire_label l))"
    using wrn_put [of dst w "wire_label l" m0] fits assms(3) by simp
  have rdn: "rdn src p (length l + 1) = Ret (wire_label l)" using a(5,6) by (simp add: rdn_def)
  have "pack_loop src dst (dst + n) None srch lastp p (put m0 dst w) (dst + length w) ptrs
      = pack_loop src dst (dst + n) None srch lastp (p + 1 + length l) (put m0 dst (w @ wire_label l))
          (dst + length (w @ wire_label l)) ptrs"
    using pack_loop.simps [of src dst "dst + n" None srch lastp p "put m0 dst w" "dst + length w" ptrs] a(2,3) m fits rdn wrn
    by (simp add: ac_simps)
  then show ?case
    using Cons.IH [OF a(7), of "w @ wire_label l"] Cons.prems(2) length_wire(1) [of l ls] by (simp add: wire_Cons)
qed

text \<open>C27: A name packed without compression pointers is unpacked again: \<open>MRns_name_pack\<close> copies
  a legal name into the message and returns its length, and \<open>MRns_name_unpack\<close> from that place
  returns the same length and the same bytes.\<close>

theorem unpack_of_pack:
  assumes "name_at src 0 ls" "length (wire ls) \<le> MAXCDNAME" "length (wire ls) < n" "dst + n \<le> length m0"
    and "length (wire ls) \<le> sz" "sz \<le> length d0"
  shows "\<exists>m d. MRns_name_pack src m0 dst n None None = Some (Ret (int (length (wire ls)), m, []))
    \<and> MRns_name_unpack m (length m) dst d0 sz = Ret (int (length (wire ls)), d)
    \<and> take (length (wire ls)) d = wire ls"
proof -
  let ?m = "put m0 dst (wire ls)"
  have pack: "MRns_name_pack src m0 dst n None None = Some (Ret (int (length (wire ls)), ?m, []))"
    using legal_name_spec [OF assms(1), of 0] pack_plain [OF assms(1), of "[]" n dst m0 "[]" None "[]"] assms(2-4)
    by (simp add: MRns_name_pack_def)
  have "name_at ?m dst ls" using assms(1,3,4) by (auto simp: name_at_def put_def)
  then have "MRns_name_unpack ?m (length ?m) dst d0 sz = Ret (int (length (wire ls)), put d0 0 (wire ls))"
    using unpack_plain [of ?m dst ls "length ?m" "[]" sz d0 dst "- 1" 0] assms(3-6) length_wire(2) [of ls]
    by (simp add: MRns_name_unpack_def)
  then show ?thesis using pack assms(5,6) by auto
qed

theorem unpack_of_pack_witness:
  "\<exists>m d. MRns_name_pack [1, 97, 2, 98, 99, 0] (replicate 10 7) 2 8 None None = Some (Ret (int 6, m, []))
    \<and> MRns_name_unpack m (length m) 2 (replicate 9 1) 9 = Ret (int 6, d) \<and> take (length [1, 97, 2, 98, 99, 0 :: byte]) d = [1, 97, 2, 98, 99, 0]"
  using unpack_of_pack [of "[1, 97, 2, 98, 99, 0]" "[[97], [98, 99]]" 8 2 "replicate 10 7" 9 "replicate 9 1"]
  by (simp add: name_at_def wire_def wire_label_def wf_label_def MAXCDNAME_def)

text \<open>C30: \<open>MRns_name_uncompress_list\<close> can write one byte past the buffer it is given: here a name
  whose text fills the buffer of two bytes is followed by another name, and the NUL after the
  separating comma does not fit.\<close>

theorem uncompress_list_overflow:
  assumes "length tmp = MAXCDNAME"
  shows "MRns_name_uncompress_list tmp (Some [1, 97, 0, 1, 98, 0]) 6 [0, 0] 2 = Some Undef"
proof -
  let ?buf = "[1, 97, 0, 1, 98, 0] :: byte list"
  have "MRns_name_unpack ?buf 6 0 tmp MAXCDNAME = Ret (3, put tmp 0 (wire [[97]]))"
    using unpack_plain [of ?buf 0 "[[97]]" 6 "[]" MAXCDNAME tmp 0 "- 1" 0] assms
    by (simp add: MRns_name_unpack_def name_at_def wf_label_def wire_def wire_label_def MAXCDNAME_def)
  moreover have "MRns_name_ntop (put tmp 0 (wire [[97]])) [0, 0] 2 = Ret (2, [97, 0])"
    using ntop_spec [of "[[97]]" "put tmp 0 (wire [[97]])" 2 "[0, 0]"] assms
    by (simp add: wf_label_def wire_def wire_label_def name_text_def label_text_def esc_def special_def printable_def
        put_def MAXCDNAME_def)
  ultimately have "MRns_name_uncompress tmp ?buf 6 0 [0, 0] 2 = Ret (3, [97, 0])"
    by (simp add: MRns_name_uncompress_def)
  moreover have "uncompress_list_loop tmp ?buf 6 3 [97, 0] (Suc 0) 1 False = Some Undef"
    using uncompress_list_loop.simps [of tmp ?buf 6 3 "[97, 0]" "Suc 0" 1 False] by (simp add: wr_def)
  ultimately show ?thesis
    using uncompress_list_loop.simps [of tmp ?buf 6 0 "[0, 0]" 0 2 True]
    by (simp add: MRns_name_uncompress_list_def int_of_size_small)
qed

theorem uncompress_list_overflow_witness:
  "MRns_name_uncompress_list (replicate 255 0) (Some [1, 97, 0, 1, 98, 0]) 6 [0, 0] 2 = Some Undef"
  by (rule uncompress_list_overflow) (simp add: MAXCDNAME_def)

lemma unpack_loop_len:
  assumes "unpack_loop msg eom src dstlim srcp dstp dst len checked = Ret (r, d)" "r \<noteq> - 1" "0 \<le> len"
  shows "r = len"
  using assms
proof (induction msg eom src dstlim srcp dstp dst len checked rule: unpack_loop.induct)
  case (1 msg eom src dstlim srcp dstp dst len checked)
  note loop = "1.prems"(1) [unfolded unpack_loop.simps [of msg eom src dstlim srcp dstp dst len checked]]
  then obtain n where rd: "rd msg srcp = Ret n" by (auto simp: cres_simps)
  consider (zero) "n = 0" | (lab) "n \<noteq> 0" "n AND NS_CMPRSFLGS = 0"
    | (ptr) "n \<noteq> 0" "n AND NS_CMPRSFLGS = NS_CMPRSFLGS" "n AND NS_CMPRSFLGS \<noteq> 0"
    | (bad) "n \<noteq> 0" "n AND NS_CMPRSFLGS \<noteq> NS_CMPRSFLGS" "n AND NS_CMPRSFLGS \<noteq> 0" by blast
  then show ?case
  proof cases
    case lab
    have room: "\<not> (dstp + unat n + 1 \<ge> dstlim \<or> srcp + 1 + unat n \<ge> eom)"
      using loop rd lab "1.prems"(2) by (auto split: if_splits)
    then obtain bs dst' where s: "rdn msg (srcp + 1) (unat n) = Ret bs" "wrn dst dstp (n # bs) = Ret dst'"
        "unpack_loop msg eom src dstlim (srcp + 1 + unat n) (dstp + 1 + unat n) dst' len (checked + unat n + 1) = Ret (r, d)"
      using loop rd lab by (auto simp: cres_simps)
    then show ?thesis using "1.IH"(1) [OF rd lab room s(1,2)] "1.prems"(2,3) by blast
  next
    case ptr
    then obtain lo where s: "\<not> eom \<le> srcp + 1" "rd msg (srcp + 1) = Ret lo" "\<not> eom \<le> ptr_offset n lo" "\<not> eom \<le> checked + 2"
        "unpack_loop msg eom src dstlim (ptr_offset n lo) dstp dst len (checked + 2) = Ret (r, d)"
      using loop rd "1.prems"(2,3) by (auto simp: cres_simps split: if_splits)
    then show ?thesis using "1.IH"(2) [OF rd ptr(1,3,2) s(1-4)] "1.prems"(2,3) by simp
  qed (use loop rd "1.prems"(2,3) in \<open>auto simp: cres_simps\<close>)
qed

lemma skip_of_unpack_loop:
  assumes "unpack_loop msg eom src dstlim srcp dstp dst len checked = Ret (r, d)" "r \<noteq> - 1" "len < 0"
    and "src \<le> srcp" "srcp < eom"
  shows "skip_loop msg eom srcp = Ret (Some (src + nat r))"
  using assms
proof (induction msg eom src dstlim srcp dstp dst len checked rule: unpack_loop.induct)
  case (1 msg eom src dstlim srcp dstp dst len checked)
  note loop = "1.prems"(1) [unfolded unpack_loop.simps [of msg eom src dstlim srcp dstp dst len checked]]
  then obtain n where rd: "rd msg srcp = Ret n" by (auto simp: cres_simps)
  note skip = skip_loop.simps [of msg eom srcp, unfolded rd bindC.simps]
  consider (zero) "n = 0" | (lab) "n \<noteq> 0" "n AND NS_CMPRSFLGS = 0"
    | (ptr) "n \<noteq> 0" "n AND NS_CMPRSFLGS = NS_CMPRSFLGS" "n AND NS_CMPRSFLGS \<noteq> 0"
    | (bad) "n \<noteq> 0" "n AND NS_CMPRSFLGS \<noteq> NS_CMPRSFLGS" "n AND NS_CMPRSFLGS \<noteq> 0" by blast
  then show ?case
  proof cases
    case zero
    then have "r = int (srcp + 1) - int src" using loop rd "1.prems"(3) by (auto simp: cres_simps)
    then show ?thesis unfolding skip using zero "1.prems"(4,5) by auto
  next
    case lab
    have room: "\<not> (dstp + unat n + 1 \<ge> dstlim \<or> srcp + 1 + unat n \<ge> eom)"
      using loop rd lab "1.prems"(2) by (auto split: if_splits)
    then obtain bs dst' where s: "rdn msg (srcp + 1) (unat n) = Ret bs" "wrn dst dstp (n # bs) = Ret dst'"
        "unpack_loop msg eom src dstlim (srcp + 1 + unat n) (dstp + 1 + unat n) dst' len (checked + unat n + 1) = Ret (r, d)"
      using loop rd lab by (auto simp: cres_simps)
    then show ?thesis
      unfolding skip using "1.IH"(1) [OF rd lab room s(1,2)] "1.prems"(2-5) lab room by simp
  next
    case ptr
    then obtain lo where s: "\<not> eom \<le> srcp + 1"
        "unpack_loop msg eom src dstlim (ptr_offset n lo) dstp dst (int (srcp + 1) - int src + 1) (checked + 2) = Ret (r, d)"
      using loop rd "1.prems"(2,3) by (auto simp: cres_simps split: if_splits)
    then have "r = int (srcp + 1) - int src + 1" using unpack_loop_len "1.prems"(2,4) by fastforce
    then show ?thesis unfolding skip using ptr s(1) "1.prems"(4,5) by auto
  next
    case bad
    then show ?thesis using loop rd "1.prems"(2) by auto
  qed
qed

text \<open>C28: \<open>MRns_name_skip\<close> and \<open>MRns_name_unpack\<close> agree on where a name ends: when a name can be
  unpacked, skipping it advances by the number of bytes the unpacking consumed.\<close>

theorem skip_agrees_with_unpack:
  assumes "MRns_name_unpack msg eom src dst sz = Ret (r, d)" "r \<noteq> - 1"
  shows "MRns_name_skip msg src eom = Ret (Some (src + nat r))"
  using skip_of_unpack_loop [of msg eom src sz src 0 dst "- 1" 0 r d] assms
  by (auto simp: MRns_name_unpack_def MRns_name_skip_def split: if_splits)

theorem skip_agrees_with_unpack_witness:
  "\<exists>d. MRns_name_unpack [0, 1, 97, 0xC0, 0, 9] 6 1 (replicate 9 0) 9 = Ret (4, d)
    \<and> MRns_name_skip [0, 1, 97, 0xC0, 0, 9] 1 6 = Ret (Some (1 + nat 4))"
proof -
  have d: "MRns_name_unpack [0, 1, 97, 0xC0, 0, 9] 6 1 (replicate 9 0) 9 = Ret (4, [1, 97, 0, 0, 0, 0, 0, 0, 0])"
    by code_simp
  then show ?thesis using skip_agrees_with_unpack [OF d] by simp
qed

end
