(* ===== verification/Packet_Headers.thy ===== *)
theory Packet_Headers
  imports Dhcp_Prelude
begin

text \<open>
  Link, IP and UDP headers: \<open>common/packet.c\<close> and \<open>common/ethernet.c\<close>. A structure that is
  copied to or from a packet is a record with its image in memory. A 16-bit field in network
  order is the number it stands for, so that \<open>htons\<close> and \<open>ntohs\<close> are part of taking
  and reading the image; addresses and ports the code never looks into stay byte strings. The
  hardware types are those of a build without token ring and FDDI; \<open>userland_filter\<close> is the
  build option \<open>USERLAND_FILTER\<close>.
\<close>

section \<open>Checksums\<close>

definition add_carry16 :: "u32 \<Rightarrow> u32" where
  "add_carry16 acc = (if acc > 0xFFFF then acc - 0xFFFF else acc)"

fun checksum_loop :: "byte list \<Rightarrow> nat \<Rightarrow> nat \<Rightarrow> u32 \<Rightarrow> u32 cres" where
  "checksum_loop buf i 0 acc = Ret acc"
| "checksum_loop buf i (Suc k) acc =
     bindC (rdn buf i 2) (\<lambda>w. checksum_loop buf (i + 2) k (add_carry16 (acc + of_nat (be_val w))))"

text \<open>The bytes start at index \<open>i\<close> of \<open>buf\<close>.\<close>

definition checksum :: "byte list \<Rightarrow> nat \<Rightarrow> nat \<Rightarrow> u32 \<Rightarrow> u32 cres" where
  "checksum buf i nbytes acc =
     bindC (checksum_loop buf i (nbytes div 2) acc) (\<lambda>acc.
       if odd nbytes
       then bindC (rd buf (i + nbytes - 1)) (\<lambda>b. Ret (add_carry16 (acc + of_nat (unat b * 256))))
       else Ret acc)"

definition wrapsum :: "u32 \<Rightarrow> u16" where
  "wrapsum acc = ucast (NOT acc AND 0xFFFF)"

section \<open>The headers\<close>

record ip =
  ip_fvhl :: byte
  ip_tos :: byte
  ip_len :: u16
  ip_id :: u16
  ip_off :: u16
  ip_ttl :: byte
  ip_p :: byte
  ip_sum :: u16
  ip_src :: "byte list"
  ip_dst :: "byte list"

record udphdr =
  uh_sport :: "byte list"
  uh_dport :: "byte list"
  uh_ulen :: u16
  uh_sum :: u16

definition be16 :: "u16 \<Rightarrow> byte list" where
  "be16 x = be_bytes 2 (unat x)"

definition get16 :: "byte list \<Rightarrow> nat \<Rightarrow> u16" where
  "get16 bs i = of_nat (be_val (take 2 (drop i bs)))"

definition ip_image :: "ip \<Rightarrow> byte list" where
  "ip_image h = [ip_fvhl h, ip_tos h] @ be16 (ip_len h) @ be16 (ip_id h) @ be16 (ip_off h)
     @ [ip_ttl h, ip_p h] @ be16 (ip_sum h) @ ip_src h @ ip_dst h"

definition ip_of :: "byte list \<Rightarrow> ip" where
  "ip_of bs = \<lparr>ip_fvhl = bs ! 0, ip_tos = bs ! 1, ip_len = get16 bs 2, ip_id = get16 bs 4,
     ip_off = get16 bs 6, ip_ttl = bs ! 8, ip_p = bs ! 9, ip_sum = get16 bs 10,
     ip_src = take 4 (drop 12 bs), ip_dst = take 4 (drop 16 bs)\<rparr>"

definition udp_image :: "udphdr \<Rightarrow> byte list" where
  "udp_image h = uh_sport h @ uh_dport h @ be16 (uh_ulen h) @ be16 (uh_sum h)"

definition udp_of :: "byte list \<Rightarrow> udphdr" where
  "udp_of bs = \<lparr>uh_sport = take 2 bs, uh_dport = take 2 (drop 2 bs), uh_ulen = get16 bs 4, uh_sum = get16 bs 6\<rparr>"

definition IP_V_SET :: "byte \<Rightarrow> ip \<Rightarrow> ip" where
  "IP_V_SET x h = h\<lparr>ip_fvhl := (ip_fvhl h AND 0x0F) OR push_bit 4 x\<rparr>"

definition IP_HL_SET :: "byte \<Rightarrow> ip \<Rightarrow> ip" where
  "IP_HL_SET x h = h\<lparr>ip_fvhl := (ip_fvhl h AND 0xF0) OR (drop_bit 2 x AND 0x0F)\<rparr>"

definition IPTOS_LOWDELAY :: byte where "IPTOS_LOWDELAY = 0x10"

definition IPPROTO_UDP :: nat where "IPPROTO_UDP = 17"

section \<open>Assembling the IP and UDP headers\<close>

definition zero_ip :: ip where
  "zero_ip = \<lparr>ip_fvhl = 0, ip_tos = 0, ip_len = 0, ip_id = 0, ip_off = 0, ip_ttl = 0, ip_p = 0, ip_sum = 0,
     ip_src = replicate 4 0, ip_dst = replicate 4 0\<rparr>"

definition pseudo_header :: "ip \<Rightarrow> byte list" where
  "pseudo_header h = ip_src h @ ip_dst h"

definition assemble_udp_ip_header ::
  "byte list \<Rightarrow> byte list \<Rightarrow> nat \<Rightarrow> byte list \<Rightarrow> byte list \<Rightarrow> byte list \<Rightarrow> byte list \<Rightarrow> nat \<Rightarrow> (byte list \<times> nat) cres" where
  "assemble_udp_ip_header local_port buf bufix from to port data len =
     (let ip = (IP_HL_SET 20 (IP_V_SET 4 zero_ip))\<lparr>ip_tos := IPTOS_LOWDELAY, ip_len := of_nat (20 + 8 + len),
           ip_id := 0, ip_off := 0, ip_ttl := 128, ip_p := of_nat IPPROTO_UDP, ip_sum := 0,
           ip_src := from, ip_dst := to\<rparr>
      in
      bindC (checksum (ip_image ip) 0 20 0) (\<lambda>c.
      let ip = ip\<lparr>ip_sum := wrapsum c\<rparr> in
      bindC (wrn buf bufix (ip_image ip)) (\<lambda>buf.
      let bufix = bufix + 20;
          udp = \<lparr>uh_sport = local_port, uh_dport = port, uh_ulen = of_nat (8 + len), uh_sum = 0\<rparr>
      in
      bindC (checksum (pseudo_header ip) 0 8 (of_nat IPPROTO_UDP + of_nat (unat (uh_ulen udp)))) (\<lambda>c.
      bindC (checksum data 0 len c) (\<lambda>c.
      bindC (checksum (udp_image udp) 0 8 c) (\<lambda>c.
      let udp = udp\<lparr>uh_sum := wrapsum c\<rparr> in
      bindC (wrn buf bufix (udp_image udp)) (\<lambda>buf. Ret (buf, bufix + 8))))))))"

section \<open>Decoding the IP and UDP headers\<close>

text \<open>The static counters of \<open>decode_udp_ip_header\<close>.\<close>

record udp_stats =
  ip_packets_seen :: u32
  ip_packets_bad_checksum :: u32
  udp_packets_seen :: u32
  udp_packets_bad_checksum :: u32
  udp_packets_length_checked :: u32
  udp_packets_length_overflow :: u32

text \<open>The address the sender is reported in.\<close>

record sockaddr_in =
  sin_port :: "byte list"
  sin_addr :: "byte list"

definition mostly_bad :: "u32 \<Rightarrow> u32 \<Rightarrow> bool" where
  "mostly_bad seen bad \<longleftrightarrow> seen > 4 \<and> bad \<noteq> 0 \<and> seen div bad < 2"

definition length_ok :: "udp_stats \<Rightarrow> udp_stats" where
  "length_ok st = (if udp_packets_length_checked st > 4
     then st\<lparr>udp_packets_length_overflow := 0, udp_packets_length_checked := 0\<rparr> else st)"

definition length_bad :: "udp_stats \<Rightarrow> udp_stats" where
  "length_bad st =
     (let st = st\<lparr>udp_packets_length_overflow := udp_packets_length_overflow st + 1\<rparr>
      in if mostly_bad (udp_packets_length_checked st) (udp_packets_length_overflow st)
         then st\<lparr>udp_packets_length_overflow := 0, udp_packets_length_checked := 0\<rparr> else st)"

definition ip_ok :: "udp_stats \<Rightarrow> udp_stats" where
  "ip_ok st = (if ip_packets_seen st > 4 then st\<lparr>ip_packets_bad_checksum := 0, ip_packets_seen := 0\<rparr> else st)"

definition ip_bad :: "udp_stats \<Rightarrow> udp_stats" where
  "ip_bad st =
     (let st = st\<lparr>ip_packets_bad_checksum := ip_packets_bad_checksum st + 1\<rparr>
      in if mostly_bad (ip_packets_seen st) (ip_packets_bad_checksum st)
         then st\<lparr>ip_packets_seen := 0, ip_packets_bad_checksum := 0\<rparr> else st)"

definition udp_ok :: "udp_stats \<Rightarrow> udp_stats" where
  "udp_ok st = (if udp_packets_seen st > 4 then st\<lparr>udp_packets_bad_checksum := 0, udp_packets_seen := 0\<rparr> else st)"

definition udp_bad :: "udp_stats \<Rightarrow> udp_stats" where
  "udp_bad st =
     (let st = st\<lparr>udp_packets_bad_checksum := udp_packets_bad_checksum st + 1\<rparr>
      in if mostly_bad (udp_packets_seen st) (udp_packets_bad_checksum st)
         then st\<lparr>udp_packets_seen := 0, udp_packets_bad_checksum := 0\<rparr> else st)"

text \<open>The length of the IP header, from its first byte.\<close>

definition IP_HL :: "byte \<Rightarrow> nat" where
  "IP_HL b = unat (push_bit 2 (b AND 0x0F))"

text \<open>
  The result is the returned index or -1, the sender, the payload length stored through
  \<open>rbuflen\<close>, if any, and the counters.
\<close>

definition decode_udp_ip_header ::
  "bool \<Rightarrow> byte list \<Rightarrow> byte list \<Rightarrow> nat \<Rightarrow> sockaddr_in \<Rightarrow> nat \<Rightarrow> bool \<Rightarrow> udp_stats
    \<Rightarrow> (int \<times> sockaddr_in \<times> nat option \<times> udp_stats) cres" where
  "decode_udp_ip_header userland_filter local_port buf bufix from buflen csum_ready st =
     (let reject = (\<lambda>from st. Ret (- 1, from, None, st)) in
      if 20 > buflen then reject from st
      else
      bindC (rdn buf bufix 20) (\<lambda>img.
      let ip = ip_of img; iplen = IP_HL (ip_fvhl ip); upp = bufix + iplen; pkt_len = unat (ip_len ip) in
      if iplen > buflen \<or> pkt_len > buflen \<or> iplen + 8 > buflen then reject from st
      else
      bindC (rdn buf upp 8) (\<lambda>img.
      let udp = udp_of img in
      if userland_filter \<and> unat (ip_p ip) \<noteq> IPPROTO_UDP then reject from st
      else if userland_filter \<and> uh_dport udp \<noteq> local_port then reject from st
      else
      let ulen = unat (uh_ulen udp) in
      if ulen < 8 then reject from st
      else
      let st = st\<lparr>udp_packets_length_checked := udp_packets_length_checked st + 1\<rparr> in
      if iplen + ulen > buflen then reject from (length_bad st)
      else
      let st = length_ok st; st = st\<lparr>ip_packets_seen := ip_packets_seen st + 1\<rparr> in
      bindC (checksum buf bufix iplen 0) (\<lambda>c.
      if wrapsum c \<noteq> 0 then reject from (ip_bad st)
      else
      let st = ip_ok st; from = from\<lparr>sin_addr := ip_src ip\<rparr>; len = ulen - 8;
          st = st\<lparr>udp_packets_seen := udp_packets_seen st + 1\<rparr>
      in
      bindC (if uh_sum udp \<noteq> 0 \<and> csum_ready
             then bindC (checksum (pseudo_header ip) 0 8 (of_nat IPPROTO_UDP + of_nat ulen)) (\<lambda>c.
                  bindC (checksum buf (upp + 8) len c) (\<lambda>c.
                  bindC (checksum (udp_image udp) 0 8 c) (\<lambda>c. Ret (wrapsum c = 0))))
             else Ret True) (\<lambda>good.
      if \<not> good then reject from (udp_bad st)
      else Ret (int (iplen + 8), from\<lparr>sin_port := uh_sport udp\<rparr>, Some len, udp_ok st))))))"

section \<open>The Ethernet header\<close>

record hardware =
  hlen :: nat
  hbuf :: "byte list"

definition HTYPE_ETHER :: byte where "HTYPE_ETHER = 1"
definition HTYPE_INFINIBAND :: byte where "HTYPE_INFINIBAND = 32"
definition ETHERTYPE_IP :: nat where "ETHERTYPE_IP = 0x0800"
definition ETHER_HEADER_SIZE :: nat where "ETHER_HEADER_SIZE = 14"

definition assemble_ethernet_header ::
  "hardware \<Rightarrow> byte list \<Rightarrow> nat \<Rightarrow> hardware option \<Rightarrow> (byte list \<times> nat) cres" where
  "assemble_ethernet_header hw_address buf bufix to =
     bindC (case to of None \<Rightarrow> Ret (replicate 6 0xff)
            | Some t \<Rightarrow> if hlen t = 7 then rdn (hbuf t) 1 6 else Ret (replicate 6 0xff)) (\<lambda>ether_dhost.
     bindC (if int (hlen hw_address) - 1 = 6 then rdn (hbuf hw_address) 1 6 else Ret (replicate 6 0)) (\<lambda>ether_shost.
     bindC (wrn buf bufix (ether_dhost @ ether_shost @ be16 (of_nat ETHERTYPE_IP))) (\<lambda>buf.
       Ret (buf, bufix + ETHER_HEADER_SIZE))))"

definition decode_ethernet_header ::
  "bool \<Rightarrow> byte list \<Rightarrow> nat \<Rightarrow> hardware \<Rightarrow> (int \<times> hardware) cres" where
  "decode_ethernet_header userland_filter buf bufix from =
     bindC (rdn buf bufix ETHER_HEADER_SIZE) (\<lambda>eh.
     if userland_filter \<and> get16 eh 12 \<noteq> of_nat ETHERTYPE_IP then Ret (- 1, from)
     else bindC (wrn (hbuf from) 1 (take 6 (drop 6 eh))) (\<lambda>h.
          bindC (wr h 0 HTYPE_ETHER) (\<lambda>h.
            Ret (int ETHER_HEADER_SIZE, \<lparr>hlen = 7, hbuf = h\<rparr>))))"

definition assemble_hw_header ::
  "hardware \<Rightarrow> byte list \<Rightarrow> nat \<Rightarrow> hardware option \<Rightarrow> (byte list \<times> nat) cres" where
  "assemble_hw_header hw_address buf bufix to =
     bindC (rd (hbuf hw_address) 0) (\<lambda>t.
       if t = HTYPE_INFINIBAND then Ret (buf, bufix) else assemble_ethernet_header hw_address buf bufix to)"

definition decode_hw_header ::
  "bool \<Rightarrow> hardware \<Rightarrow> byte list \<Rightarrow> nat \<Rightarrow> hardware \<Rightarrow> (int \<times> hardware) cres" where
  "decode_hw_header userland_filter hw_address buf bufix from =
     bindC (rd (hbuf hw_address) 0) (\<lambda>t.
       if t = HTYPE_INFINIBAND then Ret (0, from) else decode_ethernet_header userland_filter buf bufix from)"

section \<open>The checksum is a sum modulo 65535\<close>

fun sum16 :: "byte list \<Rightarrow> nat" where
  "sum16 [] = 0"
| "sum16 [b] = unat b * 256"
| "sum16 (a # b # bs) = unat a * 256 + unat b + sum16 bs"

lemma unat_add_carry16:
  assumes "unat s < 2 ^ 31" "w \<le> 65535"
  shows "unat (add_carry16 (s + of_nat w)) = (if unat s + w > 65535 then unat s + w - 65535 else unat s + w)"
proof -
  have u: "unat (s + of_nat w) = unat s + w"
    using assms by (simp add: unat_word_ariths unat_of_nat)
  have "s + of_nat w > 0xFFFF \<longleftrightarrow> unat s + w > 65535" by (simp add: word_less_nat_alt u)
  moreover have "unat s + w > 65535 \<Longrightarrow> unat (s + of_nat w - 0xFFFF) = unat s + w - 65535"
    by (subst unat_sub) (simp_all add: u word_le_nat_alt)
  ultimately show ?thesis by (simp add: add_carry16_def u)
qed

text \<open>\<open>B\<close> bounds the running sum: a sum that starts at most at \<open>B\<close> stays there.\<close>

definition sums_to :: "nat \<Rightarrow> u32 \<Rightarrow> nat \<Rightarrow> bool" where
  "sums_to B c s \<longleftrightarrow> unat c \<le> B \<and> unat c mod 65535 = s mod 65535 \<and> (unat c = 0 \<longleftrightarrow> s = 0)"

lemma sums_to_step:
  assumes "sums_to B c s" "w \<le> 65535" "65535 \<le> B" "B < 2 ^ 31"
  shows "sums_to B (add_carry16 (c + of_nat w)) (s + w)"
proof -
  have c: "unat c < 2 ^ 31" "unat c mod 65535 = s mod 65535" "unat c = 0 \<longleftrightarrow> s = 0" "unat c \<le> B"
    using assms(1,4) by (auto simp: sums_to_def)
  have "(unat c + w) mod 65535 = (s + w) mod 65535" using c(2) by (metis mod_add_left_eq)
  moreover have "unat c + w > 65535 \<Longrightarrow> (unat c + w - 65535) mod 65535 = (unat c + w) mod 65535"
    by (simp add: le_mod_geq)
  ultimately show ?thesis
    using c assms(2,3) by (auto simp: sums_to_def unat_add_carry16 [OF c(1) assms(2)])
qed

lemma take_two: "i + 2 + n \<le> length buf \<Longrightarrow> take (2 + n) (drop i buf) = buf ! i # buf ! (i + 1) # take n (drop (i + 2) buf)"
  by (simp add: Cons_nth_drop_Suc [symmetric] numeral_2_eq_2)

lemma sum16_append: "even (length xs) \<Longrightarrow> sum16 (xs @ ys) = sum16 xs + sum16 ys"
  by (induction xs rule: sum16.induct) auto

lemma checksum_loop_sums:
  assumes "i + 2 * k \<le> length buf" "sums_to B c s" "65535 \<le> B" "B < 2 ^ 31"
  shows "\<exists>c'. checksum_loop buf i k c = Ret c' \<and> sums_to B c' (s + sum16 (take (2 * k) (drop i buf)))"
  using assms(1,2)
proof (induction k arbitrary: i c s)
  case (Suc k)
  let ?w = "unat (buf ! i) * 256 + unat (buf ! (i + 1))"
  have w: "?w \<le> 65535" using unat_byte_lt [of "buf ! i"] unat_byte_lt [of "buf ! (i + 1)"] by linarith
  have t: "take (2 * Suc k) (drop i buf) = buf ! i # buf ! (i + 1) # take (2 * k) (drop (i + 2) buf)"
    using take_two [of i "2 * k" buf] Suc.prems(1) by simp
  have r: "rdn buf i 2 = Ret [buf ! i, buf ! (i + 1)]"
    using take_two [of i 0 buf] Suc.prems(1) by (simp add: rdn_def)
  have "sums_to B (add_carry16 (c + of_nat ?w)) (s + ?w)" by (rule sums_to_step [OF Suc.prems(2) w assms(3,4)])
  from Suc.IH [OF _ this, of "i + 2"] Suc.prems(1)
  obtain c' where c': "checksum_loop buf (i + 2) k (add_carry16 (c + of_nat ?w)) = Ret c'"
      "sums_to B c' (s + ?w + sum16 (take (2 * k) (drop (i + 2) buf)))" by auto
  have "checksum_loop buf i (Suc k) c = Ret c'" using c'(1) by (simp add: r)
  moreover have "sum16 (take (2 * Suc k) (drop i buf)) = ?w + sum16 (take (2 * k) (drop (i + 2) buf))"
    unfolding t by simp
  ultimately show ?case using c'(2) by (metis add.assoc)
qed simp

lemma checksum_sums:
  assumes "i + n \<le> length buf" "sums_to B c s" "65535 \<le> B" "B < 2 ^ 31"
  shows "\<exists>c'. checksum buf i n c = Ret c' \<and> sums_to B c' (s + sum16 (take n (drop i buf)))"
proof -
  have h: "i + 2 * (n div 2) \<le> length buf" using assms(1) by linarith
  obtain c' where c': "checksum_loop buf i (n div 2) c = Ret c'"
      "sums_to B c' (s + sum16 (take (2 * (n div 2)) (drop i buf)))"
    using checksum_loop_sums [OF h assms(2-4)] by blast
  show ?thesis
  proof (cases "even n")
    case True
    then show ?thesis using c' by (simp add: checksum_def)
  next
    case False
    let ?b = "buf ! (i + n - 1)" and ?h = "take (2 * (n div 2)) (drop i buf)"
    have n: "n = 2 * (n div 2) + 1" "n > 0" using False by (presburger, simp add: odd_pos)
    have "take n (drop i buf) = ?h @ [drop i buf ! (2 * (n div 2))]"
      using assms(1) n take_Suc_conv_app_nth [of "2 * (n div 2)" "drop i buf"] by (metis Suc_eq_plus1 length_drop
        add_le_imp_le_diff add.commute less_eq_Suc_le)
    moreover have "drop i buf ! (2 * (n div 2)) = ?b" using assms(1) n by (metis (no_types, lifting) Suc_eq_plus1
        add_diff_cancel_right' add_leD1 group_cancel.add1 nth_drop)
    ultimately have t: "sum16 (take n (drop i buf)) = sum16 ?h + unat ?b * 256"
      using assms(1) n by (simp add: sum16_append)
    have "unat ?b * 256 \<le> 65535" using unat_byte_lt [of ?b] by linarith
    from sums_to_step [OF c'(2) this assms(3,4)]
    show ?thesis using False c'(1) assms(1) n t by (simp add: checksum_def ac_simps)
  qed
qed

lemma unat_wrapsum: "unat (wrapsum c) = 65535 - unat c mod 65536"
proof -
  have "NOT c = - 1 - c" by (simp add: not_eq_complement)
  moreover have "unat (- 1 - c) = unat (- 1 :: u32) - unat c" by (rule unat_sub) simp
  moreover have "unat (- 1 :: u32) = 2 ^ 32 - 1" by (simp add: unsigned_minus_1_eq_mask mask_eq_exp_minus_1)
  ultimately have n: "unat (NOT c) = 2 ^ 32 - 1 - unat c" by simp
  have "NOT c AND 0xFFFF = take_bit 16 (NOT c)"
    by (simp add: take_bit_eq_mask mask_eq_exp_minus_1)
  then have "unat (wrapsum c) = take_bit 16 (unat (NOT c))"
    by (simp add: wrapsum_def unsigned_ucast_eq unsigned_take_bit_eq)
  then have "unat (wrapsum c) = (2 ^ 32 - 1 - unat c) mod 65536" by (simp add: n take_bit_nat_def)
  moreover have "unat c < 2 ^ 32" using unsigned_less [of c] by simp
  then have "unat c div 65536 < 65536" by (simp add: less_mult_imp_div_less)
  then have "2 ^ 32 - 1 - unat c = (65535 - unat c mod 65536) + (65535 - unat c div 65536) * 65536"
    using div_mult_mod_eq [of "unat c" 65536] by (simp add: diff_mult_distrib)
  then have "(2 ^ 32 - 1 - unat c) mod 65536 = (65535 - unat c mod 65536) mod 65536"
    by (simp only: mod_mult_self1)
  ultimately show ?thesis by simp
qed

lemma wrapsum_zero:
  assumes "sums_to 65552 c s"
  shows "wrapsum c = 0 \<longleftrightarrow> s \<noteq> 0 \<and> s mod 65535 = 0"
proof -
  have c: "unat c \<le> 65552" "unat c mod 65535 = s mod 65535" "unat c = 0 \<longleftrightarrow> s = 0"
    using assms by (auto simp: sums_to_def)
  have "wrapsum c = 0 \<longleftrightarrow> unat (wrapsum c) = 0" by (simp add: unat_eq_zero)
  also have "\<dots> \<longleftrightarrow> unat c mod 65536 = 65535" using unat_wrapsum [of c] by simp linarith
  also have "\<dots> \<longleftrightarrow> unat c = 65535" using c(1) by (cases "unat c < 65536") (auto simp: le_mod_geq)
  also have "\<dots> \<longleftrightarrow> unat c \<noteq> 0 \<and> unat c mod 65535 = 0"
    using c(1) by (cases "unat c < 65535") (auto simp: le_mod_geq)
  finally show ?thesis using c by simp
qed

section \<open>What is accepted\<close>

text \<open>The test of a checksum over a byte string that includes it.\<close>

definition valid16 :: "byte list \<Rightarrow> bool" where
  "valid16 bs \<longleftrightarrow> sum16 bs \<noteq> 0 \<and> sum16 bs mod 65535 = 0"

lemma sums_to_start: "n \<le> B \<Longrightarrow> B < 2 ^ 31 \<Longrightarrow> sums_to B (of_nat n) n"
  by (simp add: sums_to_def unat_of_nat)

lemma ip_checksum_test:
  assumes "i + n \<le> length buf"
  shows "\<exists>c. checksum buf i n 0 = Ret c \<and> (wrapsum c = 0 \<longleftrightarrow> valid16 (take n (drop i buf)))"
  using checksum_sums [OF assms sums_to_start [of 0 65552]] wrapsum_zero by (fastforce simp: valid16_def)

lemma sum16_be_bytes: "n \<le> 65535 \<Longrightarrow> sum16 (be_bytes 2 n) = n"
  using be_val_be_bytes [of 2 n] by (simp add: numeral_2_eq_2)

lemma udp_checksum_test:
  assumes "length src = 8" "length hdr = 8" "off + len \<le> length buf" "ulen \<le> 65535"
    and B: "17 + ulen \<le> B" "65535 \<le> B" "B < 2 ^ 31"
  shows "\<exists>c1 c2 c3. checksum src 0 8 (of_nat IPPROTO_UDP + of_nat ulen) = Ret c1
    \<and> checksum buf off len c1 = Ret c2 \<and> checksum hdr 0 8 c2 = Ret c3
    \<and> sums_to B c3 (sum16 (src @ [0, 17] @ be_bytes 2 ulen @ hdr @ take len (drop off buf)))"
proof -
  have s: "sums_to B (of_nat IPPROTO_UDP + of_nat ulen) (17 + ulen)"
    using sums_to_start [of "17 + ulen" B] B by (simp add: IPPROTO_UDP_def)
  obtain c1 where c1: "checksum src 0 8 (of_nat IPPROTO_UDP + of_nat ulen) = Ret c1"
      "sums_to B c1 (17 + ulen + sum16 src)"
    using checksum_sums [OF _ s B(2,3), of 0 8 src] assms(1) by auto
  obtain c2 where c2: "checksum buf off len c1 = Ret c2"
      "sums_to B c2 (17 + ulen + sum16 src + sum16 (take len (drop off buf)))"
    using checksum_sums [OF assms(3) c1(2) B(2,3)] by auto
  obtain c3 where c3: "checksum hdr 0 8 c2 = Ret c3"
      "sums_to B c3 (17 + ulen + sum16 src + sum16 (take len (drop off buf)) + sum16 hdr)"
    using checksum_sums [OF _ c2(2) B(2,3), of 0 8 hdr] assms(2) by auto
  have e: "sum16 (src @ [0, 17] @ be_bytes 2 ulen @ hdr @ take len (drop off buf))
      = sum16 src + (sum16 [0, 17] + (sum16 (be_bytes 2 ulen) + (sum16 hdr + sum16 (take len (drop off buf)))))"
    using assms(1,2) by (subst sum16_append, simp)+ simp
  have "sum16 [0, 17] = 17" by simp
  then show ?thesis using c1(1) c2(1) c3 assms(4) unfolding e by (auto simp: sum16_be_bytes ac_simps simp del: sum16.simps)
qed

lemma be16_get16: "i + 2 \<le> length bs \<Longrightarrow> be16 (get16 bs i) = take 2 (drop i bs)"
  using be_val_lt [of "take 2 (drop i bs)"]
  by (simp add: be16_def get16_def unat_of_nat be_bytes_inverse)

lemma get16_value: "i + 2 \<le> length bs \<Longrightarrow> unat (get16 bs i) = be_val (take 2 (drop i bs))"
  using be_val_lt [of "take 2 (drop i bs)"] by (simp add: get16_def unat_of_nat)

lemma drop_step: "drop i bs = take n (drop i bs) @ drop (i + n) bs"
  using append_take_drop_id [of n "drop i bs"] by (simp add: add.commute)

lemma udp_image_of:
  assumes "length bs = 8"
  shows "udp_image (udp_of bs) = bs"
proof -
  have "bs = take 2 bs @ take 2 (drop 2 bs) @ take 2 (drop 4 bs) @ take 2 (drop 6 bs) @ drop 8 bs"
    using drop_step [of 0 bs 2] drop_step [of 2 bs 2] drop_step [of 4 bs 2] drop_step [of 6 bs 2] by simp
  then show ?thesis using assms by (simp add: udp_image_def udp_of_def be16_get16)
qed

definition header_length :: "byte list \<Rightarrow> nat" where
  "header_length pkt = IP_HL (pkt ! 0)"

definition udp_length :: "byte list \<Rightarrow> nat" where
  "udp_length pkt = be_val (take 2 (drop (header_length pkt + 4) pkt))"

text \<open>What the UDP checksum covers: the pseudo header, the UDP header and the payload.\<close>

definition udp_covered :: "byte list \<Rightarrow> byte list" where
  "udp_covered pkt = take 8 (drop 12 pkt) @ [0, 17] @ be_bytes 2 (udp_length pkt)
     @ take (udp_length pkt) (drop (header_length pkt) pkt)"

definition acceptable :: "bool \<Rightarrow> byte list \<Rightarrow> bool \<Rightarrow> byte list \<Rightarrow> bool" where
  "acceptable userland_filter local_port csum_ready pkt \<longleftrightarrow>
     20 \<le> length pkt \<and> be_val (take 2 (drop 2 pkt)) \<le> length pkt
     \<and> header_length pkt + 8 \<le> length pkt \<and> 8 \<le> udp_length pkt
     \<and> header_length pkt + udp_length pkt \<le> length pkt
     \<and> (userland_filter \<longrightarrow> pkt ! 9 = 17 \<and> take 2 (drop (header_length pkt + 2) pkt) = local_port)
     \<and> valid16 (take (header_length pkt) pkt)
     \<and> (csum_ready \<and> be_val (take 2 (drop (header_length pkt + 6) pkt)) \<noteq> 0 \<longrightarrow> valid16 (udp_covered pkt))"

lemma ip_image_fields:
  assumes "20 \<le> length pkt"
  shows "ip_fvhl (ip_of (take 20 pkt)) = pkt ! 0" "unat (ip_len (ip_of (take 20 pkt))) = be_val (take 2 (drop 2 pkt))"
    "ip_p (ip_of (take 20 pkt)) = pkt ! 9" "ip_src (ip_of (take 20 pkt)) = take 4 (drop 12 pkt)"
    "pseudo_header (ip_of (take 20 pkt)) = take 8 (drop 12 pkt)"
  using assms drop_step [of 12 "take 20 pkt" 4]
  by (simp_all add: ip_of_def get16_value drop_take pseudo_header_def)

lemma unat_17: "unat (b :: byte) = 17 \<longleftrightarrow> b = 17"
  using word_unat_eq_iff [of b 17] by simp

lemma udp_image_fields:
  assumes "i + 8 \<le> length pkt"
  defines "h \<equiv> udp_of (take 8 (drop i pkt))"
  shows "uh_sport h = take 2 (drop i pkt)" "uh_dport h = take 2 (drop (i + 2) pkt)"
    "unat (uh_ulen h) = be_val (take 2 (drop (i + 4) pkt))" "uh_sum h = 0 \<longleftrightarrow> be_val (take 2 (drop (i + 6) pkt)) = 0"
    "udp_image h = take 8 (drop i pkt)"
proof -
  let ?u = "take 8 (drop i pkt)"
  have g: "unat (get16 ?u 4) = be_val (take 2 (drop (i + 4) pkt))" "unat (get16 ?u 6) = be_val (take 2 (drop (i + 6) pkt))"
    using assms(1) get16_value [of 4 ?u] get16_value [of 6 ?u] by (simp_all add: drop_take add.commute)
  show "uh_sport h = take 2 (drop i pkt)" "uh_dport h = take 2 (drop (i + 2) pkt)"
    "unat (uh_ulen h) = be_val (take 2 (drop (i + 4) pkt))" "uh_sum h = 0 \<longleftrightarrow> be_val (take 2 (drop (i + 6) pkt)) = 0"
    using g unat_eq_zero [of "get16 ?u 6"] by (simp_all add: h_def udp_of_def drop_take add.commute)
  show "udp_image h = ?u" using assms(1) by (simp add: h_def udp_image_of)
qed

lemma covered_test:
  assumes "bufix + buflen \<le> length buf"
  defines "pkt \<equiv> take buflen (drop bufix buf)"
  defines "hl \<equiv> header_length pkt" and "ul \<equiv> udp_length pkt"
  assumes "20 \<le> buflen" "8 \<le> ul" "hl + ul \<le> buflen"
  shows "\<exists>c1 c2 c3. checksum (take 8 (drop 12 pkt)) 0 8 (of_nat IPPROTO_UDP + of_nat ul) = Ret c1
    \<and> checksum buf (bufix + hl + 8) (ul - 8) c1 = Ret c2 \<and> checksum (take 8 (drop hl pkt)) 0 8 c2 = Ret c3
    \<and> (wrapsum c3 = 0 \<longleftrightarrow> valid16 (udp_covered pkt))"
proof -
  have l: "length (take 8 (drop 12 pkt)) = 8" "length (take 8 (drop hl pkt)) = 8"
      "bufix + hl + 8 + (ul - 8) \<le> length buf" "ul \<le> 65535"
    using assms be_val_lt [of "take 2 (drop (header_length pkt + 4) pkt)"]
      power_increasing [of "length (take 2 (drop (header_length pkt + 4) pkt))" 2 "256 :: nat"]
    by (simp_all add: udp_length_def)
  have d: "take (ul - 8) (drop (bufix + hl + 8) buf) = take (ul - 8) (drop (hl + 8) pkt)"
    using assms by (simp add: drop_take ac_simps)
  have "take 8 (drop hl pkt) @ take (ul - 8) (drop (hl + 8) pkt) = take ul (drop hl pkt)"
    using assms(6) take_add [of 8 "ul - 8" "drop hl pkt"] by (simp add: ac_simps)
  then have c: "take 8 (drop 12 pkt) @ [0, 17] @ be_bytes 2 ul @ take 8 (drop hl pkt) @ take (ul - 8) (drop (bufix + hl + 8) buf)
      = udp_covered pkt" unfolding d by (simp add: udp_covered_def hl_def ul_def)
  show ?thesis using udp_checksum_test [OF l, of 65552, unfolded c] l(4) wrapsum_zero by (auto simp: valid16_def)
qed

lemma decode_spec:
  assumes "bufix + buflen \<le> length buf"
  defines "pkt \<equiv> take buflen (drop bufix buf)"
  shows "\<exists>from' st'. decode_udp_ip_header userland_filter local_port buf bufix from buflen csum_ready st
    = Ret (if acceptable userland_filter local_port csum_ready pkt
           then (int (header_length pkt + 8),
                 \<lparr>sin_port = take 2 (drop (header_length pkt) pkt), sin_addr = take 4 (drop 12 pkt)\<rparr>,
                 Some (udp_length pkt - 8), st')
           else (- 1, from', None, st'))"
proof -
  have len: "length pkt = buflen" using assms by simp
  have hd: "rdn buf bufix 20 = Ret (take 20 pkt)" if "20 \<le> buflen"
    using that assms by (simp add: rdn_def)
  have ud: "rdn buf (bufix + i) 8 = Ret (take 8 (drop i pkt))" if "i + 8 \<le> buflen" for i
    using that assms by (simp add: rdn_def drop_take add.commute)
  let ?hl = "header_length pkt" and ?ul = "udp_length pkt"
  note u = udp_image_fields [of "header_length pkt" pkt, unfolded len]
  show ?thesis
  proof (cases "20 \<le> buflen \<and> be_val (take 2 (drop 2 pkt)) \<le> buflen \<and> ?hl + 8 \<le> buflen \<and> 8 \<le> ?ul \<and> ?hl + ?ul \<le> buflen
      \<and> (userland_filter \<longrightarrow> pkt ! 9 = 17 \<and> take 2 (drop (?hl + 2) pkt) = local_port)")
    case False
    then have n: "\<not> acceptable userland_filter local_port csum_ready pkt" by (auto simp: acceptable_def len)
    have "\<exists>from' st'. decode_udp_ip_header userland_filter local_port buf bufix from buflen csum_ready st
        = Ret (- 1, from', None, st')"
    proof (cases "20 \<le> buflen \<and> be_val (take 2 (drop 2 pkt)) \<le> buflen \<and> ?hl + 8 \<le> buflen")
      case fits: True
      with False show ?thesis
        by (auto simp: decode_udp_ip_header_def Let_def hd ud u ip_image_fields len IPPROTO_UDP_def unat_17
            udp_length_def simp flip: header_length_def)
    next
      case not_fits: False
      then show ?thesis
        by (auto simp: decode_udp_ip_header_def Let_def hd ip_image_fields len simp flip: header_length_def)
    qed
    with n show ?thesis by auto
  next
    case True
    have "bufix + ?hl \<le> length buf" "take ?hl (drop bufix buf) = take ?hl pkt" using True assms by (auto simp: pkt_def)
    then obtain c where c: "checksum buf bufix ?hl 0 = Ret c" "wrapsum c = 0 \<longleftrightarrow> valid16 (take ?hl pkt)"
      using ip_checksum_test by metis
    obtain c1 c2 c3 where cs: "checksum (take 8 (drop 12 pkt)) 0 8 (of_nat IPPROTO_UDP + of_nat ?ul) = Ret c1"
        "checksum buf (bufix + ?hl + 8) (?ul - 8) c1 = Ret c2" "checksum (take 8 (drop ?hl pkt)) 0 8 c2 = Ret c3"
        "wrapsum c3 = 0 \<longleftrightarrow> valid16 (udp_covered pkt)"
      using covered_test [OF assms(1)] True unfolding pkt_def by blast
    show ?thesis
      using True c cs unfolding acceptable_def len
      by (auto simp: decode_udp_ip_header_def Let_def hd ud u ip_image_fields len IPPROTO_UDP_def unat_17
          simp flip: header_length_def udp_length_def)
  qed
qed

text \<open>C4: For any bytes a packet may consist of, decoding its IP and UDP headers reads only inside
  the received data. It accepts the packet exactly when the lengths in the headers fit in the
  data and the checksums are right (the UDP checksum if there is one and it is to be
  looked at), and then reports the sender and a payload inside the data.\<close>

theorem decode_any_packet:
  assumes "bufix + buflen \<le> length buf"
  defines "pkt \<equiv> take buflen (drop bufix buf)"
  shows "\<exists>from' st'. decode_udp_ip_header userland_filter local_port buf bufix from buflen csum_ready st
    = Ret (if acceptable userland_filter local_port csum_ready pkt
           then (int (header_length pkt + 8),
                 \<lparr>sin_port = take 2 (drop (header_length pkt) pkt), sin_addr = take 4 (drop 12 pkt)\<rparr>,
                 Some (udp_length pkt - 8), st')
           else (- 1, from', None, st'))"
  unfolding pkt_def by (rule decode_spec [OF assms(1)])

definition example_packet :: "byte list" where
  "example_packet = [69, 16, 0, 31, 0, 0, 0, 0, 128, 17, 48, 190, 10, 0, 0, 1, 255, 255, 255, 255, 0, 67, 0, 68, 0, 11, 241, 78, 1, 2, 3]"

definition no_stats :: udp_stats where
  "no_stats = \<lparr>ip_packets_seen = 0, ip_packets_bad_checksum = 0, udp_packets_seen = 0, udp_packets_bad_checksum = 0,
     udp_packets_length_checked = 0, udp_packets_length_overflow = 0\<rparr>"

lemma example_packet_lengths:
  "header_length example_packet = 20" "udp_length example_packet = 11"
proof -
  show h: "header_length example_packet = 20" by (simp add: header_length_def IP_HL_def example_packet_def)
  show "udp_length example_packet = 11" by (simp add: udp_length_def h) (simp add: example_packet_def)
qed

lemma example_packet_sums: "valid16 (take 20 example_packet)" "valid16 (udp_covered example_packet)"
proof -
  have "be_bytes 2 11 = [0, 11]" by (simp add: numeral_2_eq_2)
  then show "valid16 (udp_covered example_packet)"
    by (simp add: udp_covered_def example_packet_lengths) (simp add: example_packet_def valid16_def)
qed (simp add: example_packet_def valid16_def)

lemma example_packet_acceptable: "acceptable True [0, 68] True example_packet"
proof -
  have "length example_packet = 31" "be_val (take 2 (drop 2 example_packet)) = 31" "example_packet ! 9 = 17"
      "take 2 (drop 22 example_packet) = [0, 68]"
    by (simp_all add: example_packet_def)
  then show ?thesis by (simp add: acceptable_def example_packet_lengths example_packet_sums)
qed

theorem decode_any_packet_witness:
  "2 + 31 \<le> length ([7, 7] @ example_packet)
   \<and> (\<exists>st'. decode_udp_ip_header True [0, 68] ([7, 7] @ example_packet) 2 \<lparr>sin_port = [0, 0], sin_addr = [0, 0, 0, 0]\<rparr> 31
         True no_stats = Ret (28, \<lparr>sin_port = [0, 67], sin_addr = [10, 0, 0, 1]\<rparr>, Some 3, st'))"
proof -
  have l: "2 + 31 \<le> length ([7, 7] @ example_packet)" by (simp add: example_packet_def)
  have p: "take 31 (drop 2 ([7, 7] @ example_packet)) = example_packet" by (simp add: example_packet_def)
  have f: "take 2 (drop 20 example_packet) = [0, 67]" "take 4 (drop 12 example_packet) = [10, 0, 0, 1]"
    by (simp_all add: example_packet_def)
  show ?thesis
    using decode_any_packet [OF l, of True "[0, 68]" "\<lparr>sin_port = [0, 0], sin_addr = [0, 0, 0, 0]\<rparr>" True no_stats] l
    unfolding p by (simp add: example_packet_acceptable example_packet_lengths f)
qed

section \<open>Assembled packets are accepted\<close>

lemma complement_valid:
  assumes "sums_to 65535 c s" "s \<noteq> 0"
  shows "s + unat (wrapsum c) \<noteq> 0" "(s + unat (wrapsum c)) mod 65535 = 0"
proof -
  have c: "unat c \<le> 65535" "unat c mod 65535 = s mod 65535" using assms by (auto simp: sums_to_def)
  have "unat (wrapsum c) = 65535 - unat c" using c(1) by (simp add: unat_wrapsum)
  then have "(s + unat (wrapsum c)) mod 65535 = (unat c + (65535 - unat c)) mod 65535"
    using c(2) by (metis mod_add_left_eq)
  then show "(s + unat (wrapsum c)) mod 65535 = 0" using c(1) by simp
  show "s + unat (wrapsum c) \<noteq> 0" using assms(2) by simp
qed

lemma sum16_be16 [simp]: "sum16 (be16 x @ bs) = unat x + sum16 bs"
proof -
  have "unat x < 65536" using unsigned_less [of x] by simp
  then show ?thesis by (simp add: be16_def sum16_append sum16_be_bytes)
qed

lemma length_be16 [simp]: "length (be16 x) = 2"
  by (simp add: be16_def)

lemma sum16_ip_image:
  "sum16 (ip_image (h\<lparr>ip_sum := x\<rparr>)) = sum16 (ip_image (h\<lparr>ip_sum := 0\<rparr>)) + unat x"
  by (simp add: ip_image_def)

lemma sum16_udp_image:
  assumes "length (uh_sport h) = 2" "length (uh_dport h) = 2"
  shows "sum16 (udp_image (h\<lparr>uh_sum := x\<rparr>) @ ys) = sum16 (udp_image (h\<lparr>uh_sum := 0\<rparr>) @ ys) + unat x"
  using assms by (simp add: udp_image_def sum16_append)

text \<open>The IP header before its checksum is filled in, and the UDP header likewise.\<close>

definition ip_draft :: "byte list \<Rightarrow> byte list \<Rightarrow> nat \<Rightarrow> ip" where
  "ip_draft from to len = \<lparr>ip_fvhl = 0x45, ip_tos = 0x10, ip_len = of_nat (28 + len), ip_id = 0, ip_off = 0, ip_ttl = 128,
     ip_p = 17, ip_sum = 0, ip_src = from, ip_dst = to\<rparr>"

definition udp_draft :: "byte list \<Rightarrow> byte list \<Rightarrow> nat \<Rightarrow> udphdr" where
  "udp_draft local_port port len = \<lparr>uh_sport = local_port, uh_dport = port, uh_ulen = of_nat (8 + len), uh_sum = 0\<rparr>"

definition udp_sum :: "byte list \<Rightarrow> byte list \<Rightarrow> byte list \<Rightarrow> byte list \<Rightarrow> byte list" where
  "udp_sum from to data hdr = (from @ to) @ [0, 17] @ be_bytes 2 (8 + length data) @ hdr @ data"

lemma length_ip_image: "length (ip_src h) = 4 \<Longrightarrow> length (ip_dst h) = 4 \<Longrightarrow> length (ip_image h) = 20"
  and length_udp_image: "length (uh_sport u) = 2 \<Longrightarrow> length (uh_dport u) = 2 \<Longrightarrow> length (udp_image u) = 8"
  by (simp_all add: ip_image_def udp_image_def)

lemma assemble_spec:
  assumes "length local_port = 2" "length port = 2" "length from = 4" "length to = 4" "length data \<le> 65507"
    and "bufix + 28 \<le> length buf"
  obtains x y where "assemble_udp_ip_header local_port buf bufix from to port data (length data)
        = Ret (put buf bufix (ip_image ((ip_draft from to (length data))\<lparr>ip_sum := x\<rparr>)
            @ udp_image ((udp_draft local_port port (length data))\<lparr>uh_sum := y\<rparr>)), bufix + 28)"
    "valid16 (ip_image ((ip_draft from to (length data))\<lparr>ip_sum := x\<rparr>))"
    "valid16 (udp_sum from to data (udp_image ((udp_draft local_port port (length data))\<lparr>uh_sum := y\<rparr>)))"
proof -
  let ?n = "length data" let ?i = "ip_draft from to ?n" and ?u = "udp_draft local_port port ?n"
  have li: "length (ip_image (?i\<lparr>ip_sum := z\<rparr>)) = 20" for z using assms by (simp add: length_ip_image ip_draft_def)
  have lu: "length (udp_image (?u\<lparr>uh_sum := z\<rparr>)) = 8" for z using assms by (simp add: length_udp_image udp_draft_def)
  have di: "(IP_HL_SET 20 (IP_V_SET 4 zero_ip))\<lparr>ip_tos := IPTOS_LOWDELAY, ip_len := of_nat (20 + 8 + ?n),
           ip_id := 0, ip_off := 0, ip_ttl := 128, ip_p := of_nat IPPROTO_UDP, ip_sum := 0,
           ip_src := from, ip_dst := to\<rparr> = ?i"
    by (simp add: IP_HL_SET_def IP_V_SET_def zero_ip_def ip_draft_def IPTOS_LOWDELAY_def IPPROTO_UDP_def)
  have i0: "?i\<lparr>ip_sum := 0\<rparr> = ?i" and u0: "?u\<lparr>uh_sum := 0\<rparr> = ?u" by (simp_all add: ip_draft_def udp_draft_def)
  have ul: "unat (uh_ulen ?u) = 8 + ?n" using assms(5) by (simp add: udp_draft_def unat_of_nat del: of_nat_add of_nat_numeral)
  obtain c where c: "checksum (ip_image ?i) 0 20 0 = Ret c" "sums_to 65535 c (sum16 (ip_image ?i))"
    using checksum_sums [of 0 20 "ip_image ?i" 65535 0 0] li [of 0] sums_to_start [of 0 65535] by (auto simp: i0)
  have "sum16 (ip_image ?i) \<noteq> 0" by (simp add: ip_image_def ip_draft_def)
  note v = complement_valid [OF c(2) this]
  let ?x = "wrapsum c"
  have lf: "length (from @ to) = 8" using assms by simp
  have ld: "0 + ?n \<le> length data" by simp
  obtain c1 c2 c3 where cs: "checksum (from @ to) 0 8 (of_nat IPPROTO_UDP + of_nat (8 + ?n)) = Ret c1"
      "checksum data 0 ?n c1 = Ret c2" "checksum (udp_image ?u) 0 8 c2 = Ret c3"
      "sums_to 65535 c3 (sum16 (udp_sum from to data (udp_image ?u)))"
    using udp_checksum_test [OF lf _ ld, of "udp_image ?u" "8 + ?n" 65535] lu [of 0] assms(5)
    by (auto simp: u0 udp_sum_def)
  have s: "sum16 (udp_sum from to data (udp_image (?u\<lparr>uh_sum := z\<rparr>))) = sum16 (udp_sum from to data (udp_image ?u)) + unat z" for z
    using assms sum16_udp_image [of ?u z data] by (simp add: udp_sum_def sum16_append u0 udp_draft_def)
  have "sum16 (udp_sum from to data (udp_image ?u)) \<noteq> 0"
    using assms by (simp add: udp_sum_def sum16_append)
  note w = complement_valid [OF cs(4) this]
  let ?y = "wrapsum c3"
  show ?thesis
  proof (rule that [of ?x ?y])
    show "valid16 (ip_image (?i\<lparr>ip_sum := ?x\<rparr>))" unfolding valid16_def sum16_ip_image i0 using v by simp
    show "valid16 (udp_sum from to data (udp_image (?u\<lparr>uh_sum := ?y\<rparr>)))" unfolding valid16_def s using w by simp
    have p: "pseudo_header (?i\<lparr>ip_sum := ?x\<rparr>) = from @ to" by (simp add: pseudo_header_def ip_draft_def)
    have w1: "wrn buf bufix (ip_image (?i\<lparr>ip_sum := ?x\<rparr>)) = Ret (put buf bufix (ip_image (?i\<lparr>ip_sum := ?x\<rparr>)))"
      using assms(6) by (intro wrn_in) (simp add: li)
    have w2: "wrn (put buf bufix (ip_image (?i\<lparr>ip_sum := ?x\<rparr>))) (bufix + 20) (udp_image (?u\<lparr>uh_sum := ?y\<rparr>))
        = Ret (put buf bufix (ip_image (?i\<lparr>ip_sum := ?x\<rparr>) @ udp_image (?u\<lparr>uh_sum := ?y\<rparr>)))"
      using assms(6) wrn_put [of bufix "ip_image (?i\<lparr>ip_sum := ?x\<rparr>)" "udp_image (?u\<lparr>uh_sum := ?y\<rparr>)" buf] by (simp add: li lu)
    show "assemble_udp_ip_header local_port buf bufix from to port data ?n
        = Ret (put buf bufix (ip_image (?i\<lparr>ip_sum := ?x\<rparr>) @ udp_image (?u\<lparr>uh_sum := ?y\<rparr>)), bufix + 28)"
      unfolding assemble_udp_ip_header_def Let_def di udp_draft_def [symmetric]
      by (simp only: c(1) bindC.simps w1 p ul cs(1-3) w2) simp
  qed
qed

lemma header_length_draft:
  "header_length (ip_image ((ip_draft from to len)\<lparr>ip_sum := x\<rparr>) @ r) = 20"
  by (simp add: header_length_def ip_image_def ip_draft_def IP_HL_def)

lemma draft_acceptable:
  fixes src dst data pad local_port port :: "byte list" and x y :: u16
  assumes "length local_port = 2" "length port = 2" "length src = 4" "length dst = 4" "length data \<le> 65507"
  defines "iph \<equiv> ip_image ((ip_draft src dst (length data))\<lparr>ip_sum := x\<rparr>)"
    and "udph \<equiv> udp_image ((udp_draft local_port port (length data))\<lparr>uh_sum := y\<rparr>)"
  defines "pkt \<equiv> iph @ udph @ data @ pad"
  assumes "valid16 iph" "valid16 (udp_sum src dst data udph)" "userland_filter \<longrightarrow> served_port = port"
  shows "acceptable userland_filter served_port csum_ready pkt" "header_length pkt = 20" "udp_length pkt = 8 + length data"
    "take 2 (drop 20 pkt) = local_port" "take 4 (drop 12 pkt) = src"
proof -
  let ?n = "length data"
  have l: "length iph = 20" "length udph = 8" using assms(1-4)
    by (simp_all add: iph_def udph_def length_ip_image length_udp_image ip_draft_def udp_draft_def)
  show h: "header_length pkt = 20" by (simp add: pkt_def iph_def header_length_draft)
  have u16: "unat (of_nat (8 + ?n) :: u16) = 8 + ?n" "unat (of_nat (28 + ?n) :: u16) = 28 + ?n"
    using assms(5) by (simp_all add: unat_of_nat del: of_nat_add of_nat_numeral)
  have u: "udph = local_port @ port @ be_bytes 2 (8 + ?n) @ be16 y"
    using u16 by (simp add: udph_def udp_image_def udp_draft_def be16_def del: of_nat_add of_nat_numeral)
  have i: "take 2 (drop 2 iph) = be_bytes 2 (28 + ?n)" "iph ! 9 = 17" "drop 12 iph = src @ dst"
    using u16 assms(3,4) by (simp_all add: iph_def ip_image_def ip_draft_def be16_def numeral_2_eq_2 nth_append
        del: of_nat_add of_nat_numeral be_bytes.simps) 
  show ul: "udp_length pkt = 8 + ?n"
    using assms(1,2,5) l unfolding udp_length_def h by (simp add: pkt_def u be_val_be_bytes)
  show "take 2 (drop 20 pkt) = local_port" using assms(1) l by (simp add: pkt_def u)
  show sa: "take 4 (drop 12 pkt) = src" using assms(3) l i by (simp add: pkt_def)
  have "udp_covered pkt = udp_sum src dst data udph"
    using l assms(3,4) i(3) unfolding udp_covered_def ul h by (simp add: udp_sum_def pkt_def)
  moreover have "take 2 (drop 2 pkt) = be_bytes 2 (28 + ?n)" "pkt ! 9 = 17" "take 2 (drop 22 pkt) = port"
    "take 20 pkt = iph" using l i assms(1,2) by (simp_all add: pkt_def nth_append u)
  ultimately show "acceptable userland_filter served_port csum_ready pkt"
    using assms l unfolding acceptable_def ul h by (simp add: be_val_be_bytes pkt_def)
qed

text \<open>C35: A packet made of the headers \<open>assemble_udp_ip_header\<close> writes, the data and any
  padding is accepted by \<open>decode_udp_ip_header\<close>, with or without looking at the UDP
  checksum, whatever the counters are; the decoder finds the data and the sender's address and port.\<close>

theorem decode_of_assemble:
  assumes "length local_port = 2" "length port = 2" "length src = 4" "length dst = 4" "length data \<le> 65507"
    and "bufix + 28 \<le> length buf" "userland_filter \<longrightarrow> served_port = port"
  shows "\<exists>buf' st'. assemble_udp_ip_header local_port buf bufix src dst port data (length data) = Ret (buf', bufix + 28)
    \<and> length buf' = length buf \<and> take bufix buf' = take bufix buf
    \<and> decode_udp_ip_header userland_filter served_port (take (bufix + 28) buf' @ data @ pad) bufix sender
          (28 + length data + length pad) csum_ready st
        = Ret (28, \<lparr>sin_port = local_port, sin_addr = src\<rparr>, Some (length data), st')"
proof -
  obtain x y where a: "assemble_udp_ip_header local_port buf bufix src dst port data (length data)
        = Ret (put buf bufix (ip_image ((ip_draft src dst (length data))\<lparr>ip_sum := x\<rparr>)
            @ udp_image ((udp_draft local_port port (length data))\<lparr>uh_sum := y\<rparr>)), bufix + 28)"
    "valid16 (ip_image ((ip_draft src dst (length data))\<lparr>ip_sum := x\<rparr>))"
    "valid16 (udp_sum src dst data (udp_image ((udp_draft local_port port (length data))\<lparr>uh_sum := y\<rparr>)))"
    using assemble_spec [OF assms(1-6)] by blast
  define h where "h = ip_image ((ip_draft src dst (length data))\<lparr>ip_sum := x\<rparr>)
    @ udp_image ((udp_draft local_port port (length data))\<lparr>uh_sum := y\<rparr>)"
  have l: "length h = 28" using assms(1-4)
    by (simp add: h_def length_ip_image length_udp_image ip_draft_def udp_draft_def)
  let ?p = "take (bufix + 28) (put buf bufix h) @ data @ pad"
  have t: "take (bufix + 28) (put buf bufix h) = take bufix buf @ h" "length (put buf bufix h) = length buf"
    "take bufix (put buf bufix h) = take bufix buf"
    using assms(6) l take_put [of bufix h buf] by (simp_all add: put_def)
  have f: "bufix + (28 + length data + length pad) \<le> length ?p" using assms(6) l by (simp add: t)
  have k: "take (28 + length data + length pad) (drop bufix ?p) = h @ data @ pad" using assms(6) l by (simp add: t)
  have g: "acceptable userland_filter served_port csum_ready (h @ data @ pad)" "header_length (h @ data @ pad) = 20"
      "udp_length (h @ data @ pad) = 8 + length data" "take 2 (drop 20 (h @ data @ pad)) = local_port"
      "take 4 (drop 12 (h @ data @ pad)) = src"
    unfolding h_def append_assoc by (rule draft_acceptable [OF assms(1-5) a(2,3) assms(7)])+
  obtain st' where "decode_udp_ip_header userland_filter served_port ?p bufix sender (28 + length data + length pad) csum_ready st
      = Ret (28, \<lparr>sin_port = local_port, sin_addr = src\<rparr>, Some (length data), st')"
    using decode_spec [OF f, of userland_filter served_port sender csum_ready st] unfolding k g by (auto simp: g(1))
  with a(1) t(2,3) show ?thesis unfolding h_def [symmetric] by blast
qed

theorem decode_of_assemble_witness:
  "\<exists>buf' st'. assemble_udp_ip_header [0, 67] (replicate 40 7) 2 [10, 0, 0, 1] [255, 255, 255, 255] [0, 68] [1, 2, 3] (length [1, 2, 3 :: byte])
      = Ret (buf', 2 + 28)
    \<and> length buf' = length (replicate 40 (7 :: byte)) \<and> take 2 buf' = take 2 (replicate 40 7)
    \<and> decode_udp_ip_header True [0, 68] (take (2 + 28) buf' @ [1, 2, 3] @ [9]) 2
          \<lparr>sin_port = [0, 0], sin_addr = [0, 0, 0, 0]\<rparr> (28 + length [1, 2, 3 :: byte] + length [9 :: byte]) True no_stats
        = Ret (28, \<lparr>sin_port = [0, 67], sin_addr = [10, 0, 0, 1]\<rparr>, Some (length [1, 2, 3 :: byte]), st')"
  by (rule decode_of_assemble) simp_all

text \<open>An Ethernet header carries the hardware address of the interface.\<close>

lemma decode_of_assemble_ethernet:
  assumes "hlen hw = 7" "length (hbuf hw) = 21" "bufix + 14 \<le> length buf" "length (hbuf sender) = 21"
    and "hlen t = 7" "length (hbuf t) = 21"
  shows "\<exists>buf'. assemble_ethernet_header hw buf bufix (Some t) = Ret (buf', bufix + 14)
    \<and> decode_ethernet_header flt buf' bufix sender
        = Ret (14, \<lparr>hlen = 7, hbuf = HTYPE_ETHER # take 6 (drop 1 (hbuf hw)) @ drop 7 (hbuf sender)\<rparr>)"
proof -
  let ?d = "take 6 (drop 1 (hbuf t))" and ?s = "take 6 (drop 1 (hbuf hw))"
  let ?h = "?d @ ?s @ be16 (of_nat ETHERTYPE_IP)"
  have l: "length ?d = 6" "length ?s = 6" using assms by simp_all
  have g: "get16 ?h 12 = of_nat ETHERTYPE_IP"
    using l by (simp add: get16_def be16_def be_val_be_bytes ETHERTYPE_IP_def)
  have w: "wrn buf bufix ?h = Ret (put buf bufix ?h)" using assms l by (intro wrn_in) simp
  have r: "rdn (put buf bufix ?h) bufix 14 = Ret ?h" using rdn_wrn [OF w] l by simp
  have "wrn (hbuf sender) 1 ?s = Ret (put (hbuf sender) 1 ?s)" using assms l by (intro wrn_in) simp
  moreover have "wr (put (hbuf sender) 1 ?s) 0 HTYPE_ETHER = Ret (HTYPE_ETHER # ?s @ drop 7 (hbuf sender))"
    using assms l by (cases "hbuf sender") (auto simp: wr_def put_def)
  ultimately show ?thesis using assms l w r g
    by (simp add: assemble_ethernet_header_def decode_ethernet_header_def ETHER_HEADER_SIZE_def rdn_def)
qed

end
