(* ===== verification/Relay.thy ===== *)
theory Relay
  imports Dhcp_Prelude
begin

text \<open>
  The DHCPv4 relay agent of \<open>relay/dhcrelay.c\<close>: \<open>do_relay4\<close>, which forwards replies to
  clients and requests to servers, and the functions that put a relay agent information option
  into a request and take it out of a reply.

  A packet is the buffer it was received in, a list of bytes that is longer than the packet;
  pointers into the packet are indices, and the fields of \<open>struct dhcp_packet\<close> are read at
  their offsets. The list of interfaces is a list, a pointer to an interface its index. The
  counters are a record that is passed along. Sending a packet is an event; the outcome of
  the n-th send of a call is an argument.
\<close>

section \<open>Constants, configuration and state\<close>

abbreviation DHO_PAD :: byte where "DHO_PAD \<equiv> 0"
abbreviation DHO_DHCP_MESSAGE_TYPE :: byte where "DHO_DHCP_MESSAGE_TYPE \<equiv> 53"
abbreviation DHO_DHCP_MAX_MESSAGE_SIZE :: byte where "DHO_DHCP_MAX_MESSAGE_SIZE \<equiv> 57"
abbreviation DHO_DHCP_AGENT_OPTIONS :: byte where "DHO_DHCP_AGENT_OPTIONS \<equiv> 82"
abbreviation DHO_END :: byte where "DHO_END \<equiv> 255"
abbreviation RAI_CIRCUIT_ID :: byte where "RAI_CIRCUIT_ID \<equiv> 1"
abbreviation RAI_REMOTE_ID :: byte where "RAI_REMOTE_ID \<equiv> 2"
abbreviation RAI_LINK_SELECT :: byte where "RAI_LINK_SELECT \<equiv> 5"
abbreviation BOOTREPLY :: byte where "BOOTREPLY \<equiv> 2"

definition BOOTP_MIN_LEN :: nat where "BOOTP_MIN_LEN = 300"
definition DHCP_MTU_MIN :: nat where "DHCP_MTU_MIN = 576"
definition DHCP_FIXED_NON_UDP :: nat where "DHCP_FIXED_NON_UDP = 236"

definition DHCP_OPTIONS_COOKIE :: "byte list" where
  "DHCP_OPTIONS_COOKIE = [99, 130, 83, 99]"

datatype agent_mode = forward_and_append | forward_and_replace | forward_untouched | discard

record interface_info =
  addresses :: "byte list list"
  circuit_id :: "byte list option"
  circuit_id_len :: nat
  remote_id :: "byte list option"
  remote_id_len :: nat
  upstream :: bool
  downstream :: bool

record relay_config =
  add_agent_options :: bool
  add_rfc3527_suboption :: bool
  drop_agent_mismatches :: bool
  agent_relay_mode :: agent_mode
  max_hop_count :: nat
  dhcp_max_agent_option_packet_length :: nat
  interfaces :: "interface_info list"
  uplink :: "nat option"
  fallback_interface :: "nat option"
  servers :: "byte list list"
  can_unicast_without_arp :: bool

record relay_counters =
  bogus_giaddr_drops :: int
  client_packets_relayed :: int
  server_packet_errors :: int
  server_packets_relayed :: int
  client_packet_errors :: int
  agent_option_errors :: int
  corrupt_agent_options :: int
  missing_agent_option :: int
  bad_circuit_id :: int
  missing_circuit_id :: int

section \<open>Finding the interface of a reply\<close>

text \<open>
  The suboptions of an agent option of \<open>len\<close> bytes at \<open>off\<close>, from number \<open>i\<close> on:
  \<open>None\<close> when they are corrupt, else the position and length of the last circuit ID.
\<close>

function find_circuit_id ::
  "byte list \<Rightarrow> nat \<Rightarrow> nat \<Rightarrow> nat \<Rightarrow> (nat \<times> nat) option \<Rightarrow> (nat \<times> nat) option option cres" where
  "find_circuit_id buf off len i cid =
     (if i < len then
        if i + 1 = len then Ret None
        else bindC (rd buf (off + i + 1)) (\<lambda>l.
          if i + unat l + 2 > len then Ret None
          else bindC (rd buf (off + i)) (\<lambda>c.
            find_circuit_id buf off len (i + unat l + 2)
              (if c = RAI_CIRCUIT_ID then Some (off + i + 2, unat l) else cid)))
      else Ret (Some cid))"
  by pat_completeness auto
termination
  by (relation "measure (\<lambda>(buf, off, len, i, cid). len - i)") auto

declare find_circuit_id.simps [simp del]

text \<open>The first interface from number \<open>k\<close> on with the given circuit ID.\<close>

fun match_circuit :: "interface_info list \<Rightarrow> nat \<Rightarrow> byte list \<Rightarrow> nat option cres" where
  "match_circuit [] k cid = Ret None"
| "match_circuit (ip # ips) k cid =
     bindC (case circuit_id ip of None \<Rightarrow> Ret False
            | Some c \<Rightarrow> if circuit_id_len ip = length cid
                then bindC (rdn c 0 (length cid)) (\<lambda>x. Ret (x = cid)) else Ret False) (\<lambda>m.
       if m then Ret (Some k) else match_circuit ips (k + 1) cid)"

definition find_interface_by_agent_option ::
  "relay_config \<Rightarrow> byte list \<Rightarrow> nat \<Rightarrow> nat \<Rightarrow> nat option \<Rightarrow> relay_counters \<Rightarrow> (int \<times> nat option \<times> relay_counters) cres" where
  "find_interface_by_agent_option cfg buf off len out cnt =
     bindC (find_circuit_id buf off len 0 None) (\<lambda>r. case r of
        None \<Rightarrow> Ret (- 1, out, cnt\<lparr>corrupt_agent_options := corrupt_agent_options cnt + 1\<rparr>)
      | Some None \<Rightarrow> Ret (- 1, out, cnt\<lparr>missing_circuit_id := missing_circuit_id cnt + 1\<rparr>)
      | Some (Some (p, l)) \<Rightarrow>
          bindC (rdn buf p l) (\<lambda>cid.
          bindC (match_circuit (interfaces cfg) 0 cid) (\<lambda>m. case m of
            Some k \<Rightarrow> Ret (1, Some k, cnt)
          | None \<Rightarrow> Ret (- 1, out, cnt\<lparr>bad_circuit_id := bad_circuit_id cnt + 1\<rparr>))))"

section \<open>Taking the agent option out of a reply\<close>

text \<open>Copying an option of \<open>n\<close> bytes down from \<open>op\<close> to \<open>sp\<close>.\<close>

definition copy_down :: "byte list \<Rightarrow> nat \<Rightarrow> nat \<Rightarrow> nat \<Rightarrow> byte list cres" where
  "copy_down buf sp op n = (if sp \<noteq> op then bindC (rdn buf op n) (\<lambda>xs. wrn buf sp xs) else Ret buf)"

lemma length_copy_down: "copy_down buf sp op n = Ret buf' \<Longrightarrow> length buf' = length buf"
  by (auto simp: copy_down_def cres_simps buf_simps split: if_splits)

record strip_state =
  sbuf :: "byte list"
  s_op :: nat
  s_sp :: nat
  is_dhcp :: bool
  good_agent_option :: bool
  s_out :: "nat option"
  s_cnt :: relay_counters

text \<open>The loop over the options; the flag says that the packet is dropped (\<open>return (0)\<close>).\<close>

function strip_loop :: "relay_config \<Rightarrow> nat \<Rightarrow> strip_state \<Rightarrow> (bool \<times> strip_state) cres" where
  "strip_loop cfg mx st =
     (let buf = sbuf st; op = s_op st; sp = s_sp st in
      if op < mx then
        bindC (rd buf op) (\<lambda>c.
        if c = DHO_PAD then
          bindC (copy_down buf sp op 1) (\<lambda>buf'. strip_loop cfg mx (st\<lparr>sbuf := buf', s_op := op + 1, s_sp := sp + 1\<rparr>))
        else if c = DHO_END then
          if sp \<noteq> op then bindC (wr buf sp c) (\<lambda>buf'. Ret (False, st\<lparr>sbuf := buf', s_op := op + 1, s_sp := sp + 1\<rparr>))
          else Ret (False, st)
        else if c = DHO_DHCP_AGENT_OPTIONS \<and> is_dhcp st then
          bindC (rd buf (op + 1)) (\<lambda>l.
          let nextop = op + unat l + 2 in
          if nextop > mx then Ret (True, st)
          else bindC (find_interface_by_agent_option cfg buf (op + 2) (unat l) (s_out st) (s_cnt st)) (\<lambda>(status, out, cnt).
            let st = st\<lparr>s_out := out, s_cnt := cnt\<rparr> in
            if status = - 1 \<and> drop_agent_mismatches cfg then Ret (True, st)
            else strip_loop cfg mx (st\<lparr>s_op := nextop, good_agent_option := (good_agent_option st \<or> status \<noteq> 0)\<rparr>)))
        else
          let st = st\<lparr>is_dhcp := (is_dhcp st \<or> c = DHO_DHCP_MESSAGE_TYPE)\<rparr> in
          bindC (rd buf (op + 1)) (\<lambda>l.
          let nextop = op + unat l + 2 in
          if nextop > mx then Ret (True, st)
          else bindC (copy_down buf sp op (unat l + 2)) (\<lambda>buf'.
            strip_loop cfg mx (st\<lparr>sbuf := buf', s_op := nextop, s_sp := sp + unat l + 2\<rparr>))))
      else Ret (False, st))"
  by pat_completeness auto
termination
  by (relation "measure (\<lambda>(cfg, mx, st). mx - s_op st)") auto

declare strip_loop.simps [simp del]

text \<open>The result is the new length, 0 to drop the packet, and the packet, the interface and the counters.\<close>

definition strip_relay_agent_options ::
  "relay_config \<Rightarrow> nat option \<Rightarrow> byte list \<Rightarrow> nat \<Rightarrow> relay_counters
    \<Rightarrow> (nat \<times> byte list \<times> nat option \<times> relay_counters) cres" where
  "strip_relay_agent_options cfg out buf plen cnt =
     (if \<not> add_agent_options cfg then Ret (plen, buf, out, cnt)
      else
      bindC (rdn buf DHCP_FIXED_NON_UDP 4) (\<lambda>cookie.
      if cookie \<noteq> DHCP_OPTIONS_COOKIE then Ret (plen, buf, out, cnt)
      else
      let start = DHCP_FIXED_NON_UDP + 4 in
      bindC (strip_loop cfg plen \<lparr>sbuf = buf, s_op = start, s_sp = start, is_dhcp = False,
               good_agent_option = False, s_out = out, s_cnt = cnt\<rparr>) (\<lambda>(dropped, st).
      if dropped then Ret (0, sbuf st, s_out st, s_cnt st)
      else if \<not> is_dhcp st then Ret (plen, sbuf st, s_out st, s_cnt st)
      else
      let cnt = (if good_agent_option st then s_cnt st
                 else (s_cnt st)\<lparr>missing_agent_option := missing_agent_option (s_cnt st) + 1\<rparr>)
      in
      if \<not> good_agent_option st \<and> drop_agent_mismatches cfg then Ret (0, sbuf st, s_out st, cnt)
      else if s_sp st \<noteq> s_op st then
        if s_sp st < BOOTP_MIN_LEN
        then bindC (wrn (sbuf st) (s_sp st) (replicate (BOOTP_MIN_LEN - s_sp st) DHO_PAD)) (\<lambda>buf.
               Ret (BOOTP_MIN_LEN, buf, s_out st, cnt))
        else Ret (s_sp st, sbuf st, s_out st, cnt)
      else Ret (plen, sbuf st, s_out st, cnt))))"

section \<open>Adding the agent option to a request\<close>

text \<open>\<open>ntohs\<close> of a number below 256, on a little-endian machine.\<close>

definition ntohs_byte :: "byte \<Rightarrow> nat" where
  "ntohs_byte b = 256 * unat b"

record add_state =
  abuf :: "byte list"
  a_op :: nat
  a_sp :: nat
  a_max :: nat
  a_is_dhcp :: bool
  end_pad :: "nat option"

text \<open>How the loop ends: at the end of the options, or with a return of the length or of 0.\<close>

datatype add_end = Goto_out | Return_length | Return_zero

text \<open>The part from the label \<open>skip\<close> on, for an option that stays in the packet.\<close>

definition skip_option :: "add_state \<Rightarrow> (add_state option) cres" where
  "skip_option st =
     bindC (rd (abuf st) (a_op st + 1)) (\<lambda>l.
     let nextop = a_op st + unat l + 2 in
     if nextop > a_max st then Ret None
     else bindC (copy_down (abuf st) (a_sp st) (a_op st) (unat l + 2)) (\<lambda>buf.
       Ret (Some (st\<lparr>abuf := buf, a_op := nextop, a_sp := a_sp st + unat l + 2, end_pad := None\<rparr>))))"

lemma skip_option_progress:
  "skip_option st = Ret (Some st') \<Longrightarrow> a_op st < a_op st' \<and> length (abuf st') = length (abuf st)"
  by (auto simp: skip_option_def cres_simps Let_def length_copy_down split: if_splits)

function add_loop :: "relay_config \<Rightarrow> add_state \<Rightarrow> (add_end \<times> add_state) cres" where
  "add_loop cfg st =
     (if a_op st < a_max st then
        bindC (rd (abuf st) (a_op st)) (\<lambda>c.
        if c = DHO_PAD then
          let st = st\<lparr>end_pad := (if end_pad st = None then Some (a_sp st) else end_pad st)\<rparr> in
          bindC (copy_down (abuf st) (a_sp st) (a_op st) 1) (\<lambda>buf.
            add_loop cfg (st\<lparr>abuf := buf, a_op := a_op st + 1, a_sp := a_sp st + 1\<rparr>))
        else if c = DHO_END then Ret (Goto_out, st)
        else if c = DHO_DHCP_AGENT_OPTIONS \<and> a_is_dhcp st \<and> agent_relay_mode cfg = forward_untouched then
          Ret (Return_length, st\<lparr>end_pad := None\<rparr>)
        else if c = DHO_DHCP_AGENT_OPTIONS \<and> a_is_dhcp st \<and> agent_relay_mode cfg = discard then
          Ret (Return_zero, st\<lparr>end_pad := None\<rparr>)
        else if c = DHO_DHCP_AGENT_OPTIONS \<and> a_is_dhcp st \<and> agent_relay_mode cfg = forward_and_replace then
          bindC (rd (abuf st) (a_op st + 1)) (\<lambda>l. add_loop cfg (st\<lparr>end_pad := None, a_op := a_op st + unat l + 2\<rparr>))
        else
          bindC (if c = DHO_DHCP_MAX_MESSAGE_SIZE then
                   bindC (rd (abuf st) (a_op st + 2)) (\<lambda>b.
                   let mms = ntohs_byte b in
                   Ret (if mms < dhcp_max_agent_option_packet_length cfg \<and> mms \<ge> DHCP_MTU_MIN then mms else a_max st))
                 else Ret (a_max st)) (\<lambda>mx.
          bindC (skip_option (st\<lparr>a_max := mx, a_is_dhcp := (a_is_dhcp st \<or> c = DHO_DHCP_MESSAGE_TYPE)\<rparr>)) (\<lambda>r.
            case r of None \<Rightarrow> Ret (Return_zero, st) | Some st \<Rightarrow> add_loop cfg st)))
      else Ret (Goto_out, st))"
  by pat_completeness auto
termination
proof (relation "measure (\<lambda>(cfg, st). length (abuf st) - a_op st)", goal_cases)
  case (2 cfg st c st' buf)
  then show ?case using length_copy_down [of "abuf st'" "a_sp st'" "a_op st'" 1 buf] by (auto simp: buf_simps)
next
  case (4 cfg st c mx r st')
  then show ?case using skip_option_progress [of _ st'] by (fastforce simp: buf_simps)
qed (auto simp: buf_simps)

declare add_loop.simps [simp del]

definition RELAY_GIADDR :: nat where "RELAY_GIADDR = 24"

text \<open>The bytes of the option, without its code and its length.\<close>

definition agent_option_body :: "interface_info \<Rightarrow> bool \<Rightarrow> byte list \<Rightarrow> byte list cres" where
  "agent_option_body ip adding_link_select giaddr =
     bindC (case circuit_id ip of None \<Rightarrow> Undef | Some c \<Rightarrow> rdn c 0 (circuit_id_len ip)) (\<lambda>cid.
     bindC (case remote_id ip of None \<Rightarrow> Ret []
            | Some r \<Rightarrow> bindC (rdn r 0 (remote_id_len ip)) (\<lambda>rid. Ret ([RAI_REMOTE_ID, of_nat (remote_id_len ip)] @ rid))) (\<lambda>rem.
       Ret ([RAI_CIRCUIT_ID, of_nat (circuit_id_len ip)] @ cid @ rem
         @ (if adding_link_select then [RAI_LINK_SELECT, 4] @ giaddr else []))))"

text \<open>\<open>optlen\<close>, with the checks that stop the process.\<close>

definition agent_option_length :: "interface_info \<Rightarrow> bool \<Rightarrow> nat cres" where
  "agent_option_length ip adding_link_select =
     bindC (assertC (1 \<le> circuit_id_len ip \<and> circuit_id_len ip \<le> 255)) (\<lambda>_.
     bindC (assertC (remote_id ip = None \<or> 1 \<le> remote_id_len ip \<and> remote_id_len ip \<le> 255)) (\<lambda>_.
     let optlen = circuit_id_len ip + 2 + (if remote_id ip = None then 0 else remote_id_len ip + 2)
       + (if adding_link_select then 6 else 0)
     in bindC (assertC (3 \<le> optlen \<and> optlen \<le> 255)) (\<lambda>_. Ret optlen)))"

definition uplink_address :: "relay_config \<Rightarrow> byte list cres" where
  "uplink_address cfg = (case uplink cfg of None \<Rightarrow> Undef
     | Some u \<Rightarrow> bindC (rd (interfaces cfg) u) (\<lambda>ip. rd (addresses ip) 0))"

text \<open>Writing the option at \<open>sp\<close>, if there is room for it before \<open>mx\<close>.\<close>

definition place_agent_option ::
  "relay_config \<Rightarrow> interface_info \<Rightarrow> bool \<Rightarrow> byte list \<Rightarrow> nat \<Rightarrow> nat \<Rightarrow> byte list \<Rightarrow> relay_counters
    \<Rightarrow> (byte list \<times> nat \<times> relay_counters) cres" where
  "place_agent_option cfg ip adding_link_select giaddr mx sp buf cnt =
     bindC (agent_option_length ip adding_link_select) (\<lambda>optlen.
     if int mx - int sp \<ge> int optlen + 3 then
       bindC (agent_option_body ip adding_link_select giaddr) (\<lambda>body.
       bindC (wrn buf sp ([DHO_DHCP_AGENT_OPTIONS, of_nat optlen] @ body)) (\<lambda>buf.
       bindC (if adding_link_select
              then bindC (uplink_address cfg) (\<lambda>a. wrn buf RELAY_GIADDR a) else Ret buf) (\<lambda>buf.
         Ret (buf, sp + 2 + length body, cnt))))
     else Ret (buf, sp, cnt\<lparr>agent_option_errors := agent_option_errors cnt + 1\<rparr>))"

text \<open>The end option, and padding to the minimum length.\<close>

definition finish_packet :: "nat \<Rightarrow> byte list \<Rightarrow> nat \<Rightarrow> (nat \<times> byte list) cres" where
  "finish_packet mx buf sp =
     bindC (if sp < mx then bindC (wr buf sp DHO_END) (\<lambda>buf. Ret (buf, sp + 1)) else Ret (buf, sp)) (\<lambda>(buf, sp).
     if sp < BOOTP_MIN_LEN
     then bindC (wrn buf sp (replicate (BOOTP_MIN_LEN - sp) DHO_PAD)) (\<lambda>buf. Ret (BOOTP_MIN_LEN, buf))
     else Ret (sp, buf))"

definition add_relay_agent_options ::
  "relay_config \<Rightarrow> interface_info \<Rightarrow> byte list \<Rightarrow> nat \<Rightarrow> byte list \<Rightarrow> relay_counters
    \<Rightarrow> (nat \<times> byte list \<times> relay_counters) cres" where
  "add_relay_agent_options cfg ip buf plen giaddr cnt =
     (if \<not> add_agent_options cfg then Ret (plen, buf, cnt)
      else
      bindC (rdn buf DHCP_FIXED_NON_UDP 4) (\<lambda>cookie.
      if cookie \<noteq> DHCP_OPTIONS_COOKIE then Ret (plen, buf, cnt)
      else
      bindC (rdn buf RELAY_GIADDR 4) (\<lambda>g.
      let adding_link_select = (add_rfc3527_suboption cfg \<and> g = [0, 0, 0, 0]); start = DHCP_FIXED_NON_UDP + 4 in
      bindC (add_loop cfg \<lparr>abuf = buf, a_op = start, a_sp = start, a_max = dhcp_max_agent_option_packet_length cfg,
               a_is_dhcp = False, end_pad = None\<rparr>) (\<lambda>(e, st).
      if e = Return_zero then Ret (0, abuf st, cnt)
      else if e = Return_length \<or> \<not> a_is_dhcp st then Ret (plen, abuf st, cnt)
      else
      let sp = (case end_pad st of None \<Rightarrow> a_sp st | Some p \<Rightarrow> p) in
      bindC (place_agent_option cfg ip adding_link_select giaddr (a_max st) sp (abuf st) cnt) (\<lambda>(buf, sp, cnt).
      bindC (finish_packet (a_max st) buf sp) (\<lambda>(n, buf). Ret (n, buf, cnt)))))))"

section \<open>Relaying a packet\<close>

text \<open>A packet that was sent: the interface (\<open>None\<close> the fallback interface), the bytes, the
  address it is sent from and to, and the hardware address it is sent to, if not to all.\<close>

record sent =
  sent_on :: "nat option"
  sent_data :: "byte list"
  sent_from :: "byte list"
  sent_to :: "byte list"
  sent_hto :: "byte list option"

definition INADDR_BROADCAST :: "byte list" where
  "INADDR_BROADCAST = [255, 255, 255, 255]"

definition OFF_HLEN :: nat where "OFF_HLEN = 2"
definition OFF_HOPS :: nat where "OFF_HOPS = 3"
definition OFF_FLAGS :: nat where "OFF_FLAGS = 10"
definition OFF_YIADDR :: nat where "OFF_YIADDR = 16"
definition OFF_CHADDR :: nat where "OFF_CHADDR = 28"

fun find_giaddr :: "interface_info list \<Rightarrow> nat \<Rightarrow> byte list \<Rightarrow> nat option" where
  "find_giaddr [] k g = None"
| "find_giaddr (ip # ips) k g = (if g \<in> set (addresses ip) then Some k else find_giaddr ips (k + 1) g)"

definition relay_reply ::
  "relay_config \<Rightarrow> (nat \<Rightarrow> bool) \<Rightarrow> interface_info \<Rightarrow> byte list \<Rightarrow> nat \<Rightarrow> nat option \<Rightarrow> relay_counters
    \<Rightarrow> (byte list \<times> relay_counters \<times> sent list) cres" where
  "relay_reply cfg send_ok ip buf plen out cnt =
     (if \<not> upstream ip then Ret (buf, cnt, [])
      else
      bindC (rd buf OFF_FLAGS) (\<lambda>flags.
      bindC (rdn buf OFF_YIADDR 4) (\<lambda>yiaddr.
      bindC (rd buf OFF_HLEN) (\<lambda>hlen.
      bindC (rd buf 1) (\<lambda>htype.
      bindC (rdn buf OFF_CHADDR (unat hlen)) (\<lambda>chaddr.
      let unicast = (flags AND 0x80 = 0 \<and> can_unicast_without_arp cfg);
          to = (if unicast then yiaddr else INADDR_BROADCAST);
          hto = (if unicast then Some (htype # chaddr) else None)
      in
      bindC (strip_relay_agent_options cfg out buf plen cnt) (\<lambda>(plen, buf, out, cnt).
      if plen = 0 then Ret (buf, cnt, [])
      else case out of
        None \<Rightarrow> Ret (buf, cnt\<lparr>bogus_giaddr_drops := bogus_giaddr_drops cnt + 1\<rparr>, [])
      | Some k \<Rightarrow>
          bindC (rd (interfaces cfg) k) (\<lambda>oip.
          bindC (rd (addresses oip) 0) (\<lambda>a.
          bindC (rdn buf 0 plen) (\<lambda>dat.
            Ret (buf,
              if send_ok 0 then cnt\<lparr>server_packets_relayed := server_packets_relayed cnt + 1\<rparr>
              else cnt\<lparr>server_packet_errors := server_packet_errors cnt + 1\<rparr>,
              [\<lparr>sent_on = Some k, sent_data = dat, sent_from = a, sent_to = to, sent_hto = hto\<rparr>])))))))))))"

fun send_to_servers ::
  "(nat \<Rightarrow> bool) \<Rightarrow> nat \<Rightarrow> sent \<Rightarrow> byte list list \<Rightarrow> relay_counters \<Rightarrow> relay_counters \<times> sent list" where
  "send_to_servers send_ok n p [] cnt = (cnt, [])"
| "send_to_servers send_ok n p (sp # sps) cnt =
     (let cnt = (if send_ok n then cnt\<lparr>client_packets_relayed := client_packets_relayed cnt + 1\<rparr>
                 else cnt\<lparr>client_packet_errors := client_packet_errors cnt + 1\<rparr>);
          (cnt, ps) = send_to_servers send_ok (n + 1) p sps cnt
      in (cnt, p\<lparr>sent_to := sp\<rparr> # ps))"

definition relay_request ::
  "relay_config \<Rightarrow> (nat \<Rightarrow> bool) \<Rightarrow> interface_info \<Rightarrow> byte list \<Rightarrow> nat \<Rightarrow> nat option \<Rightarrow> relay_counters
    \<Rightarrow> (byte list \<times> relay_counters \<times> sent list) cres" where
  "relay_request cfg send_ok ip buf plen out cnt =
     (if out \<noteq> None then Ret (buf, cnt, [])
      else if \<not> downstream ip then Ret (buf, cnt, [])
      else
      bindC (rd (addresses ip) 0) (\<lambda>a.
      bindC (add_relay_agent_options cfg ip buf plen a cnt) (\<lambda>(plen, buf, cnt).
      if plen = 0 then Ret (buf, cnt, [])
      else
      bindC (rdn buf RELAY_GIADDR 4) (\<lambda>g.
      bindC (if g = [0, 0, 0, 0] then wrn buf RELAY_GIADDR a else Ret buf) (\<lambda>buf.
      bindC (rd buf OFF_HOPS) (\<lambda>hops.
      if unat hops < max_hop_count cfg then
        bindC (wr buf OFF_HOPS (hops + 1)) (\<lambda>buf.
        bindC (rdn buf 0 plen) (\<lambda>dat.
        let on = (case fallback_interface cfg of Some f \<Rightarrow> None | None \<Rightarrow> Some 0);
            (cnt, ps) = send_to_servers send_ok 0
              \<lparr>sent_on = on, sent_data = dat, sent_from = a, sent_to = [], sent_hto = None\<rparr> (servers cfg) cnt
        in Ret (buf, cnt, ps)))
      else Ret (buf, cnt, [])))))))"

definition do_relay4 ::
  "relay_config \<Rightarrow> (nat \<Rightarrow> bool) \<Rightarrow> nat \<Rightarrow> byte list \<Rightarrow> nat \<Rightarrow> relay_counters
    \<Rightarrow> (byte list \<times> relay_counters \<times> sent list) cres" where
  "do_relay4 cfg send_ok k buf plen cnt =
     bindC (rd (interfaces cfg) k) (\<lambda>ip.
     bindC (rd buf OFF_HLEN) (\<lambda>hlen.
     if unat hlen > 16 then Ret (buf, cnt, [])
     else if addresses ip = [] then Ret (buf, cnt, [])
     else
     bindC (rdn buf RELAY_GIADDR 4) (\<lambda>g.
     let out = (if g \<noteq> [0, 0, 0, 0] then find_giaddr (interfaces cfg) 0 g else None) in
     bindC (rd buf 0) (\<lambda>op.
       if op = BOOTREPLY then relay_reply cfg send_ok ip buf plen out cnt
       else relay_request cfg send_ok ip buf plen out cnt))))"

end
