(* ===== verification/Relay_Inv.thy ===== *)
theory Relay_Inv
  imports Relay
begin

text \<open>
  Properties of the relay agent. Options that are well formed are lists of codes with data;
  the functions on packets are compared with functions on such lists.
\<close>

section \<open>Well-formed options\<close>

datatype dopt = Pad | Opt byte "byte list"

fun enc1 :: "dopt \<Rightarrow> byte list" where
  "enc1 Pad = [DHO_PAD]"
| "enc1 (Opt c d) = c # of_nat (length d) # d"

definition enc :: "dopt list \<Rightarrow> byte list" where
  "enc os = concat (map enc1 os)"

fun wf_opt :: "dopt \<Rightarrow> bool" where
  "wf_opt Pad = True"
| "wf_opt (Opt c d) \<longleftrightarrow> c \<noteq> DHO_PAD \<and> c \<noteq> DHO_END \<and> length d \<le> 255"

fun opt_code :: "dopt \<Rightarrow> byte" where
  "opt_code Pad = DHO_PAD"
| "opt_code (Opt c d) = c"

lemma enc_simps [simp]: "enc [] = []" "enc (x # os) = enc1 x @ enc os" "enc (xs @ ys) = enc xs @ enc ys"
  by (simp_all add: enc_def)

text \<open>The options of a packet without the agent options that follow the message type.\<close>

fun strip_opts :: "bool \<Rightarrow> dopt list \<Rightarrow> dopt list" where
  "strip_opts dh [] = []"
| "strip_opts dh (Pad # os) = Pad # strip_opts dh os"
| "strip_opts dh (Opt c d # os) =
     (if c = DHO_DHCP_AGENT_OPTIONS \<and> dh then strip_opts dh os
      else Opt c d # strip_opts (dh \<or> c = DHO_DHCP_MESSAGE_TYPE) os)"

section \<open>The interface a circuit ID names\<close>

fun sub_circuit :: "byte list \<Rightarrow> byte list option \<Rightarrow> byte list option option" where
  "sub_circuit [] cid = Some cid"
| "sub_circuit [x] cid = None"
| "sub_circuit (c # l # r) cid =
     (if unat l > length r then None
      else sub_circuit (drop (unat l) r) (if c = RAI_CIRCUIT_ID then Some (take (unat l) r) else cid))"

definition has_circuit :: "byte list \<Rightarrow> interface_info \<Rightarrow> bool" where
  "has_circuit cid ip \<longleftrightarrow> (\<exists>c. circuit_id ip = Some c \<and> circuit_id_len ip = length cid \<and> take (length cid) c = cid)"

definition wf_iface :: "interface_info \<Rightarrow> bool" where
  "wf_iface ip \<longleftrightarrow> (\<forall>c. circuit_id ip = Some c \<longrightarrow> circuit_id_len ip \<le> length c)
     \<and> (\<forall>r. remote_id ip = Some r \<longrightarrow> remote_id_len ip \<le> length r)"

fun circuit_index :: "interface_info list \<Rightarrow> nat \<Rightarrow> byte list \<Rightarrow> nat option" where
  "circuit_index [] k cid = None"
| "circuit_index (ip # ips) k cid = (if has_circuit cid ip then Some k else circuit_index ips (k + 1) cid)"

lemma match_circuit_index:
  "\<forall>ip \<in> set ips. wf_iface ip \<Longrightarrow> match_circuit ips k cid = Ret (circuit_index ips k cid)"
  by (induction ips arbitrary: k) (auto simp: wf_iface_def has_circuit_def rdn_def split: option.splits)

definition bytes_at :: "byte list \<Rightarrow> nat \<times> nat \<Rightarrow> byte list" where
  "bytes_at buf = (\<lambda>(p, l). take l (drop p buf))"

definition inside :: "byte list \<Rightarrow> (nat \<times> nat) option \<Rightarrow> bool" where
  "inside buf cid \<longleftrightarrow> (\<forall>p l. cid = Some (p, l) \<longrightarrow> p + l \<le> length buf)"

lemma find_circuit_id_spec:
  assumes "off + len \<le> length buf" "inside buf cid" "i \<le> len"
  shows "\<exists>r. find_circuit_id buf off len i cid = Ret r
    \<and> map_option (map_option (bytes_at buf)) r = sub_circuit (take (len - i) (drop (off + i) buf)) (map_option (bytes_at buf) cid)
    \<and> (\<forall>c. r = Some c \<longrightarrow> inside buf c)"
  using assms
proof (induction buf off len i cid rule: find_circuit_id.induct)
  case step: (1 buf off len i cid)
  let ?d = "take (len - i) (drop (off + i) buf)"
  consider "i = len" | "i + 1 = len" | "i + 2 \<le> len" using step(4) by linarith
  then show ?case
  proof cases
    case 1
    then show ?thesis using step(3) by (simp add: find_circuit_id.simps)
  next
    case 2
    then have "?d = [buf ! (off + i)]" using step(2) by (auto simp: take_Suc_conv_app_nth hd_drop_conv_nth)
    then show ?thesis using 2 by (simp add: find_circuit_id.simps)
  next
    case 3
    let ?c = "buf ! (off + i)" and ?l = "buf ! (off + i + 1)" and ?r = "take (len - i - 2) (drop (off + i + 2) buf)"
    have d: "?d = ?c # ?l # ?r"
      using 3 step(2) by (simp add: Cons_nth_drop_Suc [symmetric] take_Cons' numeral_2_eq_2)
    have b: "off + i + 1 < length buf" "length ?r = len - i - 2" using 3 step(2) by simp_all
    have f: "find_circuit_id buf off len i cid = (if i + unat ?l + 2 > len then Ret None
        else find_circuit_id buf off len (i + unat ?l + 2) (if ?c = RAI_CIRCUIT_ID then Some (off + i + 2, unat ?l) else cid))"
      using 3 b by (subst find_circuit_id.simps) simp
    show ?thesis
    proof (cases "i + unat ?l + 2 > len")
      case True
      then show ?thesis using 3 b unfolding d f by simp
    next
      case False
      let ?cid = "if ?c = RAI_CIRCUIT_ID then Some (off + i + 2, unat ?l) else cid"
      have "inside buf ?cid" using False step(2,3) by (auto simp: inside_def)
      from step(1) [OF _ _ _ _ _ step(2) this]
      obtain r where "find_circuit_id buf off len (i + unat ?l + 2) ?cid = Ret r"
          "map_option (map_option (bytes_at buf)) r = sub_circuit (take (len - (i + unat ?l + 2)) (drop (off + (i + unat ?l + 2)) buf))
            (map_option (bytes_at buf) ?cid)" "\<forall>c. r = Some c \<longrightarrow> inside buf c"
        using 3 False b by auto
      moreover have "drop (unat ?l) ?r = take (len - (i + unat ?l + 2)) (drop (off + (i + unat ?l + 2)) buf)"
        "take (unat ?l) ?r = bytes_at buf (off + i + 2, unat ?l)"
        using False by (simp_all add: drop_take bytes_at_def ac_simps min_absorb2)
      ultimately show ?thesis using False b unfolding d f by (auto simp: ac_simps)
    qed
  qed
qed

text \<open>What looking up the interface of an agent option with the bytes \<open>d\<close> yields.\<close>

definition agent_found ::
  "relay_config \<Rightarrow> byte list \<Rightarrow> nat option \<Rightarrow> relay_counters \<Rightarrow> int \<times> nat option \<times> relay_counters" where
  "agent_found cfg d out cnt =
     (case sub_circuit d None of
        None \<Rightarrow> (- 1, out, cnt\<lparr>corrupt_agent_options := corrupt_agent_options cnt + 1\<rparr>)
      | Some None \<Rightarrow> (- 1, out, cnt\<lparr>missing_circuit_id := missing_circuit_id cnt + 1\<rparr>)
      | Some (Some cid) \<Rightarrow>
          (case circuit_index (interfaces cfg) 0 cid of
             Some k \<Rightarrow> (1, Some k, cnt)
           | None \<Rightarrow> (- 1, out, cnt\<lparr>bad_circuit_id := bad_circuit_id cnt + 1\<rparr>)))"

definition wf_config :: "relay_config \<Rightarrow> bool" where
  "wf_config cfg \<longleftrightarrow> (\<forall>ip \<in> set (interfaces cfg). wf_iface ip)"

lemma find_interface_spec:
  assumes "wf_config cfg" "off + len \<le> length buf"
  shows "find_interface_by_agent_option cfg buf off len out cnt = Ret (agent_found cfg (take len (drop off buf)) out cnt)"
proof -
  obtain r where r: "find_circuit_id buf off len 0 None = Ret r"
      "map_option (map_option (bytes_at buf)) r = sub_circuit (take len (drop off buf)) None" "\<forall>c. r = Some c \<longrightarrow> inside buf c"
    using find_circuit_id_spec [OF assms(2), of None 0] by (auto simp: inside_def)
  show ?thesis
  proof (cases r)
    case (Some c)
    then show ?thesis
    proof (cases c)
      case (Some pl)
      then obtain p l where c: "c = Some (p, l)" by (cases pl) auto
      then have "rdn buf p l = Ret (bytes_at buf (p, l))" using \<open>r = Some c\<close> r(3) by (simp add: rdn_def bytes_at_def inside_def)
      then show ?thesis using \<open>r = Some c\<close> c r(1) r(2) [symmetric] match_circuit_index [of "interfaces cfg" 0] assms(1)
        by (auto simp: find_interface_by_agent_option_def agent_found_def wf_config_def split: option.splits)
    qed (use r in \<open>auto simp: find_interface_by_agent_option_def agent_found_def split: option.splits\<close>)
  qed (use r in \<open>auto simp: find_interface_by_agent_option_def agent_found_def split: option.splits\<close>)
qed

lemma agent_found_status: "agent_found cfg d out cnt = (s, r) \<Longrightarrow> s \<noteq> 0"
  by (auto simp: agent_found_def split: option.splits)

lemma copy_down_spec:
  assumes "sp \<le> op" "op + n \<le> length buf"
  shows "\<exists>buf'. copy_down buf sp op n = Ret buf' \<and> length buf' = length buf \<and> drop (op + n) buf' = drop (op + n) buf
    \<and> take (sp + n) buf' = take sp buf @ take n (drop op buf) \<and> (sp = op \<longrightarrow> buf' = buf)"
proof (cases "sp = op")
  case True
  then show ?thesis using assms take_add [of op n buf] by (simp add: copy_down_def)
next
  case False
  let ?x = "take n (drop op buf)"
  have l: "length ?x = n" using assms by simp
  have w: "wrn buf sp ?x = Ret (put buf sp ?x)" using assms l by (intro wrn_in) simp
  have "drop (op + n) (put buf sp ?x) = drop (op + n) buf"
    using assms l by (simp add: put_def)
  then show ?thesis using False assms l w take_put [of sp ?x buf] by (simp add: copy_down_def rdn_def)
qed

text \<open>The walk of \<open>strip_relay_agent_options\<close> over a list of options: whether the packet is
  dropped, whether there was an agent option, the interface and the counters.\<close>

fun strip_walk ::
  "relay_config \<Rightarrow> bool \<Rightarrow> dopt list \<Rightarrow> bool \<times> nat option \<times> relay_counters \<Rightarrow> bool \<times> bool \<times> nat option \<times> relay_counters" where
  "strip_walk cfg dh [] f = (False, f)"
| "strip_walk cfg dh (Pad # os) f = strip_walk cfg dh os f"
| "strip_walk cfg dh (Opt c d # os) (good, out, cnt) =
     (if c = DHO_DHCP_AGENT_OPTIONS \<and> dh then
        let (status, out, cnt) = agent_found cfg d out cnt
        in if status = - 1 \<and> drop_agent_mismatches cfg then (True, good, out, cnt)
           else strip_walk cfg dh os (True, out, cnt)
      else strip_walk cfg (dh \<or> c = DHO_DHCP_MESSAGE_TYPE) os (good, out, cnt))"

lemma rd_drop: "drop i xs = y # ys \<Longrightarrow> rd xs i = Ret y \<and> i < length xs \<and> drop (i + 1) xs = ys"
  by (metis Cons_nth_drop_Suc add.commute drop_all linorder_not_le list.discI list.inject plus_1_eq_Suc rd_in)

lemma enc1_opt:
  assumes "drop op buf = enc1 (Opt c d) @ ys" "length d \<le> 255"
  shows "rd buf op = Ret c" "rd buf (op + 1) = Ret (of_nat (length d))" "unat (of_nat (length d) :: byte) = length d"
    "op + (length d + 2) \<le> length buf" "take (length d + 2) (drop op buf) = enc1 (Opt c d)"
    "drop (op + (length d + 2)) buf = ys" "take (length d) (drop (op + 2) buf) = d"
proof -
  have d: "drop op buf = c # of_nat (length d) # d @ ys" using assms by simp
  show "rd buf op = Ret c" "rd buf (op + 1) = Ret (of_nat (length d))" using rd_drop [OF d] rd_drop by fastforce+
  show "unat (of_nat (length d) :: byte) = length d" using assms(2) by (simp add: unat_of_nat_byte)
  have "length (drop op buf) = length d + 2 + length ys" using d by simp
  then show "op + (length d + 2) \<le> length buf" by simp
  show "take (length d + 2) (drop op buf) = enc1 (Opt c d)" using d by simp
  have k: "drop (op + k) buf = drop k (drop op buf)" for k by (simp add: add.commute)
  show "drop (op + (length d + 2)) buf = ys" "take (length d) (drop (op + 2) buf) = d" unfolding k d by simp_all
qed

section \<open>Stripping well-formed options\<close>

text \<open>\<open>st'\<close> is the state at the end of the options \<open>os\<close>: what stays has been moved down to
  \<open>s_sp st\<close>, followed by the end option, and nothing has been touched if all stays in place.\<close>

definition stripped :: "strip_state \<Rightarrow> dopt list \<Rightarrow> strip_state \<Rightarrow> bool" where
  "stripped st os st' \<longleftrightarrow>
     (let os' = strip_opts (is_dhcp st) os in
      length (sbuf st') = length (sbuf st)
      \<and> is_dhcp st' = (is_dhcp st \<or> DHO_DHCP_MESSAGE_TYPE \<in> opt_code ` set os)
      \<and> take (s_sp st + length (enc os') + 1) (sbuf st') = take (s_sp st) (sbuf st) @ enc os' @ [DHO_END]
      \<and> (if s_sp st = s_op st \<and> os' = os then s_sp st' = s_op st' \<and> sbuf st' = sbuf st
         else s_sp st' = s_sp st + length (enc os') + 1 \<and> s_sp st' < s_op st'))"

lemma length_strip_opts: "length (strip_opts dh os) \<le> length os"
  by (induction dh os rule: strip_opts.induct) auto

lemma stripped_keep:
  assumes "stripped st1 os st'" "s_sp st1 = s_sp st + length (enc1 x)" "s_op st1 = s_op st + length (enc1 x)"
    and "take (s_sp st1) (sbuf st1) = take (s_sp st) (sbuf st) @ enc1 x" "length (sbuf st1) = length (sbuf st)"
    and "s_sp st = s_op st \<Longrightarrow> sbuf st1 = sbuf st"
    and "is_dhcp st1 = (is_dhcp st \<or> opt_code x = DHO_DHCP_MESSAGE_TYPE)"
    and "strip_opts (is_dhcp st) (x # os) = x # strip_opts (is_dhcp st1) os"
  shows "stripped st (x # os) st'"
  using assms unfolding stripped_def Let_def
  by (cases "is_dhcp st"; cases "opt_code x = DHO_DHCP_MESSAGE_TYPE") (auto simp: ac_simps)

lemma stripped_remove:
  assumes "stripped (st\<lparr>s_out := u, s_cnt := v, s_op := o1, good_agent_option := g\<rparr>) os st'" "s_sp st < o1"
    and "is_dhcp st" "x = Opt DHO_DHCP_AGENT_OPTIONS d"
  shows "stripped st (x # os) st'"
proof -
  have "strip_opts True os \<noteq> x # os" using length_strip_opts [of True os] by (metis impossible_Cons)
  then show ?thesis using assms unfolding stripped_def Let_def by auto
qed

lemma strip_loop_keep:
  assumes "drop (s_op st) (sbuf st) = enc1 (Opt c d) @ ys" "length d \<le> 255" "c \<noteq> DHO_PAD" "c \<noteq> DHO_END"
    and "\<not> (c = DHO_DHCP_AGENT_OPTIONS \<and> is_dhcp st)" "s_sp st \<le> s_op st" "s_op st + length d + 2 \<le> mx"
  obtains st1 where "strip_loop cfg mx st = strip_loop cfg mx st1"
    "s_sp st1 = s_sp st + (length d + 2)" "s_op st1 = s_op st + (length d + 2)"
    "take (s_sp st1) (sbuf st1) = take (s_sp st) (sbuf st) @ enc1 (Opt c d)" "length (sbuf st1) = length (sbuf st)"
    "s_sp st = s_op st \<longrightarrow> sbuf st1 = sbuf st" "drop (s_op st1) (sbuf st1) = ys"
    "is_dhcp st1 = (is_dhcp st \<or> c = DHO_DHCP_MESSAGE_TYPE)"
    "(good_agent_option st1, s_out st1, s_cnt st1) = (good_agent_option st, s_out st, s_cnt st)"
proof -
  note e = enc1_opt [OF assms(1,2)]
  obtain buf' where b: "copy_down (sbuf st) (s_sp st) (s_op st) (length d + 2) = Ret buf'" "length buf' = length (sbuf st)"
      "drop (s_op st + (length d + 2)) buf' = drop (s_op st + (length d + 2)) (sbuf st)"
      "take (s_sp st + (length d + 2)) buf' = take (s_sp st) (sbuf st) @ take (length d + 2) (drop (s_op st) (sbuf st))"
      "s_sp st = s_op st \<longrightarrow> buf' = sbuf st"
    using copy_down_spec [OF assms(6) e(4)] by blast
  let ?st = "st\<lparr>is_dhcp := (is_dhcp st \<or> c = DHO_DHCP_MESSAGE_TYPE), sbuf := buf', s_op := s_op st + length d + 2,
    s_sp := s_sp st + length d + 2\<rparr>"
  have "strip_loop cfg mx st = strip_loop cfg mx ?st"
    using assms e b(1) by (subst strip_loop.simps) (auto simp: Let_def)
  then show ?thesis using b e by (intro that [of ?st]) (simp_all add: ac_simps)
qed

lemma strip_loop_spec:
  assumes "wf_config cfg" "list_all wf_opt os" "s_sp st \<le> s_op st"
    and "drop (s_op st) (sbuf st) = enc os @ DHO_END # rest" "s_op st + length (enc os) < mx"
  defines "w \<equiv> strip_walk cfg (is_dhcp st) os (good_agent_option st, s_out st, s_cnt st)"
  shows "\<exists>st'. strip_loop cfg mx st = Ret (fst w, st') \<and> (\<not> fst w \<longrightarrow> stripped st os st')
    \<and> (good_agent_option st', s_out st', s_cnt st') = snd w"
  using assms(2-5) unfolding w_def
proof (induction os arbitrary: st)
  case Nil
  have r: "rd (sbuf st) (s_op st) = Ret DHO_END" "s_op st < length (sbuf st)" using rd_drop Nil(3) by fastforce+
  have "take (s_sp st + 1) ((sbuf st)[s_sp st := DHO_END]) = take (s_sp st) (sbuf st) @ [DHO_END]"
    using Nil r by (simp add: take_Suc_conv_app_nth)
  moreover have "s_sp st = s_op st \<Longrightarrow> take (s_sp st + 1) (sbuf st) = take (s_sp st) (sbuf st) @ [DHO_END]"
    using r by (simp add: take_Suc_conv_app_nth rd_Ret)
  ultimately show ?case using Nil r by (subst strip_loop.simps) (simp add: Let_def stripped_def)
next
  case (Cons x os)
  show ?case
  proof (cases x)
    case Pad
    have d: "drop (s_op st) (sbuf st) = DHO_PAD # enc os @ DHO_END # rest" using Cons.prems(3) Pad by simp
    note r = rd_drop [OF d]
    obtain buf' where b: "copy_down (sbuf st) (s_sp st) (s_op st) 1 = Ret buf'" "length buf' = length (sbuf st)"
        "drop (s_op st + 1) buf' = drop (s_op st + 1) (sbuf st)"
        "take (s_sp st + 1) buf' = take (s_sp st) (sbuf st) @ take 1 (drop (s_op st) (sbuf st))"
        "s_sp st = s_op st \<longrightarrow> buf' = sbuf st"
      using copy_down_spec [OF Cons.prems(2), of 1 "sbuf st"] r by auto
    let ?st = "st\<lparr>sbuf := buf', s_op := s_op st + 1, s_sp := s_sp st + 1\<rparr>"
    have s: "strip_loop cfg mx st = strip_loop cfg mx ?st"
      using Cons.prems r b(1) by (subst strip_loop.simps) (simp add: Let_def)
    have "\<exists>st'. strip_loop cfg mx ?st = Ret (fst (strip_walk cfg (is_dhcp st) os (good_agent_option st, s_out st, s_cnt st)), st')
        \<and> (\<not> fst (strip_walk cfg (is_dhcp st) os (good_agent_option st, s_out st, s_cnt st)) \<longrightarrow> stripped ?st os st')
        \<and> (good_agent_option st', s_out st', s_cnt st') = snd (strip_walk cfg (is_dhcp st) os (good_agent_option st, s_out st, s_cnt st))"
      using Cons.IH [of ?st] Cons.prems Pad b r by simp
    moreover have "stripped ?st os st' \<Longrightarrow> stripped st (x # os) st'" for st'
      by (rule stripped_keep [of ?st]) (use Pad b d in simp_all)
    ultimately show ?thesis unfolding s Pad by auto
  next
    case (Opt c d)
    have d: "drop (s_op st) (sbuf st) = enc1 (Opt c d) @ enc os @ DHO_END # rest" and l: "length d \<le> 255"
      and c: "c \<noteq> DHO_PAD" "c \<noteq> DHO_END" and m: "s_op st + length d + 2 \<le> mx" "list_all wf_opt os"
      using Cons.prems Opt by simp_all
    note e = enc1_opt [OF d l]
    show ?thesis
    proof (cases "c = DHO_DHCP_AGENT_OPTIONS \<and> is_dhcp st")
      case False
      obtain st1 where st1: "strip_loop cfg mx st = strip_loop cfg mx st1"
        "s_sp st1 = s_sp st + (length d + 2)" "s_op st1 = s_op st + (length d + 2)"
        "take (s_sp st1) (sbuf st1) = take (s_sp st) (sbuf st) @ enc1 (Opt c d)" "length (sbuf st1) = length (sbuf st)"
        "s_sp st = s_op st \<longrightarrow> sbuf st1 = sbuf st" "drop (s_op st1) (sbuf st1) = enc os @ DHO_END # rest"
        "is_dhcp st1 = (is_dhcp st \<or> c = DHO_DHCP_MESSAGE_TYPE)"
        "(good_agent_option st1, s_out st1, s_cnt st1) = (good_agent_option st, s_out st, s_cnt st)"
        by (rule strip_loop_keep [OF d l c False Cons.prems(2) m(1), of cfg])
      have "stripped st1 os st' \<Longrightarrow> stripped st (x # os) st'" for st'
        by (rule stripped_keep [of st1]) (use st1 False Opt in auto)
      moreover have w: "strip_walk cfg (is_dhcp st) (x # os) (good_agent_option st, s_out st, s_cnt st)
          = strip_walk cfg (is_dhcp st1) os (good_agent_option st1, s_out st1, s_cnt st1)"
        using False Opt st1(8,9) by auto
      ultimately show ?thesis
        using Cons.IH [OF m(2), of st1] st1(2,3,7) Cons.prems(2,4) Opt unfolding st1(1) w by fastforce
    next
      case True
      obtain status u v where f: "agent_found cfg d (s_out st) (s_cnt st) = (status, u, v)" by (metis prod_cases3)
      have fi: "find_interface_by_agent_option cfg (sbuf st) (s_op st + 2) (length d) (s_out st) (s_cnt st) = Ret (status, u, v)"
        using find_interface_spec [OF assms(1), of "s_op st + 2" "length d" "sbuf st"] e(4,7) f by simp
      let ?st = "st\<lparr>s_out := u, s_cnt := v, s_op := s_op st + length d + 2, good_agent_option := True\<rparr>"
      have s: "strip_loop cfg mx st = (if status = - 1 \<and> drop_agent_mismatches cfg then Ret (True, st\<lparr>s_out := u, s_cnt := v\<rparr>)
          else strip_loop cfg mx ?st)"
        using Cons.prems(4) Opt True c e m fi agent_found_status [OF f] by (subst strip_loop.simps) (auto simp: Let_def)
      have "stripped st (x # os) st'" if "stripped ?st os st'" for st'
        by (rule stripped_remove [OF that, of x d]) (use True Opt Cons.prems(2) in simp_all) note r = this
      show ?thesis
      proof (cases "status = - 1 \<and> drop_agent_mismatches cfg")
        case drop: True
        then have "strip_walk cfg (is_dhcp st) (x # os) (good_agent_option st, s_out st, s_cnt st)
            = (True, good_agent_option st, u, v)" using Opt True f by simp
        then show ?thesis using drop unfolding s by simp
      next
        case keep: False
        then have w: "strip_walk cfg (is_dhcp st) (x # os) (good_agent_option st, s_out st, s_cnt st)
            = strip_walk cfg (is_dhcp ?st) os (good_agent_option ?st, s_out ?st, s_cnt ?st)" using Opt True f by auto
        have "s_sp ?st \<le> s_op ?st" "drop (s_op ?st) (sbuf ?st) = enc os @ DHO_END # rest" "s_op ?st + length (enc os) < mx"
          using Cons.prems(2,4) Opt e(6) by (simp_all add: ac_simps)
        from Cons.IH [OF m(2) this] keep r show ?thesis unfolding w s by metis
      qed
    qed
  qed
qed

text \<open>The packet with given options, and its length when it is padded to the minimum.\<close>

definition packet_with :: "byte list \<Rightarrow> dopt list \<Rightarrow> byte list" where
  "packet_with hdr os = hdr @ DHCP_OPTIONS_COOKIE @ enc os @ [DHO_END]"

definition padded :: "byte list \<Rightarrow> byte list" where
  "padded p = p @ replicate (BOOTP_MIN_LEN - length p) DHO_PAD"

lemma length_packet_with: "length hdr = DHCP_FIXED_NON_UDP \<Longrightarrow> length (packet_with hdr os) = 241 + length (enc os)"
  by (simp add: packet_with_def DHCP_FIXED_NON_UDP_def DHCP_OPTIONS_COOKIE_def)

lemma cookie_found:
  assumes "length hdr = DHCP_FIXED_NON_UDP"
  shows "rdn (packet_with hdr os @ rest) DHCP_FIXED_NON_UDP 4 = Ret DHCP_OPTIONS_COOKIE"
    "drop (DHCP_FIXED_NON_UDP + 4) (packet_with hdr os @ rest) = enc os @ DHO_END # rest"
    "take (DHCP_FIXED_NON_UDP + 4) (packet_with hdr os @ rest) = hdr @ DHCP_OPTIONS_COOKIE"
  using assms by (simp_all add: rdn_def packet_with_def DHCP_OPTIONS_COOKIE_def)

lemma write_padding:
  assumes "take n buf = p" "length p = n" "BOOTP_MIN_LEN \<le> length buf" "n \<le> length buf"
  shows "\<exists>buf'. (if n < BOOTP_MIN_LEN
      then bindC (wrn buf n (replicate (BOOTP_MIN_LEN - n) DHO_PAD)) (\<lambda>buf. Ret (f BOOTP_MIN_LEN buf))
      else Ret (f n buf)) = Ret (f (length (padded p)) buf')
    \<and> take (length (padded p)) buf' = padded p \<and> length buf' = length buf"
proof (cases "n < BOOTP_MIN_LEN")
  case True
  let ?z = "replicate (BOOTP_MIN_LEN - n) DHO_PAD"
  have "wrn buf n ?z = Ret (put buf n ?z)" using assms True by (intro wrn_in) simp
  then show ?thesis using True assms take_put [of n ?z buf]
    by (intro exI [of _ "put buf n ?z"]) (simp add: padded_def)
next
  case False
  then show ?thesis using assms by (intro exI [of _ buf]) (simp add: padded_def)
qed

lemma strip_spec:
  assumes "add_agent_options cfg" "wf_config cfg" "list_all wf_opt os" "length hdr = DHCP_FIXED_NON_UDP"
    and "DHO_DHCP_MESSAGE_TYPE \<in> opt_code ` set os" "length (packet_with hdr os) \<le> plen"
    and "BOOTP_MIN_LEN \<le> length (packet_with hdr os @ rest)"
    and w: "strip_walk cfg False os (False, out, cnt) = (False, True, out', cnt')"
  defines "os' \<equiv> strip_opts False os"
  shows "\<exists>buf'. strip_relay_agent_options cfg out (packet_with hdr os @ rest) plen cnt
      = Ret (if os' = os then plen else length (padded (packet_with hdr os')), buf', out', cnt')
    \<and> (if os' = os then buf' = packet_with hdr os @ rest
       else take (length (padded (packet_with hdr os'))) buf' = padded (packet_with hdr os'))"
proof -
  let ?b = "packet_with hdr os @ rest" and ?n = "DHCP_FIXED_NON_UDP + 4"
  let ?st = "\<lparr>sbuf = ?b, s_op = ?n, s_sp = ?n, is_dhcp = False, good_agent_option = False, s_out = out, s_cnt = cnt\<rparr>"
  have "?n + length (enc os) < plen" using assms(4,6) length_packet_with [OF assms(4)] by (simp add: DHCP_FIXED_NON_UDP_def)
  then obtain st' where st': "strip_loop cfg plen ?st = Ret (False, st')" "stripped ?st os st'"
      "(good_agent_option st', s_out st', s_cnt st') = (True, out', cnt')"
    using strip_loop_spec [OF assms(2,3), of ?st rest plen] cookie_found [OF assms(4)] w by auto
  have t: "take (?n + length (enc os') + 1) (sbuf st') = packet_with hdr os'" and d: "is_dhcp st'"
    and m: "if os' = os then s_sp st' = s_op st' \<and> sbuf st' = ?b else s_sp st' = ?n + length (enc os') + 1 \<and> s_sp st' < s_op st'"
    and l: "length (sbuf st') = length ?b"
    using st'(2) assms(5) cookie_found(3) [OF assms(4), of os rest]
    by (simp_all add: stripped_def Let_def os'_def packet_with_def split: if_splits)
  show ?thesis
  proof (cases "os' = os")
    case True
    then show ?thesis using assms(1) st' d m cookie_found(1) [OF assms(4)]
      by (simp add: strip_relay_agent_options_def Let_def)
  next
    case False
    have ne: "s_sp st' \<noteq> s_op st'" using m False by simp
    have lp: "length (packet_with hdr os') = s_sp st'" using m False length_packet_with [OF assms(4)]
      by (simp add: DHCP_FIXED_NON_UDP_def)
    have "s_sp st' \<le> length (sbuf st')" using t lp m False by (metis length_take min.cobounded1 min_def)
    then obtain buf' where b: "(if s_sp st' < BOOTP_MIN_LEN
        then bindC (wrn (sbuf st') (s_sp st') (replicate (BOOTP_MIN_LEN - s_sp st') DHO_PAD)) (\<lambda>buf. Ret (BOOTP_MIN_LEN, buf, out', cnt'))
        else Ret (s_sp st', sbuf st', out', cnt')) = Ret (length (padded (packet_with hdr os')), buf', out', cnt')"
        "take (length (padded (packet_with hdr os'))) buf' = padded (packet_with hdr os')"
      using write_padding [of "s_sp st'" "sbuf st'" "packet_with hdr os'" "\<lambda>n b. (n, b, out', cnt')"] t lp m False assms(7) l
      by (auto simp del: bindC.simps)
    have "strip_relay_agent_options cfg out ?b plen cnt = Ret (length (padded (packet_with hdr os')), buf', out', cnt')"
      using assms(1) st'(1,3) d ne cookie_found(1) [OF assms(4)] b(1)
      by (auto simp: strip_relay_agent_options_def Let_def split: if_splits)
    then show ?thesis using False b(2) by simp
  qed
qed

section \<open>Adding the agent option\<close>

text \<open>The options up to the last that is not padding.\<close>

fun trim :: "dopt list \<Rightarrow> dopt list" where
  "trim [] = []"
| "trim (x # os) = (if trim os = [] \<and> x = Pad then [] else x # trim os)"

text \<open>The packet length the relay may always use, whatever maximum the client asks for.\<close>

definition safe_length :: "relay_config \<Rightarrow> nat" where
  "safe_length cfg = min DHCP_MTU_MIN (dhcp_max_agent_option_packet_length cfg)"

text \<open>The options of a request that no relay agent has seen.\<close>

fun request_opt :: "dopt \<Rightarrow> bool" where
  "request_opt Pad = True"
| "request_opt (Opt c d) \<longleftrightarrow> c \<noteq> DHO_PAD \<and> c \<noteq> DHO_END \<and> length d \<le> 255 \<and> c \<noteq> DHO_DHCP_AGENT_OPTIONS
     \<and> (c = DHO_DHCP_MAX_MESSAGE_SIZE \<longrightarrow> d \<noteq> [])"

definition pad_start :: "add_state \<Rightarrow> nat" where
  "pad_start st = (case end_pad st of None \<Rightarrow> a_sp st | Some p \<Rightarrow> p)"

lemma end_pad_same: "end_pad st = p \<Longrightarrow> st\<lparr>end_pad := p\<rparr> = st"
  by (cases st) simp

lemma copy_down_same [simp]: "copy_down buf sp sp n = Ret buf"
  by (simp add: copy_down_def)

lemma add_loop_keep:
  assumes "drop (a_op st) (abuf st) = enc1 (Opt c d) @ ys" "request_opt (Opt c d)" "a_sp st = a_op st"
    and "a_op st + length d + 2 \<le> safe_length cfg" "safe_length cfg \<le> a_max st"
  obtains mx where "add_loop cfg st = add_loop cfg (st\<lparr>a_max := mx, a_is_dhcp := (a_is_dhcp st \<or> c = DHO_DHCP_MESSAGE_TYPE),
      a_op := a_op st + (length d + 2), a_sp := a_op st + (length d + 2), end_pad := None\<rparr>)" "safe_length cfg \<le> mx"
proof -
  have l: "length d \<le> 255" using assms(2) by simp
  note e = enc1_opt [OF assms(1) l]
  have m: "c = DHO_DHCP_MAX_MESSAGE_SIZE \<Longrightarrow> a_op st + 2 < length (abuf st)"
    using e(4) assms(2) by (cases d) auto
  let ?mx = "if c = DHO_DHCP_MAX_MESSAGE_SIZE \<and> ntohs_byte (abuf st ! (a_op st + 2)) < dhcp_max_agent_option_packet_length cfg
      \<and> ntohs_byte (abuf st ! (a_op st + 2)) \<ge> DHCP_MTU_MIN then ntohs_byte (abuf st ! (a_op st + 2)) else a_max st"
  have s: "safe_length cfg \<le> ?mx" using assms(5) by (auto simp: safe_length_def)
  have sk: "skip_option (st\<lparr>a_max := ?mx, a_is_dhcp := (a_is_dhcp st \<or> c = DHO_DHCP_MESSAGE_TYPE)\<rparr>)
      = Ret (Some (st\<lparr>a_max := ?mx, a_is_dhcp := (a_is_dhcp st \<or> c = DHO_DHCP_MESSAGE_TYPE),
          a_op := a_op st + (length d + 2), a_sp := a_op st + (length d + 2), end_pad := None\<rparr>))"
    using e assms(3,4) s by (simp add: skip_option_def Let_def)
  have "add_loop cfg st = add_loop cfg (st\<lparr>a_max := ?mx, a_is_dhcp := (a_is_dhcp st \<or> c = DHO_DHCP_MESSAGE_TYPE),
          a_op := a_op st + (length d + 2), a_sp := a_op st + (length d + 2), end_pad := None\<rparr>)"
    using e assms(2,4,5) m sk by (subst add_loop.simps) (auto simp: Let_def)
  then show ?thesis using s that by blast
qed

lemma add_loop_spec:
  assumes "list_all request_opt os" "a_sp st = a_op st" "drop (a_op st) (abuf st) = enc os @ DHO_END # rest"
    and "a_op st + length (enc os) < safe_length cfg" "safe_length cfg \<le> a_max st"
  shows "\<exists>st'. add_loop cfg st = Ret (Goto_out, st') \<and> abuf st' = abuf st \<and> safe_length cfg \<le> a_max st'
    \<and> a_is_dhcp st' = (a_is_dhcp st \<or> DHO_DHCP_MESSAGE_TYPE \<in> opt_code ` set os)
    \<and> pad_start st' = (if trim os = [] then pad_start st else a_sp st + length (enc (trim os)))"
  using assms
proof (induction os arbitrary: st)
  case Nil
  then have "rd (abuf st) (a_op st) = Ret DHO_END" using rd_drop by fastforce
  then show ?case using Nil by (subst add_loop.simps) simp
next
  case (Cons x os)
  show ?case
  proof (cases x)
    case Pad
    have d: "drop (a_op st) (abuf st) = DHO_PAD # enc os @ DHO_END # rest" using Cons.prems(3) Pad by simp
    note r = rd_drop [OF d]
    let ?st = "st\<lparr>end_pad := Some (pad_start st), abuf := abuf st, a_op := a_op st + 1, a_sp := a_sp st + 1\<rparr>"
    have "add_loop cfg st = add_loop cfg ?st"
      using Cons.prems r by (subst add_loop.simps) (auto simp: Let_def pad_start_def end_pad_same split: option.splits)
    then show ?thesis using Cons.IH [of ?st] Cons.prems Pad r by (auto simp: pad_start_def)
  next
    case (Opt c d)
    have e: "drop (a_op st) (abuf st) = enc1 (Opt c d) @ enc os @ DHO_END # rest" "request_opt (Opt c d)"
        "a_op st + length d + 2 \<le> safe_length cfg" using Cons.prems Opt by simp_all
    obtain mx where mx: "add_loop cfg st = add_loop cfg (st\<lparr>a_max := mx, a_is_dhcp := (a_is_dhcp st \<or> c = DHO_DHCP_MESSAGE_TYPE),
        a_op := a_op st + (length d + 2), a_sp := a_op st + (length d + 2), end_pad := None\<rparr>)" "safe_length cfg \<le> mx"
      by (rule add_loop_keep [OF e(1,2) Cons.prems(2) e(3) Cons.prems(5)])
    have "drop (a_op st + (length d + 2)) (abuf st) = enc os @ DHO_END # rest" using enc1_opt(6) [OF e(1)] e(2) by simp
    then show ?thesis
      using Cons.IH [of "st\<lparr>a_max := mx, a_is_dhcp := (a_is_dhcp st \<or> c = DHO_DHCP_MESSAGE_TYPE),
        a_op := a_op st + (length d + 2), a_sp := a_op st + (length d + 2), end_pad := None\<rparr>"] Cons.prems Opt mx
      by (auto simp: pad_start_def)
  qed
qed

lemma take_trim: "take (length (enc (trim os))) (enc os @ ys) = enc (trim os)"
proof (induction os arbitrary: ys)
  case (Cons x os)
  then show ?case by simp
qed simp

lemma agent_body_spec:
  assumes "wf_iface ip" "circuit_id ip = Some c" "agent_option_length ip ls = Ret optlen" "length gi = 4"
  obtains body where "agent_option_body ip ls gi = Ret body" "length body = optlen" "3 \<le> optlen" "optlen \<le> 255"
    "sub_circuit body None = Some (Some (take (circuit_id_len ip) c))" "has_circuit (take (circuit_id_len ip) c) ip"
proof -
  let ?n = "circuit_id_len ip"
  have l: "?n \<le> length c" "1 \<le> ?n" "?n \<le> 255"
    using assms by (auto simp: wf_iface_def agent_option_length_def cres_simps Let_def)
  have r: "remote_id_len ip \<le> length r \<and> 1 \<le> remote_id_len ip \<and> remote_id_len ip \<le> 255" if "remote_id ip = Some r" for r
    using assms that by (auto simp: wf_iface_def agent_option_length_def cres_simps Let_def)
  let ?rem = "case remote_id ip of None \<Rightarrow> [] | Some r \<Rightarrow> [RAI_REMOTE_ID, of_nat (remote_id_len ip)] @ take (remote_id_len ip) r"
  let ?link = "if ls then [RAI_LINK_SELECT, 4] @ gi else []"
  let ?b = "[RAI_CIRCUIT_ID, of_nat ?n] @ take ?n c @ ?rem @ ?link"
  have o: "optlen = length ?b" "3 \<le> optlen" "optlen \<le> 255"
    using assms l r by (auto simp: agent_option_length_def cres_simps Let_def split: option.splits)
  have b: "agent_option_body ip ls gi = Ret ?b"
    using assms l r by (auto simp: agent_option_body_def rdn_def split: option.splits)
  have "sub_circuit ?link (Some x) = Some (Some x)" for x using assms(4) by simp
  moreover have "sub_circuit (?rem @ ys) (Some x) = sub_circuit ys (Some x)" for x ys
    using r by (auto simp: unat_of_nat_byte split: option.splits)
  moreover have "sub_circuit ?b None = sub_circuit (?rem @ ?link) (Some (take ?n c))"
    using l by (simp add: unat_of_nat_byte)
  ultimately have "sub_circuit ?b None = Some (Some (take ?n c))" by simp
  moreover have "has_circuit (take ?n c) ip" using assms(2) l by (simp add: has_circuit_def)
  ultimately show ?thesis using that b o by auto
qed

lemma wr_end:
  assumes "take n b = p" "n < length b" "length p = n"
  shows "wr b n x = Ret (b[n := x])" "take (n + 1) (b[n := x]) = p @ [x]" "length (b[n := x]) = length b"
  using assms by (auto simp: take_Suc_conv_app_nth)

lemma take_put_below:
  assumes "i + length xs \<le> k" "k \<le> length b"
  shows "take k (put b i xs) = put (take k b) i xs"
  using assms by (simp add: put_def take_drop)

lemma put_append: "i + length xs \<le> length a \<Longrightarrow> put (a @ b) i xs = put a i xs @ b"
  by (simp add: put_def)

text \<open>The header after a relay that adds the link selection suboption has set the gateway address.\<close>

definition relayed_header :: "bool \<Rightarrow> byte list \<Rightarrow> byte list \<Rightarrow> byte list" where
  "relayed_header ls a hdr = (if ls then put hdr RELAY_GIADDR a else hdr)"

lemma write_agent_option:
  assumes "take sp buf = hdr @ DHCP_OPTIONS_COOKIE @ enc os" "length hdr = DHCP_FIXED_NON_UDP"
    and "length body \<le> 255" "sp + length body + 3 \<le> length buf" "ls \<longrightarrow> uplink_address cfg = Ret a \<and> length a = 4"
    and "sp = DHCP_FIXED_NON_UDP + 4 + length (enc os)"
  shows "\<exists>b1 b2. wrn buf sp ([DHO_DHCP_AGENT_OPTIONS, of_nat (length body)] @ body) = Ret b1
    \<and> (if ls then bindC (uplink_address cfg) (\<lambda>a. wrn b1 RELAY_GIADDR a) else Ret b1) = Ret b2
    \<and> length b2 = length buf
    \<and> take (sp + 2 + length body) b2 = relayed_header ls a hdr @ DHCP_OPTIONS_COOKIE @ enc (os @ [Opt DHO_DHCP_AGENT_OPTIONS body])"
proof -
  let ?o = "[DHO_DHCP_AGENT_OPTIONS, of_nat (length body)] @ body" and ?n = "sp + 2 + length body"
  let ?p = "DHCP_OPTIONS_COOKIE @ enc (os @ [Opt DHO_DHCP_AGENT_OPTIONS body])"
  have w: "wrn buf sp ?o = Ret (put buf sp ?o)" using assms(4) by (intro wrn_in) simp
  have t: "take ?n (put buf sp ?o) = hdr @ ?p" using take_put [of sp ?o buf] assms(1,4) by simp
  show ?thesis
  proof (cases ls)
    case True
    then have a: "length a = 4" "uplink_address cfg = Ret a" using assms(5) by auto
    have i: "RELAY_GIADDR + length a \<le> length hdr" using a assms(2) by (simp add: RELAY_GIADDR_def DHCP_FIXED_NON_UDP_def)
    have "wrn (put buf sp ?o) RELAY_GIADDR a = Ret (put (put buf sp ?o) RELAY_GIADDR a)"
      using assms(2,4,6) i by (intro wrn_in) simp
    moreover have "take ?n (put (put buf sp ?o) RELAY_GIADDR a) = put hdr RELAY_GIADDR a @ ?p"
      using take_put_below [of RELAY_GIADDR a ?n "put buf sp ?o"] put_append [OF i] t assms(2,4,6) i by simp
    ultimately show ?thesis using True a w assms(2,4,6) i by (simp add: relayed_header_def)
  next
    case False
    then show ?thesis using w t assms(4) by (simp add: relayed_header_def)
  qed
qed

lemma trim_nonempty: "x \<in> set os \<Longrightarrow> x \<noteq> Pad \<Longrightarrow> trim os \<noteq> []"
  by (induction os) auto

lemma message_type_kept: "DHO_DHCP_MESSAGE_TYPE \<in> opt_code ` set os \<Longrightarrow> DHO_DHCP_MESSAGE_TYPE \<in> opt_code ` set (trim os)"
  by (induction os) (auto split: if_splits)

lemma length_trim: "length (enc (trim os)) \<le> length (enc os)"
  by (induction os) auto

lemma add_spec:
  assumes "add_agent_options cfg" "list_all request_opt os" "DHO_DHCP_MESSAGE_TYPE \<in> opt_code ` set os"
    and h: "length hdr = DHCP_FIXED_NON_UDP"
    and ls: "ls = (add_rfc3527_suboption cfg \<and> take 4 (drop RELAY_GIADDR hdr) = [0, 0, 0, 0])"
    and o: "agent_option_length ip ls = Ret (length body)" "agent_option_body ip ls gi = Ret body" "length body \<le> 255"
    and l: "DHCP_FIXED_NON_UDP + 4 + length (enc os) + length body + 3 \<le> safe_length cfg"
      "safe_length cfg \<le> length (packet_with hdr os @ rest)" "BOOTP_MIN_LEN \<le> length (packet_with hdr os @ rest)"
    and "ls \<longrightarrow> uplink_address cfg = Ret a \<and> length a = 4"
  defines "p \<equiv> packet_with (relayed_header ls a hdr) (trim os @ [Opt DHO_DHCP_AGENT_OPTIONS body])"
  shows "\<exists>buf'. add_relay_agent_options cfg ip (packet_with hdr os @ rest) plen gi cnt = Ret (length (padded p), buf', cnt)
    \<and> take (length (padded p)) buf' = padded p \<and> length buf' = length (packet_with hdr os @ rest)"
proof -
  let ?b = "packet_with hdr os @ rest" and ?s = "DHCP_FIXED_NON_UDP + 4"
  let ?st = "\<lparr>abuf = ?b, a_op = ?s, a_sp = ?s, a_max = dhcp_max_agent_option_packet_length cfg, a_is_dhcp = False, end_pad = None\<rparr>"
  have "safe_length cfg \<le> dhcp_max_agent_option_packet_length cfg" by (simp add: safe_length_def)
  then obtain st' where st': "add_loop cfg ?st = Ret (Goto_out, st')" "abuf st' = ?b" "safe_length cfg \<le> a_max st'"
      "a_is_dhcp st'" "pad_start st' = (if trim os = [] then ?s else ?s + length (enc (trim os)))"
    using add_loop_spec [OF assms(2), of ?st rest cfg] cookie_found(2) [OF h, of os rest] l(1) assms(3)
    by (auto simp: pad_start_def)
  have sp: "pad_start st' = ?s + length (enc (trim os))" using st'(5) by (auto split: if_splits)
  have t: "take (pad_start st') ?b = hdr @ DHCP_OPTIONS_COOKIE @ enc (trim os)"
    using cookie_found(2,3) [OF h, of os rest] take_trim [of os "DHO_END # rest"] unfolding sp take_add by simp
  have r: "pad_start st' + length body + 3 \<le> safe_length cfg" using l(1) length_trim [of os] unfolding sp by linarith
  then have f: "pad_start st' + length body + 3 \<le> length ?b" using l(2) by linarith
  have g: "rdn ?b RELAY_GIADDR 4 = Ret (take 4 (drop RELAY_GIADDR hdr))"
    using h by (simp add: rdn_def packet_with_def RELAY_GIADDR_def DHCP_FIXED_NON_UDP_def)
  obtain b1 b2 where w: "wrn ?b (pad_start st') ([DHO_DHCP_AGENT_OPTIONS, of_nat (length body)] @ body) = Ret b1"
      "(if ls then bindC (uplink_address cfg) (\<lambda>a. wrn b1 RELAY_GIADDR a) else Ret b1) = Ret b2" "length b2 = length ?b"
      "take (pad_start st' + 2 + length body) b2
        = relayed_header ls a hdr @ DHCP_OPTIONS_COOKIE @ enc (trim os @ [Opt DHO_DHCP_AGENT_OPTIONS body])"
    using write_agent_option [OF t h o(3) f assms(12) sp] by blast
  let ?n = "pad_start st' + 2 + length body"
  let ?q = "relayed_header ls a hdr @ DHCP_OPTIONS_COOKIE @ enc (trim os @ [Opt DHO_DHCP_AGENT_OPTIONS body])"
  have n: "?n < length b2" using f w(3) by simp
  then have "length ?q = ?n" using w(4) by (metis length_take min.absorb4)
  note e = wr_end [OF w(4) n this, of DHO_END]
  have p: "take (?n + 1) (b2[?n := DHO_END]) = p" using e(2) by (simp add: p_def packet_with_def)
  obtain buf' where buf': "(if ?n + 1 < BOOTP_MIN_LEN
      then bindC (wrn (b2[?n := DHO_END]) (?n + 1) (replicate (BOOTP_MIN_LEN - (?n + 1)) DHO_PAD)) (\<lambda>buf. Ret (BOOTP_MIN_LEN, buf))
      else Ret (?n + 1, b2[?n := DHO_END])) = Ret (length (padded p), buf')"
      "take (length (padded p)) buf' = padded p" "length buf' = length ?b"
    using write_padding [OF p, of "\<lambda>n b. (n, b)"] p e(3) l(3) n w(3) by (auto simp del: bindC.simps)
  have "add_relay_agent_options cfg ip ?b plen gi cnt = Ret (length (padded p), buf', cnt)"
  proof -
    have m: "int (a_max st') - int (pad_start st') \<ge> int (length body) + 3" "?n < a_max st'" using r st'(3) by linarith+
    show ?thesis
      unfolding add_relay_agent_options_def place_agent_option_def finish_packet_def Let_def
      using assms(1) m
      by (simp only: cookie_found(1) [OF h] bindC.simps g ls [symmetric] st'(1,2,4) o(1,2) w(1,2) e(1) case_prod_conv
          pad_start_def [symmetric] if_True if_False not_True_eq_False not_False_eq_True simp_thms add_end.distinct buf'(1))
  qed
  then show ?thesis using buf'(2,3) by blast
qed

section \<open>A request and its reply\<close>

lemma message_type_not_pad: "DHO_PAD \<noteq> DHO_DHCP_MESSAGE_TYPE" "DHO_DHCP_MESSAGE_TYPE \<noteq> DHO_PAD"
  by simp_all

lemma strip_walk_request:
  "list_all request_opt os \<Longrightarrow>
    strip_walk cfg dh (os @ ys) f = strip_walk cfg (dh \<or> DHO_DHCP_MESSAGE_TYPE \<in> opt_code ` set os) ys f"
proof (induction os arbitrary: dh f)
  case (Cons x os)
  then show ?case by (cases x; cases f) (auto simp: message_type_not_pad disj_assoc)
qed simp

lemma strip_opts_request:
  "list_all request_opt os \<Longrightarrow>
    strip_opts dh (os @ ys) = os @ strip_opts (dh \<or> DHO_DHCP_MESSAGE_TYPE \<in> opt_code ` set os) ys"
proof (induction os arbitrary: dh)
  case (Cons x os)
  then show ?case by (cases x) (auto simp: message_type_not_pad disj_assoc)
qed simp

lemma request_trim: "list_all request_opt os \<Longrightarrow> list_all request_opt (trim os)"
  by (induction os) auto

lemma request_wf: "request_opt x \<Longrightarrow> wf_opt x"
  by (cases x) auto



text \<open>C3: A relay agent undoes what it did. From a packet to which \<open>add_relay_agent_options\<close> added the option for an
  interface, \<open>strip_relay_agent_options\<close> takes it out again, leaves the packet with its own
  options up to trailing padding, and finds the interface the request came in on.\<close>

theorem strip_undoes_add:
  assumes cfg: "add_agent_options cfg" "wf_config cfg"
    and ip: "k < length (interfaces cfg)" "ip = interfaces cfg ! k" "circuit_id ip = Some c"
      "circuit_index (interfaces cfg) 0 (take (circuit_id_len ip) c) = Some k"
    and os: "list_all request_opt os" "DHO_DHCP_MESSAGE_TYPE \<in> opt_code ` set os" "length hdr = DHCP_FIXED_NON_UDP"
    and ls: "ls = (add_rfc3527_suboption cfg \<and> take 4 (drop RELAY_GIADDR hdr) = [0, 0, 0, 0])"
      "ls \<longrightarrow> uplink_address cfg = Ret a \<and> length a = 4" "length gi = 4"
    and l: "agent_option_length ip ls = Ret optlen"
      "DHCP_FIXED_NON_UDP + 4 + length (enc os) + optlen + 3 \<le> safe_length cfg"
      "safe_length cfg \<le> length (packet_with hdr os @ rest)" "BOOTP_MIN_LEN \<le> length (packet_with hdr os @ rest)"
  shows "\<exists>n buf' n' buf''. add_relay_agent_options cfg ip (packet_with hdr os @ rest) plen gi cnt = Ret (n, buf', cnt)
    \<and> strip_relay_agent_options cfg out buf' n cnt = Ret (n', buf'', Some k, cnt)
    \<and> take n' buf'' = padded (packet_with (relayed_header ls a hdr) (trim os))"
proof -
  have "wf_iface ip" using cfg(2) ip(1,2) by (simp add: wf_config_def)
  then obtain body where b: "agent_option_body ip ls gi = Ret body" "length body = optlen" "optlen \<le> 255"
      "sub_circuit body None = Some (Some (take (circuit_id_len ip) c))"
    using agent_body_spec [OF _ ip(3) l(1) ls(3)] by metis
  let ?os = "trim os @ [Opt DHO_DHCP_AGENT_OPTIONS body]" and ?h = "relayed_header ls a hdr"
  let ?p = "packet_with ?h ?os"
  obtain buf' where add: "add_relay_agent_options cfg ip (packet_with hdr os @ rest) plen gi cnt = Ret (length (padded ?p), buf', cnt)"
      "take (length (padded ?p)) buf' = padded ?p" "length buf' = length (packet_with hdr os @ rest)"
    using add_spec [OF cfg(1) os(1,2,3) ls(1) _ b(1) _ _ l(3,4) ls(2)] l(1,2) b(2,3) by auto
  define rest' where "rest' = replicate (BOOTP_MIN_LEN - length ?p) DHO_PAD @ drop (length (padded ?p)) buf'"
  have buf': "buf' = ?p @ rest'"
    using add(2) append_take_drop_id [of "length (padded ?p)" buf'] by (simp add: rest'_def padded_def)
  have h: "length ?h = DHCP_FIXED_NON_UDP"
    using os(3) ls(2) by (auto simp: relayed_header_def RELAY_GIADDR_def DHCP_FIXED_NON_UDP_def)
  note t = request_trim [OF os(1)] message_type_kept [OF os(2)]
  have wf: "list_all wf_opt ?os" using t(1) b(2,3) by (auto simp: list_all_iff request_wf)
  have m: "DHO_DHCP_MESSAGE_TYPE \<in> opt_code ` set ?os" using t(2) by auto
  have w: "strip_walk cfg False ?os (False, out, cnt) = (False, True, Some k, cnt)"
    using strip_walk_request [OF t(1)] t(2) b(4) ip(4) by (simp add: agent_found_def)
  have s: "strip_opts False ?os = trim os" using strip_opts_request [OF t(1)] t(2) by simp
  have "length ?p \<le> length (padded ?p)" "BOOTP_MIN_LEN \<le> length (?p @ rest')"
    using l(4) add(3) by (simp_all add: padded_def flip: buf')
  from strip_spec [OF cfg wf h m this w]
  obtain buf'' where "strip_relay_agent_options cfg out buf' (length (padded ?p)) cnt
      = Ret (length (padded (packet_with ?h (trim os))), buf'', Some k, cnt)"
      "take (length (padded (packet_with ?h (trim os)))) buf'' = padded (packet_with ?h (trim os))"
    unfolding s buf' [symmetric] by auto
  then show ?thesis using add(1) by blast
qed

definition example_iface :: "byte \<Rightarrow> interface_info" where
  "example_iface n = \<lparr>addresses = [[10, 0, n, 1]], circuit_id = Some [101, n], circuit_id_len = 2, remote_id = None,
     remote_id_len = 0, upstream = True, downstream = True\<rparr>"

definition example_relay :: relay_config where
  "example_relay = \<lparr>add_agent_options = True, add_rfc3527_suboption = False, drop_agent_mismatches = True,
     agent_relay_mode = forward_and_replace, max_hop_count = 10, dhcp_max_agent_option_packet_length = 576,
     interfaces = [example_iface 48, example_iface 49], uplink = None, fallback_interface = None,
     servers = [[10, 9, 9, 9]], can_unicast_without_arp = True\<rparr>"

definition no_counts :: relay_counters where
  "no_counts = \<lparr>bogus_giaddr_drops = 0, client_packets_relayed = 0, server_packet_errors = 0, server_packets_relayed = 0,
     client_packet_errors = 0, agent_option_errors = 0, corrupt_agent_options = 0, missing_agent_option = 0,
     bad_circuit_id = 0, missing_circuit_id = 0\<rparr>"

lemma example_relay_facts:
  "add_agent_options example_relay" "wf_config example_relay" "safe_length example_relay = 576"
  "interfaces example_relay = [example_iface 48, example_iface 49]" "\<not> add_rfc3527_suboption example_relay"
  "\<not> has_circuit [101, 49] (example_iface 48)" "has_circuit [101, 49] (example_iface 49)"
  "circuit_id (example_iface n) = Some [101, n]" "circuit_id_len (example_iface n) = 2"
  "agent_option_length (example_iface n) False = Ret 4"
  by (simp_all add: example_relay_def wf_config_def wf_iface_def example_iface_def safe_length_def DHCP_MTU_MIN_def
      has_circuit_def agent_option_length_def)


theorem strip_undoes_add_witness:
  "\<exists>n buf' n' buf''. add_relay_agent_options example_relay (example_iface 49)
        (packet_with (replicate 236 0) [Opt 53 [1], Pad, Pad] @ replicate 400 7) 245 [10, 0, 49, 1] no_counts = Ret (n, buf', no_counts)
    \<and> strip_relay_agent_options example_relay None buf' n no_counts = Ret (n', buf'', Some 1, no_counts)
    \<and> take n' buf'' = padded (packet_with (relayed_header False [] (replicate 236 0)) (trim [Opt 53 [1], Pad, Pad]))"
proof -
  have h: "length (replicate 236 0 :: byte list) = DHCP_FIXED_NON_UDP" by (simp add: DHCP_FIXED_NON_UDP_def)
  show ?thesis
    by (rule strip_undoes_add [where c = "[101, 49]" and optlen = 4])
      (simp_all add: example_relay_facts h length_packet_with DHCP_FIXED_NON_UDP_def BOOTP_MIN_LEN_def)
qed

section \<open>Forwarding requests\<close>

lemma take_wrn: "wrn buf i xs = Ret buf' \<Longrightarrow> k \<le> i \<Longrightarrow> take k buf' = take k buf"
  by (auto simp: wrn_Ret min_def)

lemma take_copy_down: "copy_down buf sp op n = Ret buf' \<Longrightarrow> k \<le> sp \<Longrightarrow> take k buf' = take k buf"
  by (auto simp: copy_down_def bindC_eq_Ret_iff take_wrn split: if_splits)

text \<open>The loop over the options writes only after the options that are already there.\<close>

definition add_frame :: "nat \<Rightarrow> add_state \<Rightarrow> bool" where
  "add_frame n st \<longleftrightarrow> n \<le> a_sp st \<and> n \<le> pad_start st"

lemma skip_option_frame:
  assumes "skip_option st = Ret (Some st')" "add_frame n st"
  shows "add_frame n st' \<and> take n (abuf st') = take n (abuf st)"
  using assms take_copy_down [of "abuf st" "a_sp st"]
  by (auto simp: skip_option_def bindC_eq_Ret_iff Let_def add_frame_def pad_start_def split: if_splits)

lemma add_loop_frame:
  assumes "add_loop cfg st = Ret (e, st')" "add_frame n st"
  shows "add_frame n st' \<and> take n (abuf st') = take n (abuf st)"
  using assms
proof (induction cfg st arbitrary: e st' rule: add_loop.induct)
  case (1 cfg st)
  show ?case
  proof (cases "a_op st < a_max st")
    case False
    then show ?thesis using 1(4,5) by (simp add: add_loop.simps)
  next
    case True
    obtain c where c: "rd (abuf st) (a_op st) = Ret c"
      using 1(4) True by (auto simp: add_loop.simps [of cfg st] bindC_eq_Ret_iff)
    note u = 1(4) [unfolded add_loop.simps [of cfg st] c bindC.simps if_P [OF True]]
    show ?thesis
    proof (cases "c = DHO_PAD")
      case pad: True
      let ?st = "st\<lparr>end_pad := (if end_pad st = None then Some (a_sp st) else end_pad st)\<rparr>"
      obtain b where b: "copy_down (abuf st) (a_sp st) (a_op st) 1 = Ret b"
          "add_loop cfg (?st\<lparr>abuf := b, a_op := a_op ?st + 1, a_sp := a_sp ?st + 1\<rparr>) = Ret (e, st')"
        using u pad by (auto simp: Let_def bindC_eq_Ret_iff)
      have f: "add_frame n (?st\<lparr>abuf := b, a_op := a_op ?st + 1, a_sp := a_sp ?st + 1\<rparr>)" "take n b = take n (abuf st)"
        using 1(5) take_copy_down [OF b(1)] by (auto simp: add_frame_def pad_start_def split: option.splits if_splits)
      from 1(1) [OF True c pad refl _ b(2) f(1)] b(1) f(2) show ?thesis by simp
    next
      case npad: False
      consider (ends) "c = DHO_END \<or> c = DHO_DHCP_AGENT_OPTIONS \<and> a_is_dhcp st
            \<and> (agent_relay_mode cfg = forward_untouched \<or> agent_relay_mode cfg = discard)"
        | (replace) "c \<noteq> DHO_END" "c = DHO_DHCP_AGENT_OPTIONS \<and> a_is_dhcp st \<and> agent_relay_mode cfg = forward_and_replace"
        | (skip) "c \<noteq> DHO_END" "\<not> (c = DHO_DHCP_AGENT_OPTIONS \<and> a_is_dhcp st \<and> agent_relay_mode cfg = forward_untouched)"
            "\<not> (c = DHO_DHCP_AGENT_OPTIONS \<and> a_is_dhcp st \<and> agent_relay_mode cfg = discard)"
            "\<not> (c = DHO_DHCP_AGENT_OPTIONS \<and> a_is_dhcp st \<and> agent_relay_mode cfg = forward_and_replace)" by blast
      then show ?thesis
      proof cases
        case ends
        then show ?thesis using u npad 1(5) by (auto simp: add_frame_def pad_start_def split: if_splits)
      next
        case replace
        then obtain l where l: "rd (abuf st) (a_op st + 1) = Ret l"
            "add_loop cfg (st\<lparr>end_pad := None, a_op := a_op st + unat l + 2\<rparr>) = Ret (e, st')"
          using u npad by (auto simp: bindC_eq_Ret_iff)
        have "add_frame n (st\<lparr>end_pad := None, a_op := a_op st + unat l + 2\<rparr>)"
          using 1(5) by (simp add: add_frame_def pad_start_def)
        from 1(2) [OF True c npad replace(1) _ _ replace(2) l this] replace show ?thesis by simp
      next
        case skip
        note v = u [unfolded if_not_P [OF npad] if_not_P [OF skip(1)] if_not_P [OF skip(2)] if_not_P [OF skip(3)] if_not_P [OF skip(4)]]
        then obtain mx r where mx: "(if c = DHO_DHCP_MAX_MESSAGE_SIZE then
                   bindC (rd (abuf st) (a_op st + 2)) (\<lambda>b.
                   let mms = ntohs_byte b in
                   Ret (if mms < dhcp_max_agent_option_packet_length cfg \<and> mms \<ge> DHCP_MTU_MIN then mms else a_max st))
                 else Ret (a_max st)) = Ret mx"
            "skip_option (st\<lparr>a_max := mx, a_is_dhcp := (a_is_dhcp st \<or> c = DHO_DHCP_MESSAGE_TYPE)\<rparr>) = Ret r"
            "(case r of None \<Rightarrow> Ret (Return_zero, st) | Some st \<Rightarrow> add_loop cfg st) = Ret (e, st')"
          unfolding bindC_eq_Ret_iff by blast
        have f: "add_frame n (st\<lparr>a_max := mx, a_is_dhcp := (a_is_dhcp st \<or> c = DHO_DHCP_MESSAGE_TYPE)\<rparr>)"
          using 1(5) by (simp add: add_frame_def pad_start_def split: option.splits)
        show ?thesis
        proof (cases r)
          case None
          then show ?thesis using mx(3) 1(5) by simp
        next
          case (Some st2)
          then show ?thesis
            using 1(3) [OF True c npad skip mx(1,2) Some] mx(2,3) skip_option_frame [OF _ f, of st2] by simp
        qed
      qed
    qed
  qed
qed

lemma take_mono: "take m a = take m b \<Longrightarrow> k \<le> m \<Longrightarrow> take k a = take k b"
  by (metis min.absorb1 take_take)

lemma take_wr: "wr b i x = Ret b' \<Longrightarrow> k \<le> i \<Longrightarrow> take k b' = take k b"
  by (auto simp: wr_Ret)

lemma place_agent_option_frame:
  "place_agent_option cfg ip ls gi mx sp buf cnt = Ret (buf', sp', cnt') \<Longrightarrow> RELAY_GIADDR \<le> sp \<Longrightarrow>
    take RELAY_GIADDR buf' = take RELAY_GIADDR buf \<and> sp \<le> sp'"
  by (auto simp: place_agent_option_def bindC_eq_Ret_iff take_wrn split: if_splits)

lemma finish_packet_frame:
  assumes "finish_packet mx buf sp = Ret (n, buf')" "k \<le> sp"
  shows "take k buf' = take k buf \<and> (sp \<le> n \<or> n = BOOTP_MIN_LEN)"
  using assms(1,2) take_wr [of buf sp DHO_END]
  by (auto simp: finish_packet_def bindC_eq_Ret_iff take_wrn split: if_splits)

lemma add_relay_frame:
  assumes "add_relay_agent_options cfg ip buf plen gi cnt = Ret (n, buf', cnt')"
  shows "take RELAY_GIADDR buf' = take RELAY_GIADDR buf \<and> (n = 0 \<or> n = plen \<or> DHCP_FIXED_NON_UDP < n)"
proof -
  let ?s = "DHCP_FIXED_NON_UDP + 4"
  let ?st = "\<lparr>abuf = buf, a_op = ?s, a_sp = ?s, a_max = dhcp_max_agent_option_packet_length cfg, a_is_dhcp = False, end_pad = None\<rparr>"
  have loop: "take RELAY_GIADDR (abuf st) = take RELAY_GIADDR buf" "?s \<le> pad_start st" if "add_loop cfg ?st = Ret (e, st)" for e st
    using add_loop_frame [OF that, of ?s] take_mono [of ?s "abuf st" buf RELAY_GIADDR]
    by (simp_all add: add_frame_def pad_start_def RELAY_GIADDR_def DHCP_FIXED_NON_UDP_def)
  have place: "take RELAY_GIADDR b = take RELAY_GIADDR (abuf st) \<and> ?s \<le> sp"
    if "place_agent_option cfg ip ls gi mx (pad_start st) (abuf st) cnt = Ret (b, sp, cnt')" "?s \<le> pad_start st" for ls mx st b sp cnt'
    using place_agent_option_frame [OF that(1)] that(2) by (simp add: RELAY_GIADDR_def DHCP_FIXED_NON_UDP_def)
  have finish: "take RELAY_GIADDR b' = take RELAY_GIADDR b \<and> DHCP_FIXED_NON_UDP < n" if "finish_packet mx b sp = Ret (n, b')" "?s \<le> sp"
    for mx b sp n b'
    using finish_packet_frame [OF that(1), of RELAY_GIADDR] that(2)
    by (auto simp: RELAY_GIADDR_def DHCP_FIXED_NON_UDP_def BOOTP_MIN_LEN_def)
  show ?thesis
    using assms unfolding add_relay_agent_options_def Let_def pad_start_def [symmetric]
    by (auto simp: bindC_eq_Ret_iff split: if_splits dest!: finish dest: place loop) (metis loop place)
qed


lemma send_to_servers_sent:
  "send_to_servers send_ok n p sps cnt = (cnt', ps) \<Longrightarrow> ps = map (\<lambda>a. p\<lparr>sent_to := a\<rparr>) sps"
  by (induction sps arbitrary: n cnt cnt' ps) (auto split: prod.splits)

text \<open>C37: A request is forwarded to all servers or to none. A copy that is sent out carries a hop count
  that is one more than that of the request and not above the configured maximum, so
  that a packet that goes round in a loop of relay agents is dropped.\<close>

theorem forwarded_request_hops:
  assumes "do_relay4 cfg send_ok k buf plen cnt = Ret (buf', cnt', ps)" "buf ! 0 \<noteq> BOOTREPLY" "DHCP_FIXED_NON_UDP \<le> plen"
    and "max_hop_count cfg \<le> 255"
  shows "ps = [] \<or> map sent_to ps = servers cfg
    \<and> (\<forall>p \<in> set ps. unat (sent_data p ! OFF_HOPS) = unat (buf ! OFF_HOPS) + 1 \<and> unat (buf ! OFF_HOPS) + 1 \<le> max_hop_count cfg)"
proof (cases "ps = []")
  case False
  from assms(1,2) False obtain ip out where r: "relay_request cfg send_ok ip buf plen out cnt = Ret (buf', cnt', ps)"
    by (auto simp: do_relay4_def bindC_eq_Ret_iff Let_def rd_Ret split: if_splits)
  then obtain a n b c1 b2 where a: "add_relay_agent_options cfg ip buf plen a cnt = Ret (n, b, c1)" "n \<noteq> 0"
      "b2 = b \<or> wrn b RELAY_GIADDR a = Ret b2" "OFF_HOPS < length b2" "unat (b2 ! OFF_HOPS) < max_hop_count cfg"
      "n \<le> length b2"
      "\<exists>on c2. send_to_servers send_ok 0 \<lparr>sent_on = on, sent_data = take n (b2[OFF_HOPS := b2 ! OFF_HOPS + 1]), sent_from = a,
          sent_to = [], sent_hto = None\<rparr> (servers cfg) c1 = (c2, ps)"
    using False by (auto simp: relay_request_def bindC_eq_Ret_iff Let_def rd_Ret wr_Ret rdn_Ret split: if_splits prod.splits) blast+
  have o: "OFF_HOPS < RELAY_GIADDR" "OFF_HOPS < DHCP_FIXED_NON_UDP"
    by (simp_all add: OFF_HOPS_def RELAY_GIADDR_def DHCP_FIXED_NON_UDP_def)
  have "take RELAY_GIADDR b2 = take RELAY_GIADDR buf" "OFF_HOPS < n"
    using add_relay_frame [OF a(1)] a(2,3) take_wrn [of b RELAY_GIADDR a b2 RELAY_GIADDR] o assms(3) by auto
  then have h: "b2 ! OFF_HOPS = buf ! OFF_HOPS" "OFF_HOPS < n" using o(1) by (metis nth_take)+
  have u: "unat (b2 ! OFF_HOPS + 1) = unat (b2 ! OFF_HOPS) + 1"
    using a(5) assms(4) by (simp add: unat_word_ariths)
  obtain on where ps: "ps = map (\<lambda>x. \<lparr>sent_on = on, sent_data = take n (b2[OFF_HOPS := b2 ! OFF_HOPS + 1]), sent_from = a,
      sent_to = x, sent_hto = None\<rparr>) (servers cfg)"
    using a(7) send_to_servers_sent by fastforce
  have "take n (b2[OFF_HOPS := b2 ! OFF_HOPS + 1]) ! OFF_HOPS = b2 ! OFF_HOPS + 1" using h(2) a(4) by simp
  then show ?thesis using ps u h(1) a(5) by (auto simp: comp_def)
qed simp

lemma replicate_four: "replicate 4 x = [x, x, x, x]"
  by (simp add: numeral_eq_Suc)

lemma example_request:
  "\<exists>buf' cnt'. do_relay4 (example_relay\<lparr>add_agent_options := False\<rparr>) (\<lambda>n. True) 0 (replicate 300 0) 300 no_counts
     = Ret (buf', cnt', [\<lparr>sent_on = Some 0, sent_data = buf', sent_from = [10, 0, 48, 1], sent_to = [10, 9, 9, 9], sent_hto = None\<rparr>])"
  by (simp add: do_relay4_def relay_request_def add_relay_agent_options_def example_relay_def example_iface_def rdn_def wrn_def
      OFF_HLEN_def OFF_HOPS_def RELAY_GIADDR_def Let_def replicate_four nth_append)

theorem forwarded_request_hops_witness:
  "\<exists>buf' cnt' p. do_relay4 (example_relay\<lparr>add_agent_options := False\<rparr>) (\<lambda>n. True) 0 (replicate 300 0) 300 no_counts
     = Ret (buf', cnt', [p]) \<and> unat (sent_data p ! OFF_HOPS) = 1"
proof -
  obtain buf' cnt' p where r: "do_relay4 (example_relay\<lparr>add_agent_options := False\<rparr>) (\<lambda>n. True) 0 (replicate 300 0) 300 no_counts
     = Ret (buf', cnt', [p])" using example_request by blast
  have "unat (sent_data p ! OFF_HOPS) = 1"
    using forwarded_request_hops [OF r] by (simp add: DHCP_FIXED_NON_UDP_def example_relay_def OFF_HOPS_def)
  then show ?thesis using r by blast
qed

end
