(* ===== verification/Spec2Isabelle.thy ===== *)
theory Spec2Isabelle
  imports Convert Lease_Pool Pool6_Inv Inet_Addr Hash_Table Ns_Name Packet_Headers Relay_Inv
begin

text \<open>
  Verification of parts of ISC DHCP 4.3.4: the server, relay and library code under \<open>src/\<close>.

  \<^bold>\<open>The program.\<close> The server keeps leases of addresses in pools. An IPv4 lease is on one queue
  of its pool, the one of its binding state; an IPv6 lease is in the hash table of its pool and in
  one of two heaps ordered by time. Packets are read from a link layer device, so that the program
  takes off and puts on Ethernet, IP and UDP headers itself. Options and domain names are decoded
  from and encoded into packets. The relay agent forwards packets between clients and servers and
  marks the requests with an option of its own. Below these parts lies a small library: hash
  tables, a priority queue, integers in network order, arithmetic on addresses.

  \<^bold>\<open>Conventions.\<close> A C function is a HOL function on the memory it reads and writes. Its result is
  \<open>Ret\<close> of the values it returns, \<open>Fatal\<close> when the process stops (\<open>log_fatal\<close>, a failed
  assertion), \<open>Undef\<close> when it touches memory outside an object. A pointer into a buffer is an
  index, a pointer to an object is the number of the object in a store. The outcomes of allocation
  and of sending, random numbers, MD5 and uninitialised locals are arguments. Where an operation
  allocates more than once there is an outcome for each time. Most theorems hold for all outcomes;
  those on the timeout heaps of IPv6 pools have the hypothesis \<open>room\<close>, that the heap has a free place
  or can grow, and \<open>bucket\<close>, that there is a bucket for a hash entry, as the code does not undo a
  failed insertion. Effects outside a component (sending a packet, timers, dynamic DNS, the
  lease file, statements of the configuration, references) are events in a trace.

  \<^bold>\<open>Theories.\<close>
  \<^item> \<open>Dhcp_Prelude\<close>: machine integers, results, reads and writes of buffers, big-endian numbers.
  \<^item> \<open>Convert\<close> (\<open>omapip/convert.c\<close>): \<open>getULong\<close>, \<open>putULong\<close> and their relatives, and
    \<open>converted_length\<close>, \<open>binary_to_ascii\<close>. The digits that are written are those of the number;
    in base 10 the length is one too high from 1410065408 on.
  \<^item> \<open>Inet_Addr\<close> (\<open>common/inet.c\<close>): subnet, broadcast and host arithmetic, masks, comparison,
    \<open>range2cidr\<close>, lists of networks. The functions are compared with arithmetic on the numbers
    the addresses stand for; \<open>range2cidr\<close> returns networks that cover exactly the range.
  \<^item> \<open>Hash_Table\<close> (\<open>omapip/hash.c\<close>): any sequence of additions and deletions behaves like one
    stack of values per key (interface \<open>key_store\<close>), where an addition without memory is dropped;
    keys are not empty, and tables that take references also drop them; indices are in range; references are counted.
  \<^item> \<open>Isc_Heap\<close> (\<open>common/heap.c\<close>): the heap with its index callback, over any order that
    satisfies the interface \<open>heap_order\<close>. The file is the repository's copy of the heap of BIND's
    \<open>libisc\<close>; it is in no makefile. The server is linked with the library, whose source is not in
    the repository, and this file stands for it in the theories of \<open>server/mdb6.c\<close>.
  \<^item> \<open>Mdb6\<close>, \<open>Addr6\<close>, \<open>Pool6\<close>, \<open>Pool6_Inv\<close> (\<open>server/mdb6.c\<close>): leases and their order in time,
    construction of addresses and prefixes, pools and identity associations, and the invariant of a
    pool, which adding, creating, renewing active leases, releasing and expiring leases keep under
    the hypotheses of their theorems. Declining keeps it but for the counter of abandoned leases,
    which is one too high when a lease is declined twice. Renewing an inactive lease is modelled but
    has no theorem, as the code changes the order of a lease while it is in a heap.
  \<^item> \<open>Lease_Chain\<close> (\<open>server/leasechain.c\<close>), \<open>Lease_Queue\<close>, \<open>Lease_Pool\<close> (\<open>server/mdb.c\<close>): the two
    implementations of the lease queues, the interface \<open>lease_queue\<close> both satisfy, and the move of
    a lease between the queues of a pool in \<open>supersede_lease\<close>, proved over the interface.
  \<^item> \<open>Ns_Name\<close> (\<open>common/ns_name.c\<close>): domain names in text and wire format. Uncompressing a name is safe on
    any message, a list of names needs one byte more than the size it is told, printing and reading are inverse, and so are packing and unpacking.
  \<^item> \<open>Packet_Headers\<close> (\<open>common/packet.c\<close>, \<open>common/ethernet.c\<close>): headers and checksums. Decoding is
    safe on any packet, and gives back what was assembled.
  \<^item> \<open>Relay\<close>, \<open>Relay_Inv\<close> (\<open>relay/dhcrelay.c\<close>): relaying of DHCPv4 packets. What the relay puts into
    a request it takes out of the reply, and it then finds the interface of the client.

  \<^bold>\<open>Loops and bounds.\<close> Loops over an index are recursive functions that end by their measure. Walks
  along linked lists are partial functions with result \<open>None\<close> when they do not end, and the
  theorems say that they end. \<open>create_lease6\<close> and \<open>create_prefix6\<close> try as often as the code does (the
  bound is the source's own, 100 and 10). The timers of the IPv6 pools are partial functions too;
  that they end is part of their theorems. No function has fuel of its own invention.

  \<^bold>\<open>Not modelled.\<close> The parsers of configuration and lease file build objects in global tables through
  pointers to functions and unions of dozens of types; their result is the state that the modelled
  parts start from. Evaluation of expressions calls regular expression, DNS and hash libraries. The
  message handlers of server and clients consist of calls of these two and of output. Sockets,
  device access, LDAP and dynamic DNS are operating system or library calls. OMAPI is a protocol
  over connections whose objects are reached by pointers to functions. Memory management (reference
  counts, freeing) appears only as events. Token ring and FDDI headers depend on structures of the
  system.
\<close>

end
